(* ===== verification/Prelude.thy ===== *)
theory Prelude
  imports Main "HOL-Library.Word"
begin

text \<open>
  Shared vocabulary of the development: the fixed-width integer types of the C code, the
  collections the component theories add their facts to, the counted loops, and the generic
  lemmas on words, folds and decimal digits that several components use.
\<close>

unbundle bit_operations_syntax

type_synonym u8 = "8 word"
type_synonym u16 = "16 word"
type_synonym u32 = "32 word"
type_synonym u64 = "64 word"

named_theorems frame "fields that an operation leaves alone"
named_theorems defs "defining equations of straight-line operations"

subsection \<open>Counted loops\<close>

text \<open>
  \<open>for (i = lo; i < hi; i++) body\<close> with an unsigned 64-bit counter and a bound the body does
  not change. The counter never wraps: it stays below \<open>hi\<close> until the last comparison.
\<close>

definition for_u64 :: "u64 \<Rightarrow> u64 \<Rightarrow> (u64 \<Rightarrow> 's \<Rightarrow> 's) \<Rightarrow> 's \<Rightarrow> 's" where
  "for_u64 lo hi body s = fold (\<lambda>k. body (word_of_nat k)) [unat lo..<unat hi] s"

text \<open>\<open>for (int i = lo; i < hi; i++) body\<close> with non-negative bounds known at compile time.\<close>

definition for_int :: "nat \<Rightarrow> nat \<Rightarrow> (nat \<Rightarrow> 's \<Rightarrow> 's) \<Rightarrow> 's \<Rightarrow> 's" where
  "for_int lo hi body s = fold body [lo..<hi] s"

lemma fold_invariant_idx:
  assumes "P lo s" and "lo \<le> hi"
    and "\<And>k t. lo \<le> k \<Longrightarrow> k < hi \<Longrightarrow> P k t \<Longrightarrow> P (Suc k) (f k t)"
  shows "P hi (fold f [lo..<hi] s)"
  using assms(2,3)
proof (induction hi rule: dec_induct)
  case base
  then show ?case using assms(1) by simp
next
  case (step n)
  then have "P n (fold f [lo..<n] s)" by simp
  then show ?case using step by simp
qed

lemma for_int_rule:
  assumes "P lo s" and "lo \<le> hi"
    and "\<And>k t. lo \<le> k \<Longrightarrow> k < hi \<Longrightarrow> P k t \<Longrightarrow> P (Suc k) (f k t)"
  shows "P hi (for_int lo hi f s)"
  unfolding for_int_def using assms by (rule fold_invariant_idx)

lemma for_u64_rule:
  assumes "P (unat lo) s" and "unat lo \<le> unat hi"
    and "\<And>k t. unat lo \<le> k \<Longrightarrow> k < unat hi \<Longrightarrow> P k t \<Longrightarrow> P (Suc k) (f (word_of_nat k) t)"
  shows "P (unat hi) (for_u64 lo hi f s)"
  unfolding for_u64_def using assms by (rule fold_invariant_idx)

lemma for_u64_empty: "unat hi \<le> unat lo \<Longrightarrow> for_u64 lo hi f s = s"
  by (simp add: for_u64_def)

lemma for_u64_frame:
  assumes "\<And>i t. g (f i t) = g t"
  shows "g (for_u64 lo hi f s) = g s"
proof -
  have "g (fold (\<lambda>k. f (word_of_nat k)) ks t) = g t" for ks t
    by (induction ks arbitrary: t) (simp_all add: assms)
  then show ?thesis by (simp add: for_u64_def)
qed

lemma for_int_frame:
  assumes "\<And>i t. g (f i t) = g t"
  shows "g (for_int lo hi f s) = g s"
proof -
  have "g (fold f ks t) = g t" for ks t
    by (induction ks arbitrary: t) (simp_all add: assms)
  then show ?thesis by (simp add: for_int_def)
qed

subsection \<open>Words\<close>

lemma unat_Suc_below:
  fixes i n :: "'w::len word"
  shows "i < n \<Longrightarrow> unat (i + 1) = Suc (unat i)"
proof -
  assume "i < n"
  then have "unat i < unat n" by (simp add: word_less_nat_alt)
  moreover have "unat n < 2 ^ LENGTH('w)" by (rule unsigned_less)
  ultimately have "Suc (unat i) < 2 ^ LENGTH('w)" by linarith
  then show ?thesis by (simp add: unat_word_ariths)
qed

lemma unat_of_nat_below:
  fixes n :: "'w::len word"
  assumes "k < unat n"
  shows "unat (word_of_nat k :: 'w word) = k"
proof -
  have "unat n < 2 ^ LENGTH('w)" by (rule unsigned_less)
  with assms have "k < 2 ^ LENGTH('w)" by linarith
  then show ?thesis by (simp only: unat_of_nat mod_less)
qed

lemma words_below: "{m. m < n} = word_of_nat ` {..<unat n}" for n :: "'w::len word"
proof (intro equalityI subsetI)
  fix m assume "m \<in> {m. m < n}"
  then have "unat m \<in> {..<unat n}" by (simp add: word_less_nat_alt)
  then show "m \<in> word_of_nat ` {..<unat n}" by (intro image_eqI [of _ _ "unat m"]) simp_all
next
  fix m :: "'w word" assume "m \<in> word_of_nat ` {..<unat n}"
  then obtain k where k: "m = word_of_nat k" "k < unat n" by blast
  then show "m \<in> {m. m < n}" by (simp only: word_less_nat_alt unat_of_nat_below mem_Collect_eq)
qed

lemma card_below_word: "card {m. m < n} = unat n" for n :: "'w::len word"
proof -
  have "inj_on (word_of_nat :: nat \<Rightarrow> 'w word) {..<unat n}"
    by (rule inj_on_inverseI [of _ unat]) (simp only: unat_of_nat_below lessThan_iff)
  then show ?thesis by (simp add: words_below card_image)
qed

lemma unat_add_exact:
  fixes a b :: "'w::len word"
  shows "unat a + unat b < 2 ^ LENGTH('w) \<Longrightarrow> unat (a + b) = unat a + unat b"
  by (simp add: unat_word_ariths)

lemma unat_mult_exact:
  fixes a b :: "'w::len word"
  shows "unat a * unat b < 2 ^ LENGTH('w) \<Longrightarrow> unat (a * b) = unat a * unat b"
  by (simp add: unat_word_ariths)

lemma unat_sub_exact:
  fixes a b :: "'w::len word"
  shows "b \<le> a \<Longrightarrow> unat (a - b) = unat a - unat b"
  by (rule unat_sub)

text \<open>A fact about every byte, by checking the 256 of them.\<close>

lemma u8_all:
  assumes "list_all (\<lambda>k. P (word_of_nat k)) [0..<256]"
  shows "P (b :: u8)"
proof -
  have "unat b < 2 ^ LENGTH(8)" by (rule unsigned_less)
  then have "unat b < 256" by simp
  with assms have "P (word_of_nat (unat b))"
    unfolding list_all_iff set_upt by (meson atLeastLessThan_iff zero_le)
  then show ?thesis by simp
qed

subsection \<open>Decimal digits\<close>

text \<open>The decimal numeral of a natural number: the reference for every number printer.\<close>

definition digit_char :: "nat \<Rightarrow> char" where
  "digit_char d = char_of (48 + d)"

fun dec_string :: "nat \<Rightarrow> string" where
  "dec_string n = (if n < 10 then [digit_char n] else dec_string (n div 10) @ [digit_char (n mod 10)])"

declare dec_string.simps [simp del]

lemma digit_char_0: "digit_char 0 = CHR ''0''"
  by code_simp

text \<open>Reading a numeral back.\<close>

definition digit_val :: "char \<Rightarrow> nat" where
  "digit_val c = of_char c - 48"

definition dec_value :: "string \<Rightarrow> nat" where
  "dec_value cs = foldl (\<lambda>n c. 10 * n + digit_val c) 0 cs"

lemma digit_val_char [simp]: "d < 10 \<Longrightarrow> digit_val (digit_char d) = d"
  by (simp add: digit_val_def digit_char_def)

lemma dec_value_snoc [simp]: "dec_value (cs @ [c]) = 10 * dec_value cs + digit_val c"
  by (simp add: dec_value_def)

lemma dec_value_dec_string: "dec_value (dec_string n) = n"
proof (induction n rule: dec_string.induct)
  case (1 n)
  show ?case
  proof (cases "n < 10")
    case True
    then show ?thesis by (subst dec_string.simps) (simp add: dec_value_def)
  next
    case False
    with 1 have "dec_value (dec_string (n div 10)) = n div 10" by simp
    with False show ?thesis by (subst dec_string.simps) simp
  qed
qed

lemma dec_string_nonempty [simp]: "dec_string n \<noteq> []"
  by (subst dec_string.simps) simp

lemma dec_string_digits: "c \<in> set (dec_string n) \<Longrightarrow> \<exists>d<10. c = digit_char d"
proof (induction n rule: dec_string.induct)
  case (1 n)
  show ?case
  proof (cases "n < 10")
    case True
    with 1 show ?thesis by (subst (asm) (2) dec_string.simps) auto
  next
    case False
    then have "dec_string n = dec_string (n div 10) @ [digit_char (n mod 10)]"
      by (subst dec_string.simps) simp
    with 1 False show ?thesis by (auto intro: exI [of _ "n mod 10"])
  qed
qed

lemma dec_string_length_bound: "n < 10 ^ k \<Longrightarrow> 0 < k \<Longrightarrow> length (dec_string n) \<le> k"
proof (induction n arbitrary: k rule: dec_string.induct)
  case (1 n)
  show ?case
  proof (cases "n < 10")
    case True
    with 1 show ?thesis by (subst dec_string.simps) simp
  next
    case False
    with 1 obtain j where j: "k = Suc j" "0 < j"
      by (cases k; cases "k - 1") auto
    with 1 False have "length (dec_string (n div 10)) \<le> j"
      by (intro "1.IH") auto
    moreover have "dec_string n = dec_string (n div 10) @ [digit_char (n mod 10)]"
      using False by (subst dec_string.simps) simp
    ultimately show ?thesis using j by simp
  qed
qed

lemma digit_char_not_special:
  assumes "d < 10"
  shows "digit_char d \<noteq> CHR 0x00" "digit_char d \<noteq> CHR 0x0A" "digit_char d \<noteq> CHR 0x09"
proof -
  have "d \<in> {0,1,2,3,4,5,6,7,8,9}" using assms by auto
  then show "digit_char d \<noteq> CHR 0x00" "digit_char d \<noteq> CHR 0x0A" "digit_char d \<noteq> CHR 0x09"
    by (auto simp: digit_char_def char_of_def)
qed

end
