(* ===== verification/Machine.thy ===== *)
theory Machine
  imports Prelude
begin

text \<open>
  The processor and the devices, as far as the C code reaches them: the port and control
  instructions of the inline assembly are recorded in a trace, in program order, and what a
  port read returns is the environment's choice (\<open>port_in p n\<close> is the answer to the
  \<open>n\<close>-th read of port \<open>p\<close>). \<open>mem8\<close> is the byte-addressed view of physical memory.
\<close>

datatype hw_event =
    Out u16 u8        \<comment> \<open>outb\<close>
  | In u16 u8         \<comment> \<open>inb and the value it returned\<close>
  | Lidt u64          \<comment> \<open>idt_load\<close>
  | Sti
  | Cli
  | Hlt
  | Invlpg u64
  | Load_cr3 u64

record machine =
  port_in :: "u16 \<Rightarrow> nat \<Rightarrow> u8"
  port_reads :: "u16 \<Rightarrow> nat"
  hw_trace :: "hw_event list"
  mem8 :: "u64 \<Rightarrow> u8"

definition emit :: "hw_event \<Rightarrow> 'a machine_scheme \<Rightarrow> 'a machine_scheme" where
  "emit e s = s\<lparr>hw_trace := hw_trace s @ [e]\<rparr>"

definition outb :: "u16 \<Rightarrow> u8 \<Rightarrow> 'a machine_scheme \<Rightarrow> 'a machine_scheme" where
  "outb port v s = emit (Out port v) s"

definition inb :: "u16 \<Rightarrow> 'a machine_scheme \<Rightarrow> u8 \<times> 'a machine_scheme" where
  "inb port s =
     (let v = port_in s port (port_reads s port);
          s = s\<lparr>port_reads := (port_reads s)(port := Suc (port_reads s port))\<rparr>
      in (v, emit (In port v) s))"

definition enable_interrupts :: "'a machine_scheme \<Rightarrow> 'a machine_scheme" where
  "enable_interrupts s = emit Sti s"

definition disable_interrupts :: "'a machine_scheme \<Rightarrow> 'a machine_scheme" where
  "disable_interrupts s = emit Cli s"

lemmas machine_defs [defs] = emit_def outb_def inb_def enable_interrupts_def disable_interrupts_def

end
