(* ===== verification/Vga.thy ===== *)
theory Vga
  imports Machine "HOL-Library.Signed_Division"
begin

text \<open>
  The VGA text-mode driver (\<open>drivers/vga.c\<close>, \<open>drivers/vga.h\<close>): the 80 by 25 cell buffer at
  \<open>0xB8000\<close> as a function from cell index to the 16-bit cell, the cursor as two bytes.
\<close>

datatype vga_color_t =
    VGA_COLOR_BLACK | VGA_COLOR_BLUE | VGA_COLOR_GREEN | VGA_COLOR_CYAN | VGA_COLOR_RED
  | VGA_COLOR_MAGENTA | VGA_COLOR_BROWN | VGA_COLOR_LIGHT_GREY | VGA_COLOR_DARK_GREY
  | VGA_COLOR_LIGHT_BLUE | VGA_COLOR_LIGHT_GREEN | VGA_COLOR_LIGHT_CYAN
  | VGA_COLOR_LIGHT_RED | VGA_COLOR_LIGHT_MAGENTA | VGA_COLOR_LIGHT_BROWN | VGA_COLOR_WHITE

fun vga_color_code :: "vga_color_t \<Rightarrow> u8" where
  "vga_color_code VGA_COLOR_BLACK = 0"
| "vga_color_code VGA_COLOR_BLUE = 1"
| "vga_color_code VGA_COLOR_GREEN = 2"
| "vga_color_code VGA_COLOR_CYAN = 3"
| "vga_color_code VGA_COLOR_RED = 4"
| "vga_color_code VGA_COLOR_MAGENTA = 5"
| "vga_color_code VGA_COLOR_BROWN = 6"
| "vga_color_code VGA_COLOR_LIGHT_GREY = 7"
| "vga_color_code VGA_COLOR_DARK_GREY = 8"
| "vga_color_code VGA_COLOR_LIGHT_BLUE = 9"
| "vga_color_code VGA_COLOR_LIGHT_GREEN = 10"
| "vga_color_code VGA_COLOR_LIGHT_CYAN = 11"
| "vga_color_code VGA_COLOR_LIGHT_RED = 12"
| "vga_color_code VGA_COLOR_LIGHT_MAGENTA = 13"
| "vga_color_code VGA_COLOR_LIGHT_BROWN = 14"
| "vga_color_code VGA_COLOR_WHITE = 15"

definition VGA_WIDTH :: nat where "VGA_WIDTH = 80"
definition VGA_HEIGHT :: nat where "VGA_HEIGHT = 25"

record vga = machine +
  vga_buffer :: "nat \<Rightarrow> u16"
  cursor_x :: u8
  cursor_y :: u8

subsection \<open>Operations\<close>

text \<open>
  \<open>char\<close> is signed on the target, so the conversion to \<open>uint16_t\<close> extends the sign; the
  colour byte is truncated to 8 bits before it is shifted.
\<close>

definition vga_entry :: "char \<Rightarrow> vga_color_t \<Rightarrow> vga_color_t \<Rightarrow> u16" where
  "vga_entry c fg bg =
     (let color = (push_bit 4 (vga_color_code bg)) OR (vga_color_code fg AND 0x0F) :: u8
      in (scast (of_char c :: u8) :: u16) OR push_bit 8 (ucast color :: u16))"

definition vga_blank :: u16 where
  "vga_blank = vga_entry CHR '' '' VGA_COLOR_WHITE VGA_COLOR_BLACK"

definition vga_init :: "'a vga_scheme \<Rightarrow> 'a vga_scheme" where
  "vga_init s = s\<lparr>cursor_x := 0, cursor_y := 0\<rparr>"

definition vga_clear :: "'a vga_scheme \<Rightarrow> 'a vga_scheme" where
  "vga_clear s =
     (let s = for_int 0 VGA_HEIGHT (\<lambda>y. for_int 0 VGA_WIDTH (\<lambda>x s.
                s\<lparr>vga_buffer := (vga_buffer s)(y * VGA_WIDTH + x := vga_blank)\<rparr>)) s
      in s\<lparr>cursor_x := 0, cursor_y := 0\<rparr>)"

definition vga_scroll :: "'a vga_scheme \<Rightarrow> 'a vga_scheme" where
  "vga_scroll s =
     (let s = for_int 0 (VGA_HEIGHT - 1) (\<lambda>y. for_int 0 VGA_WIDTH (\<lambda>x s.
                s\<lparr>vga_buffer := (vga_buffer s)
                   (y * VGA_WIDTH + x := vga_buffer s ((y + 1) * VGA_WIDTH + x))\<rparr>)) s;
          s = for_int 0 VGA_WIDTH (\<lambda>x s.
                s\<lparr>vga_buffer := (vga_buffer s)((VGA_HEIGHT - 1) * VGA_WIDTH + x := vga_blank)\<rparr>) s
      in s\<lparr>cursor_y := 24\<rparr>)"

text \<open>The line advance that \<open>vga_putchar\<close> repeats three times: next row, scrolling at the end.\<close>

definition vga_next_row :: "'a vga_scheme \<Rightarrow> 'a vga_scheme" where
  "vga_next_row s =
     (let s = s\<lparr>cursor_x := 0, cursor_y := cursor_y s + 1\<rparr>
      in if VGA_HEIGHT \<le> unat (cursor_y s) then vga_scroll s else s)"

definition vga_putchar :: "char \<Rightarrow> vga_color_t \<Rightarrow> 'a vga_scheme \<Rightarrow> 'a vga_scheme" where
  "vga_putchar c color s =
     (if c = CHR 0x0A then vga_next_row s
      else if c = CHR 0x09 then
        (let s = s\<lparr>cursor_x := (cursor_x s + 4) AND NOT (4 - 1)\<rparr>
         in if VGA_WIDTH \<le> unat (cursor_x s) then vga_next_row s else s)
      else
        (let index = unat (cursor_y s) * VGA_WIDTH + unat (cursor_x s);
             s = s\<lparr>vga_buffer := (vga_buffer s)(index := vga_entry c color VGA_COLOR_BLACK)\<rparr>;
             s = s\<lparr>cursor_x := cursor_x s + 1\<rparr>
         in if VGA_WIDTH \<le> unat (cursor_x s) then vga_next_row s else s))"

text \<open>A C string is the characters before its terminator; the literals have no other zero.\<close>

primrec vga_print :: "string \<Rightarrow> vga_color_t \<Rightarrow> 'a vga_scheme \<Rightarrow> 'a vga_scheme" where
  "vga_print [] color s = s"
| "vga_print (c # cs) color s = vga_print cs color (vga_putchar c color s)"

text \<open>A literal that ends in a newline.\<close>

definition line :: "string \<Rightarrow> string" where
  "line cs = cs @ [CHR 0x0A]"

definition vga_set_cursor :: "u8 \<Rightarrow> u8 \<Rightarrow> 'a vga_scheme \<Rightarrow> 'a vga_scheme" where
  "vga_set_cursor x y s =
     (if unat x < VGA_WIDTH \<and> unat y < VGA_HEIGHT then s\<lparr>cursor_x := x, cursor_y := y\<rparr> else s)"

definition hex_digits :: string where
  "hex_digits = ''0123456789abcdef''"

text \<open>The buffer \<open>hex[17]\<close> before its terminator: nibbles from bit 60 down to bit 0.\<close>

definition hex_string :: "u64 \<Rightarrow> string" where
  "hex_string value =
     map (\<lambda>k. hex_digits ! unat (drop_bit ((15 - k) * 4) value AND 0xF)) [0..<16]"

definition vga_print_hex :: "u64 \<Rightarrow> 'a vga_scheme \<Rightarrow> 'a vga_scheme" where
  "vga_print_hex value s = vga_print (hex_string value) VGA_COLOR_LIGHT_CYAN s"

text \<open>
  \<open>vga_print_int\<close>: \<open>value\<close> and \<open>divisor\<close> are C \<open>int\<close>s, division truncates towards
  zero. Negating the least value overflows, which C leaves undefined; the model wraps, and
  no theorem is about that value.
\<close>

function vga_int_loop ::
  "int \<Rightarrow> int \<Rightarrow> bool \<Rightarrow> vga_color_t \<Rightarrow> 'a vga_scheme \<Rightarrow> 'a vga_scheme" where
  "vga_int_loop value divisor started color s =
     (if 0 < divisor then
        (let digit = value sdiv divisor;
             value = value smod divisor
         in if digit \<noteq> 0 \<or> started \<or> divisor = 1
            then vga_int_loop value (divisor sdiv 10) True color
                   (vga_putchar (char_of (48 + digit)) color s)
            else vga_int_loop value (divisor sdiv 10) started color s)
      else s)"
  by pat_completeness auto
termination
  by (relation "measure (\<lambda>(v, d, st, c, s). nat d)") (auto simp: signed_divide_int_def sgn_if)

declare vga_int_loop.simps [simp del]

definition vga_print_int :: "u32 \<Rightarrow> vga_color_t \<Rightarrow> 'a vga_scheme \<Rightarrow> 'a vga_scheme" where
  "vga_print_int value color s =
     (let (value, s) = (if value <s 0 then (- value, vga_putchar CHR ''-'' color s) else (value, s))
      in if value = 0 then vga_putchar CHR ''0'' color s
         else vga_int_loop (sint value) 1000000000 False color s)"

subsection \<open>Only the driver's own state changes\<close>

text \<open>
  Every operation is an update of the three driver fields: \<open>vga_frame s t\<close> says that \<open>t\<close>
  is \<open>s\<close> but for them, and any other field is then equal in both.
\<close>

definition vga_frame :: "'a vga_scheme \<Rightarrow> 'a vga_scheme \<Rightarrow> bool" where
  "vga_frame s t \<longleftrightarrow> port_in t = port_in s \<and> port_reads t = port_reads s \<and>
     hw_trace t = hw_trace s \<and> mem8 t = mem8 s \<and> vga.more t = vga.more s"

lemma vga_frame_refl [simp, intro]: "vga_frame s s"
  by (simp add: vga_frame_def)

lemma vga_frame_trans [trans]: "vga_frame s t \<Longrightarrow> vga_frame t u \<Longrightarrow> vga_frame s u"
  by (simp add: vga_frame_def)

lemma vga_frame_upd [simp]:
  "vga_frame s (t\<lparr>vga_buffer := b\<rparr>) = vga_frame s t"
  "vga_frame s (t\<lparr>cursor_x := x\<rparr>) = vga_frame s t"
  "vga_frame s (t\<lparr>cursor_y := y\<rparr>) = vga_frame s t"
  by (simp_all add: vga_frame_def)

lemma vga_frame_iff:
  "vga_frame s t \<longleftrightarrow>
     t = s\<lparr>vga_buffer := vga_buffer t, cursor_x := cursor_x t, cursor_y := cursor_y t\<rparr>"
  by (cases s; cases t) (auto simp: vga_frame_def)

lemma vga_frame_for_int:
  assumes "\<And>k t. vga_frame t (f k t)"
  shows "vga_frame s (for_int lo hi f s)"
proof -
  have "vga_frame s (fold f ks s)" for ks
    by (induction ks arbitrary: s) (auto intro: vga_frame_trans assms)
  then show ?thesis by (simp add: for_int_def)
qed

lemma vga_scroll_frame: "vga_frame s (vga_scroll s)"
  unfolding vga_scroll_def Let_def
  by (simp, rule vga_frame_trans [OF vga_frame_for_int vga_frame_for_int])
    (auto intro!: vga_frame_for_int)

lemma vga_clear_frame: "vga_frame s (vga_clear s)"
  unfolding vga_clear_def Let_def by (auto intro!: vga_frame_for_int)

lemma vga_next_row_frame: "vga_frame s (vga_next_row s)"
  unfolding vga_next_row_def Let_def
  by (auto intro: vga_frame_trans [OF _ vga_scroll_frame])

lemma vga_putchar_frame: "vga_frame s (vga_putchar c color s)"
  unfolding vga_putchar_def Let_def
  by (auto intro: vga_frame_trans [OF _ vga_next_row_frame])

lemma vga_print_frame: "vga_frame s (vga_print cs color s)"
  by (induction cs arbitrary: s) (auto intro: vga_frame_trans [OF vga_putchar_frame])

lemma vga_print_hex_frame: "vga_frame s (vga_print_hex v s)"
  by (simp add: vga_print_hex_def vga_print_frame)

lemma vga_int_loop_frame: "vga_frame s (vga_int_loop v d st color s)"
proof (induction v d st color s rule: vga_int_loop.induct)
  case (1 v d st color s)
  then show ?case
    by (subst vga_int_loop.simps) (auto simp: Let_def intro: vga_frame_trans [OF vga_putchar_frame])
qed

lemma vga_print_int_frame: "vga_frame s (vga_print_int v color s)"
  unfolding vga_print_int_def
  by (auto simp: Let_def intro: vga_putchar_frame vga_int_loop_frame
      vga_frame_trans [OF vga_putchar_frame vga_int_loop_frame])

lemmas vga_frames = vga_scroll_frame vga_clear_frame vga_next_row_frame vga_putchar_frame
  vga_print_frame vga_print_hex_frame vga_int_loop_frame vga_print_int_frame

lemma vga_frame_step: "vga_frame t u \<Longrightarrow> vga_frame s u = vga_frame s t"
  by (simp add: vga_frame_def)

lemma vga_frame_step_left: "vga_frame t u \<Longrightarrow> vga_frame u s = vga_frame t s"
  by (auto simp: vga_frame_def)

lemmas vga_frame_simps [simp] = vga_frames [THEN vga_frame_step] vga_frames [THEN vga_frame_step_left]

text \<open>A field that the three updates leave alone is left alone by every operation.\<close>

lemma vga_frame_field:
  assumes "vga_frame s t"
    and "\<And>u b x y. f (u\<lparr>vga_buffer := b, cursor_x := x, cursor_y := y\<rparr>) = f u"
  shows "f t = f s"
  using assms unfolding vga_frame_iff by metis

lemma vga_machine_frame [frame, simp]:
  "port_in (vga_print cs color s) = port_in s"
  "port_reads (vga_print cs color s) = port_reads s"
  "hw_trace (vga_print cs color s) = hw_trace s"
  "mem8 (vga_print cs color s) = mem8 s"
  "port_in (vga_print_hex v s) = port_in s"
  "port_reads (vga_print_hex v s) = port_reads s"
  "hw_trace (vga_print_hex v s) = hw_trace s"
  "mem8 (vga_print_hex v s) = mem8 s"
  "port_in (vga_print_int i color s) = port_in s"
  "port_reads (vga_print_int i color s) = port_reads s"
  "hw_trace (vga_print_int i color s) = hw_trace s"
  "mem8 (vga_print_int i color s) = mem8 s"
  by (rule vga_frame_field [OF vga_print_frame] vga_frame_field [OF vga_print_hex_frame]
      vga_frame_field [OF vga_print_int_frame]; simp)+

subsection \<open>What the loops compute\<close>

lemma vga_buffer_for_int_upd:
  assumes "\<And>x t. x < n \<Longrightarrow> f x t = t\<lparr>vga_buffer := (vga_buffer t)(base + x := g t x)\<rparr>"
    and "\<And>x t u. x < n \<Longrightarrow> (\<And>k. base + x \<le> k \<Longrightarrow> vga_buffer t k = vga_buffer u k) \<Longrightarrow> g t x = g u x"
  shows "vga_buffer (for_int 0 n f s) k =
    (if base \<le> k \<and> k < base + n then g s (k - base) else vga_buffer s k)"
proof -
  let ?P = "\<lambda>x t. \<forall>k. vga_buffer t k =
    (if base \<le> k \<and> k < base + x then g s (k - base) else vga_buffer s k)"
  have "?P n (for_int 0 n f s)"
  proof (rule for_int_rule [where P = ?P])
    show "?P 0 s" by auto
    show "?P (Suc x) (f x t)" if "0 \<le> x" "x < n" "?P x t" for x t
    proof -
      have "g t x = g s x"
        using that by (intro assms(2)) auto
      then show ?thesis
        using that assms(1) [of x t] by auto
    qed
  qed simp
  then show ?thesis by blast
qed

lemma vga_scroll_buffer:
  "vga_buffer (vga_scroll s) k =
     (if k < 1920 then vga_buffer s (k + 80) else if k < 2000 then vga_blank else vga_buffer s k)"
proof -
  define move :: "nat \<Rightarrow> 'a vga_scheme \<Rightarrow> 'a vga_scheme" where
    "move = (\<lambda>y. for_int 0 80 (\<lambda>x s. s\<lparr>vga_buffer := (vga_buffer s)
      (y * 80 + x := vga_buffer s ((y + 1) * 80 + x))\<rparr>))"
  have row: "vga_buffer (move y t) k =
      (if y * 80 \<le> k \<and> k < y * 80 + 80 then vga_buffer t (k + 80) else vga_buffer t k)" for y t k
    unfolding move_def
    by (subst vga_buffer_for_int_upd [where base = "y * 80" and g = "\<lambda>t x. vga_buffer t ((y + 1) * 80 + x)"])
      (auto simp: algebra_simps)
  let ?P = "\<lambda>y t. \<forall>k. vga_buffer t k = (if k < y * 80 then vga_buffer s (k + 80) else vga_buffer s k)"
  have moved: "?P 24 (for_int 0 24 move s)"
    by (rule for_int_rule) (auto simp: row)
  have "vga_buffer (vga_scroll s) k = vga_buffer (for_int 0 80 (\<lambda>x s. s\<lparr>vga_buffer :=
      (vga_buffer s)(24 * 80 + x := vga_blank)\<rparr>) (for_int 0 24 move s)) k"
    by (simp add: vga_scroll_def move_def VGA_HEIGHT_def VGA_WIDTH_def)
  also have "\<dots> = (if 1920 \<le> k \<and> k < 2000 then vga_blank else vga_buffer (for_int 0 24 move s) k)"
    by (subst vga_buffer_for_int_upd [where base = "24 * 80" and g = "\<lambda>t x. vga_blank"]) auto
  finally show ?thesis using moved by auto
qed

lemma vga_scroll_cursor [simp]:
  "cursor_x (vga_scroll s) = cursor_x s"
  "cursor_y (vga_scroll s) = 24"
  by (simp_all add: vga_scroll_def for_int_frame [where g = cursor_x])

lemma vga_clear_buffer:
  "vga_buffer (vga_clear s) k = (if k < 2000 then vga_blank else vga_buffer s k)"
proof -
  define row :: "nat \<Rightarrow> 'a vga_scheme \<Rightarrow> 'a vga_scheme" where
    "row = (\<lambda>y. for_int 0 80 (\<lambda>x s. s\<lparr>vga_buffer := (vga_buffer s)(y * 80 + x := vga_blank)\<rparr>))"
  have row: "vga_buffer (row y t) k =
      (if y * 80 \<le> k \<and> k < y * 80 + 80 then vga_blank else vga_buffer t k)" for y t k
    unfolding row_def
    by (subst vga_buffer_for_int_upd [where base = "y * 80" and g = "\<lambda>t x. vga_blank"]) auto
  let ?P = "\<lambda>y t. \<forall>k. vga_buffer t k = (if k < y * 80 then vga_blank else vga_buffer s k)"
  have "?P 25 (for_int 0 25 row s)"
    by (rule for_int_rule) (auto simp: row)
  moreover have "vga_buffer (vga_clear s) = vga_buffer (for_int 0 25 row s)"
    by (simp add: vga_clear_def row_def VGA_HEIGHT_def VGA_WIDTH_def)
  ultimately show ?thesis by simp
qed

subsection \<open>The cursor stays on the screen\<close>

definition vga_ok :: "'a vga_scheme \<Rightarrow> bool" where
  "vga_ok s \<longleftrightarrow> cursor_x s < 80 \<and> cursor_y s < 25"

lemma vga_next_row_ok: "cursor_y s < 25 \<Longrightarrow> vga_ok (vga_next_row s)"
  by (auto simp: vga_next_row_def vga_ok_def VGA_HEIGHT_def Let_def word_less_nat_alt)

lemma vga_ok_index:
  assumes "vga_ok s"
  shows "unat (cursor_y s) * VGA_WIDTH + unat (cursor_x s) < 2000"
proof -
  have "unat (cursor_y s) \<le> 24" "unat (cursor_x s) < 80"
    using assms by (auto simp: vga_ok_def word_less_nat_alt)
  then show ?thesis by (simp add: VGA_WIDTH_def)
qed

lemma vga_next_row_outside: "2000 \<le> k \<Longrightarrow> vga_buffer (vga_next_row s) k = vga_buffer s k"
  by (simp add: vga_next_row_def Let_def vga_scroll_buffer)

lemma vga_row_check_ok:
  "cursor_y s < 25 \<Longrightarrow>
    vga_ok (if VGA_WIDTH \<le> unat (cursor_x s) then vga_next_row s else s)"
  by (simp add: vga_next_row_ok) (simp add: vga_ok_def VGA_WIDTH_def word_less_nat_alt)

lemma vga_putchar_ok: "vga_ok s \<Longrightarrow> vga_ok (vga_putchar c color s)"
  unfolding vga_putchar_def Let_def
  by (cases "c = CHR 0x0A"; cases "c = CHR 0x09";
      simp only: if_True if_False simp_thms; rule vga_next_row_ok vga_row_check_ok)
    (simp_all add: vga_ok_def)

lemma vga_putchar_outside:
  "vga_ok s \<Longrightarrow> 2000 \<le> k \<Longrightarrow> vga_buffer (vga_putchar c color s) k = vga_buffer s k"
  using vga_ok_index [of s] by (auto simp: vga_putchar_def Let_def vga_next_row_outside)

lemma vga_print_ok: "vga_ok s \<Longrightarrow> vga_ok (vga_print cs color s)"
  by (induction cs arbitrary: s) (simp_all add: vga_putchar_ok)

lemma vga_print_outside:
  "vga_ok s \<Longrightarrow> 2000 \<le> k \<Longrightarrow> vga_buffer (vga_print cs color s) k = vga_buffer s k"
  by (induction cs arbitrary: s) (simp_all add: vga_putchar_ok vga_putchar_outside)

lemma vga_print_append: "vga_print (as @ bs) color s = vga_print bs color (vga_print as color s)"
  by (induction as arbitrary: s) simp_all

subsection \<open>Numbers on the screen\<close>

definition hex_digit_val :: "char \<Rightarrow> nat" where
  "hex_digit_val c = length (takeWhile (\<lambda>d. d \<noteq> c) hex_digits)"

definition hex_value :: "string \<Rightarrow> nat" where
  "hex_value cs = foldl (\<lambda>n c. 16 * n + hex_digit_val c) 0 cs"

lemma hex_digit_val_nth: "d < 16 \<Longrightarrow> hex_digit_val (hex_digits ! d) = d"
proof -
  have "list_all (\<lambda>d. hex_digit_val (hex_digits ! d) = d) [0..<16]" by code_simp
  then show "d < 16 \<Longrightarrow> ?thesis" by (simp add: list_all_iff)
qed

lemma unat_nibble:
  fixes v :: u64
  shows "unat (drop_bit n v AND 0xF) = (unat v div 2 ^ n) mod 16"
proof -
  have "drop_bit n v AND 0xF = take_bit 4 (drop_bit n v)"
    by (simp add: take_bit_eq_mask mask_eq_exp_minus_1)
  moreover have "take_bit LENGTH(64) (unat v) = unat v"
    by (simp only: take_bit_nat_eq_self_iff unsigned_less)
  ultimately have "unat (drop_bit n v AND 0xF) = take_bit 4 (drop_bit n (unat v))"
    by (simp only: unsigned_take_bit_eq unsigned_drop_bit_eq)
  then show ?thesis
    by (simp add: take_bit_eq_mod drop_bit_eq_div)
qed

lemma nat_base_digits:
  "0 < b \<Longrightarrow> foldl (\<lambda>n k. b * n + (v div b ^ (m - Suc k)) mod b) 0 [0..<j] = v div b ^ (m - j)"
  if "v < b ^ m" "j \<le> m" for b v :: nat
  using that(2)
proof (induction j)
  case 0
  then show ?case using that by simp
next
  case (Suc j)
  then have "m - j = Suc (m - Suc j)" by simp
  then have "v div b ^ (m - j) = v div b ^ (m - Suc j) div b"
    by (simp add: div_mult2_eq mult.commute [of b])
  with Suc show ?case by (simp add: mult.commute [of b])
qed

lemma hex_value_hex_string: "hex_value (hex_string v) = unat v"
proof -
  have dig: "hex_digit_val (hex_digits ! unat (drop_bit ((15 - k) * 4) v AND 0xF))
      = (unat v div 16 ^ (16 - Suc k)) mod 16" if "k < 16" for k
  proof -
    have "(2::nat) ^ ((15 - k) * 4) = 16 ^ (16 - Suc k)"
      by (simp add: power_mult mult.commute)
    then show ?thesis by (simp add: unat_nibble hex_digit_val_nth)
  qed
  have "hex_value (hex_string v) = foldl (\<lambda>n k. 16 * n + (unat v div 16 ^ (16 - Suc k)) mod 16) 0 [0..<16]"
    unfolding hex_value_def hex_string_def foldl_map
    by (rule foldl_cong) (simp_all only: dig set_upt atLeastLessThan_iff)
  also have "\<dots> = unat v div 16 ^ (16 - 16)"
    using unsigned_less [of v, where 'a = nat] by (intro nat_base_digits) simp_all
  finally show ?thesis by simp
qed

text \<open>Exactly \<open>k\<close> decimal digits, leading zeros included.\<close>

primrec fixed_digits :: "nat \<Rightarrow> nat \<Rightarrow> string" where
  "fixed_digits 0 v = []"
| "fixed_digits (Suc k) v = digit_char (v div 10 ^ k) # fixed_digits k (v mod 10 ^ k)"

lemma fixed_digits_snoc:
  "v < 10 ^ Suc k \<Longrightarrow> fixed_digits (Suc k) v = fixed_digits k (v div 10) @ [digit_char (v mod 10)]"
proof (induction k arbitrary: v)
  case 0
  then show ?case by simp
next
  case (Suc k)
  have "v mod 10 ^ Suc k < 10 ^ Suc k" by simp
  note IH = Suc.IH [OF this]
  have "v mod 10 ^ Suc k div 10 = v div 10 mod 10 ^ k"
    by (simp add: mod_mult2_eq div_mult2_eq)
  moreover have "v mod 10 ^ Suc k mod 10 = v mod 10"
    by (simp add: mod_mult2_eq)
  moreover have "v div 10 ^ Suc k = v div 10 div 10 ^ k"
    by (simp add: div_mult2_eq)
  ultimately show ?case using IH by (simp del: power_Suc add: fixed_digits.simps(2) [of "Suc k"])
qed

lemma dec_string_fixed:
  "10 ^ k \<le> v \<Longrightarrow> v < 10 ^ Suc k \<Longrightarrow> dec_string v = fixed_digits (Suc k) v"
proof (induction k arbitrary: v)
  case 0
  then show ?case by (subst dec_string.simps) simp
next
  case (Suc k)
  then have "10 ^ k \<le> v div 10" "v div 10 < 10 ^ Suc k"
    by (simp_all add: less_eq_div_iff_mult_less_eq div_less_iff_less_mult mult.commute)
  then have "dec_string (v div 10) = fixed_digits (Suc k) (v div 10)" by (rule Suc.IH)
  moreover have "\<not> v < 10" using Suc.prems(1) one_le_power [of "10::nat" k] by (simp only: power_Suc) linarith
  ultimately show ?case
    using fixed_digits_snoc [OF Suc.prems(2)] by (subst dec_string.simps) simp
qed

lemma sdiv_smod_nonneg:
  fixes a b :: int
  assumes "0 \<le> a" "0 < b"
  shows "a sdiv b = a div b" "a smod b = a mod b"
  using assms by (auto simp: signed_divide_int_def signed_modulo_int_def sgn_if minus_div_mult_eq_mod)

lemma char_of_int: "(char_of (48 + int n) :: char) = char_of (48 + n)"
  by (metis char_of_nat of_nat_add of_nat_numeral)

lemma vga_int_loop_started:
  "v < 10 ^ Suc k \<Longrightarrow>
    vga_int_loop (int v) (10 ^ k) True color s = vga_print (fixed_digits (Suc k) v) color s"
proof (induction k arbitrary: v s)
  case 0
  have "vga_int_loop 0 0 True color t = t" for t :: "'a vga_scheme"
    by (subst vga_int_loop.simps) simp
  with 0 show ?case
    by (subst vga_int_loop.simps)
      (simp add: sdiv_smod_nonneg digit_char_def char_of_int)
next
  case (Suc k)
  have "int v sdiv 10 ^ Suc k = int (v div 10 ^ Suc k)" "int v smod 10 ^ Suc k = int (v mod 10 ^ Suc k)"
    by (simp_all add: sdiv_smod_nonneg zdiv_int zmod_int)
  moreover have "(10 ^ Suc k :: int) sdiv 10 = 10 ^ k"
    by (simp add: sdiv_smod_nonneg)
  ultimately show ?case
    by (subst vga_int_loop.simps)
      (simp del: power_Suc add: Suc.IH [of "v mod 10 ^ Suc k"] Let_def digit_char_def char_of_int)
qed

lemma vga_int_loop_fresh:
  "0 < v \<Longrightarrow> v < 10 ^ Suc k \<Longrightarrow>
    vga_int_loop (int v) (10 ^ k) False color s = vga_print (dec_string v) color s"
proof (induction k)
  case 0
  then have v: "v < 10" "int v \<noteq> 0" by simp_all
  have "vga_int_loop 0 0 True color t = t" for t :: "'a vga_scheme"
    by (subst vga_int_loop.simps) simp
  with v show ?case
    by (subst vga_int_loop.simps, subst dec_string.simps)
      (simp add: sdiv_smod_nonneg digit_char_def char_of_int)
next
  case (Suc k)
  have q: "int v sdiv 10 ^ Suc k = int (v div 10 ^ Suc k)" "int v smod 10 ^ Suc k = int (v mod 10 ^ Suc k)"
    by (simp_all add: sdiv_smod_nonneg zdiv_int zmod_int)
  have d: "(10 ^ Suc k :: int) sdiv 10 = 10 ^ k"
    by (simp add: sdiv_smod_nonneg)
  have "1 < (10 :: int) ^ Suc k" by (rule one_less_power) simp_all
  then have d1: "(10 ^ Suc k :: int) \<noteq> 1" by linarith
  show ?case
  proof (cases "v < 10 ^ Suc k")
    case True
    with Suc have "vga_int_loop (int v) (10 ^ k) False color s = vga_print (dec_string v) color s"
      by blast
    with True q d d1 show ?thesis
      by (subst vga_int_loop.simps) (simp del: power_Suc)
  next
    case False
    then have "v div 10 ^ Suc k \<noteq> 0" by (simp del: power_Suc add: div_eq_0_iff)
    moreover from False Suc.prems have "dec_string v = fixed_digits (Suc (Suc k)) v"
      by (intro dec_string_fixed) simp_all
    ultimately show ?thesis using q d d1
      by (subst vga_int_loop.simps)
        (simp del: power_Suc add: vga_int_loop_started Let_def digit_char_def char_of_int
          fixed_digits.simps(2) [of "Suc k"])
  qed
qed

text \<open>The decimal numeral of an integer: the reference for \<open>vga_print_int\<close>.\<close>

definition int_string :: "int \<Rightarrow> string" where
  "int_string i = (if i < 0 then CHR ''-'' # dec_string (nat (- i)) else dec_string (nat i))"

lemma vga_print_int_correct:
  assumes "sint v \<noteq> - (2 ^ 31)"
  shows "vga_print_int v color s = vga_print (int_string (sint v)) color s"
proof -
  have lo: "- (2 ^ 31) \<le> sint v" and hi: "sint v < 2 ^ 31"
    using sint_ge [of v] sint_lt [of v] by simp_all
  have neg: "sint (- v) = - sint v"
    using lo hi assms
    by (simp only: sint_word_ariths) (rule signed_take_bit_int_eq_self, simp_all)
  have loop: "vga_int_loop i 1000000000 False color t = vga_print (dec_string (nat i)) color t"
    if "0 < i" "i < 2 ^ 31" for i and t :: "'a vga_scheme"
    using vga_int_loop_fresh [of "nat i" 9 color t] that by simp
  have z: "v = 0 \<longleftrightarrow> sint v = 0" by (simp only: signed_eq_0_iff)
  have zs: "vga_putchar CHR ''0'' color t = vga_print (dec_string 0) color t" for t :: "'a vga_scheme"
    by (subst dec_string.simps) (simp add: digit_char_0)
  consider "sint v < 0" | "sint v = 0" | "0 < sint v" by linarith
  then show ?thesis
  proof cases
    case 1
    then have "v <s 0" "v \<noteq> 0" by (auto simp: word_sless_alt)
    moreover from lo assms have "- sint v < 2 ^ 31" by linarith
    ultimately show ?thesis using 1 loop [of "- sint v"]
      by (simp add: vga_print_int_def int_string_def neg)
  next
    case 2
    with z have "v = 0" by blast
    then show ?thesis by (simp add: vga_print_int_def int_string_def zs)
  next
    case 3
    then have "\<not> v <s 0" "v \<noteq> 0" by (auto simp: word_sless_alt)
    then show ?thesis using 3 hi loop [of "sint v"]
      by (simp add: vga_print_int_def int_string_def)
  qed
qed

subsection \<open>A run of printable characters\<close>

lemma vga_putchar_plain:
  assumes "c \<noteq> CHR 0x0A" "c \<noteq> CHR 0x09" "unat (cursor_x s) < 79"
  shows "vga_putchar c color s = s\<lparr>vga_buffer := (vga_buffer s)
      (unat (cursor_y s) * 80 + unat (cursor_x s) := vga_entry c color VGA_COLOR_BLACK),
    cursor_x := cursor_x s + 1\<rparr>"
proof -
  have "unat (cursor_x s + 1) = Suc (unat (cursor_x s))"
    using assms(3) by (simp add: unat_word_ariths)
  then show ?thesis
    using assms by (simp add: vga_putchar_def Let_def VGA_WIDTH_def)
qed

lemma vga_print_plain:
  assumes "\<forall>c\<in>set cs. c \<noteq> CHR 0x0A \<and> c \<noteq> CHR 0x09" "unat (cursor_x s) + length cs < 80"
  defines "base \<equiv> unat (cursor_y s) * 80 + unat (cursor_x s)"
  shows "vga_buffer (vga_print cs color s) k =
      (if base \<le> k \<and> k < base + length cs then vga_entry (cs ! (k - base)) color VGA_COLOR_BLACK
       else vga_buffer s k) \<and>
    cursor_x (vga_print cs color s) = cursor_x s + of_nat (length cs) \<and>
    cursor_y (vga_print cs color s) = cursor_y s"
  using assms(1,2) unfolding base_def
proof (induction cs arbitrary: s)
  case Nil
  then show ?case by auto
next
  case (Cons c cs)
  let ?s = "vga_putchar c color s"
  have step: "?s = s\<lparr>vga_buffer := (vga_buffer s)
      (unat (cursor_y s) * 80 + unat (cursor_x s) := vga_entry c color VGA_COLOR_BLACK),
    cursor_x := cursor_x s + 1\<rparr>"
    using Cons.prems by (intro vga_putchar_plain) auto
  have x: "unat (cursor_x s + 1) = Suc (unat (cursor_x s))"
    using Cons.prems(2) by (simp add: unat_word_ariths)
  have "unat (cursor_x ?s) + length cs < 80" "\<forall>c\<in>set cs. c \<noteq> CHR 0x0A \<and> c \<noteq> CHR 0x09"
    using Cons.prems x by (simp_all add: step)
  from Cons.IH [OF this(2,1)] show ?case
    by (auto simp: step x nth_Cons' not_less_eq_eq Suc_diff_le numeral_eq_Suc)
qed

text \<open>A character of the upper half is sign-extended over the colour byte.\<close>

lemma vga_entry_high_char:
  assumes "digit7 c"
  shows "drop_bit 8 (vga_entry c fg bg) = 0xFF"
proof (rule bit_word_eqI)
  fix n assume n: "n < LENGTH(16)"
  have b7: "bit (of_char c :: u8) 7"
    using assms by (simp add: of_char_def bit_horner_sum_bit_word_iff)
  have ff: "bit (0xFF :: u16) n \<longleftrightarrow> n < 8"
  proof -
    have "(0xFF :: u16) = mask 8" by (simp add: mask_eq_exp_minus_1)
    then show ?thesis using n by (simp only: bit_mask_iff) simp
  qed
  show "bit (drop_bit 8 (vga_entry c fg bg)) n = bit (0xFF :: u16) n"
  proof (cases "n < 8")
    case True
    then have "bit (scast (of_char c :: u8) :: u16) (8 + n)"
      using b7 by (simp add: bit_signed_iff)
    then show ?thesis
      using True ff by (simp add: vga_entry_def Let_def bit_drop_bit_eq bit_or_iff)
  next
    case False
    then show ?thesis
      using ff n by (simp add: bit_drop_bit_eq) (simp add: bit_word.abs_eq impossible_bit)
  qed
qed

text \<open>A literal is never unrolled into its characters.\<close>

declare vga_print.simps [simp del]

subsection \<open>Properties\<close>

text \<open>A screen with the cursor on the last line.\<close>

definition demo_vga :: vga where
  "demo_vga = \<lparr>port_in = (\<lambda>_ _. 0), port_reads = (\<lambda>_. 0), hw_trace = [], mem8 = (\<lambda>_. 0),
     vga_buffer = (\<lambda>_. 0), cursor_x = 70, cursor_y = 24\<rparr>"

lemma demo_vga_ok: "vga_ok demo_vga" "unat (cursor_x demo_vga) = 70" "unat (cursor_y demo_vga) = 24"
  by (simp_all add: vga_ok_def demo_vga_def)

text \<open>
  Property C23. Printing is safe: whatever the string, newlines and tabs and wrapping included, a
  cursor on the screen stays on the screen, no cell outside the 80 by 25 buffer is written, and
  nothing but the driver's three fields changes.
\<close>

theorem vga_print_safe:
  assumes "vga_ok s"
  shows "vga_ok (vga_print cs color s) \<and>
    (\<forall>k\<ge>2000. vga_buffer (vga_print cs color s) k = vga_buffer s k) \<and> vga_frame s (vga_print cs color s)"
  using assms by (simp add: vga_print_ok vga_print_outside)

theorem vga_print_safe_witness:
  "vga_ok (vga_print (line ''Kernel panic: out of memory'') VGA_COLOR_RED demo_vga)"
  using vga_print_safe [OF demo_vga_ok(1)] by blast

text \<open>
  A run of printable characters that fits on the rest of the line lands in
  consecutive cells from the cursor on, each with its colour on black, and no other cell changes.
\<close>

theorem vga_print_run:
  assumes "\<forall>c\<in>set cs. c \<noteq> CHR 0x0A \<and> c \<noteq> CHR 0x09" and "unat (cursor_x s) + length cs < 80"
  shows "vga_buffer (vga_print cs color s) k =
    (let base = unat (cursor_y s) * 80 + unat (cursor_x s)
     in if base \<le> k \<and> k < base + length cs then vga_entry (cs ! (k - base)) color VGA_COLOR_BLACK
        else vga_buffer s k)"
  unfolding Let_def by (rule vga_print_plain [OF assms, THEN conjunct1])

theorem vga_print_run_witness:
  "vga_buffer (vga_print ''ok'' VGA_COLOR_RED demo_vga) 1991 = vga_entry CHR ''k'' VGA_COLOR_RED VGA_COLOR_BLACK"
proof -
  have "\<forall>c\<in>set ''ok''. c \<noteq> CHR 0x0A \<and> c \<noteq> CHR 0x09" "unat (cursor_x demo_vga) + length ''ok'' < 80"
    by (simp_all add: demo_vga_ok)
  from vga_print_run [OF this, of VGA_COLOR_RED 1991] show ?thesis
    by (simp add: demo_vga_ok)
qed

text \<open>
  Scrolling moves every line up by one, clears the last line to white-on-black blanks
  and touches no cell outside the screen.
\<close>

theorem vga_scroll_lines:
  "vga_buffer (vga_scroll s) k =
     (if k < 24 * 80 then vga_buffer s (k + 80)
      else if k < 25 * 80 then vga_entry CHR '' '' VGA_COLOR_WHITE VGA_COLOR_BLACK else vga_buffer s k) \<and>
   cursor_y (vga_scroll s) = 24 \<and> cursor_x (vga_scroll s) = cursor_x s"
  by (simp add: vga_scroll_buffer vga_blank_def)

text \<open>
  \<open>vga_print_hex\<close> prints sixteen hexadecimal digits that read back as the value.
\<close>

theorem vga_print_hex_roundtrip:
  "vga_print_hex v s = vga_print (hex_string v) VGA_COLOR_LIGHT_CYAN s \<and>
   length (hex_string v) = 16 \<and> hex_value (hex_string v) = unat v"
  using hex_value_hex_string [of v] by (simp add: vga_print_hex_def hex_string_def)

text \<open>
  Property C34. \<open>vga_print_int\<close> prints the decimal numeral of its argument, with a minus sign and
  without leading zeros, for every \<open>int\<close> but the least (whose negation overflows).
\<close>

theorem vga_print_int_decimal:
  assumes "sint v \<noteq> - (2 ^ 31)"
  shows "vga_print_int v color s = vga_print (int_string (sint v)) color s"
  using assms by (rule vga_print_int_correct)

theorem vga_print_int_decimal_witness:
  "vga_print_int (- 42) VGA_COLOR_RED demo_vga = vga_print (int_string (- 42)) VGA_COLOR_RED demo_vga"
  using vga_print_int_decimal [of "- 42" VGA_COLOR_RED demo_vga] by simp

end
