(* ===== verification/Numfmt.thy ===== *)
theory Numfmt
  imports Vga
begin

text \<open>
  Character arrays and the decimal printer that \<open>multiboot2.c\<close>, \<open>pmm.c\<close> and
  \<open>paging.c\<close> each carry a copy of. A \<open>char\<close> array is a function from index to
  character; the C string in an array of \<open>n\<close> is what precedes the first zero.
\<close>

type_synonym char_array = "nat \<Rightarrow> char"

definition c_str :: "nat \<Rightarrow> char_array \<Rightarrow> string" where
  "c_str n buf = takeWhile (\<lambda>c. c \<noteq> CHR 0x00) (map buf [0..<n])"

text \<open>A local array before its first write; no result depends on its contents.\<close>

definition fresh_array :: char_array where
  "fresh_array = (\<lambda>_. CHR 0x00)"

lemma c_str_eqI:
  assumes "length cs < n" and "\<And>i. i < length cs \<Longrightarrow> buf i = cs ! i"
    and "CHR 0x00 \<notin> set cs" and "buf (length cs) = CHR 0x00"
  shows "c_str n buf = cs"
proof -
  have n: "n = length cs + Suc (n - Suc (length cs))" using assms(1) by simp
  have "map buf [0..<length cs] = cs"
    by (rule nth_equalityI) (simp_all add: assms(2))
  moreover have "map buf [0..<n] = map buf [0..<length cs] @ map buf [length cs..<n]"
    using assms(1) by (metis less_imp_le_nat map_append upt_add_eq_append zero_le le_add_diff_inverse)
  moreover have "[length cs..<n] = length cs # [Suc (length cs)..<n]"
    using assms(1) by (rule upt_conv_Cons)
  ultimately show ?thesis
    using assms(3,4) by (auto simp: c_str_def takeWhile_append)
qed

subsection \<open>\<open>uint64_to_str\<close>\<close>

text \<open>The first loop: digits of \<open>num\<close> into \<open>temp\<close>, least significant first.\<close>

function to_str_digits :: "u64 \<Rightarrow> char_array \<Rightarrow> nat \<Rightarrow> char_array \<times> nat" where
  "to_str_digits num temp i =
     (if 0 < num
      then to_str_digits (num div 10) (temp(i := char_of (48 + unat (num mod 10)))) (Suc i)
      else (temp, i))"
  by pat_completeness auto
termination
proof (relation "measure (\<lambda>(num, temp, i). unat num)")
  show "((num div 10, temp', Suc i), num, temp, i) \<in> measure (\<lambda>(num, temp, i). unat num)"
    if "0 < num" for num :: u64 and temp temp' :: char_array and i
  proof -
    from that have "0 < unat num" by (simp add: unat_gt_0)
    then show ?thesis by (simp add: unat_div_distrib)
  qed
qed simp

declare to_str_digits.simps [simp del]

text \<open>The second loop: \<open>temp\<close> back to front into \<open>buf\<close>.\<close>

primrec to_str_reverse :: "nat \<Rightarrow> nat \<Rightarrow> char_array \<Rightarrow> char_array \<Rightarrow> nat \<times> char_array" where
  "to_str_reverse 0 j temp buf = (j, buf)"
| "to_str_reverse (Suc i) j temp buf = to_str_reverse i (Suc j) temp (buf(j := temp i))"

definition uint64_to_str :: "u64 \<Rightarrow> char_array \<Rightarrow> char_array" where
  "uint64_to_str num buf =
     (if num = 0 then (buf(0 := CHR ''0''))(1 := CHR 0x00)
      else
        (let (temp, i) = to_str_digits num fresh_array 0;
             (j, buf) = to_str_reverse i 0 temp buf
         in buf(j := CHR 0x00)))"

subsection \<open>Correctness\<close>

lemma to_str_digits_spec:
  assumes "0 < num"
  shows "\<exists>temp'. to_str_digits num temp i = (temp', i + length (dec_string (unat num))) \<and>
    (\<forall>k<i. temp' k = temp k) \<and>
    (\<forall>k<length (dec_string (unat num)). temp' (i + k) = rev (dec_string (unat num)) ! k)"
  using assms
proof (induction num temp i rule: to_str_digits.induct)
  case (1 num temp i)
  let ?t = "temp(i := char_of (48 + unat (num mod 10)))"
  have m: "unat (num mod 10) = unat num mod 10" "unat (num div 10) = unat num div 10"
    by (simp_all add: unat_mod_distrib unat_div_distrib)
  show ?case
  proof (cases "unat num < 10")
    case True
    then have "num div 10 = 0" using m(2) by (simp flip: unat_eq_zero)
    then have "to_str_digits num temp i = (?t, Suc i)"
      using 1 by (simp add: to_str_digits.simps [of num] to_str_digits.simps [of 0])
    with True m show ?thesis
      by (subst (1 2 3) dec_string.simps) (simp add: digit_char_def)
  next
    case False
    then have "0 < unat (num div 10)" using m by simp
    then have "0 < num div 10" by (simp only: unat_gt_0 word_neq_0_conv)
    from "1.IH" [OF "1.prems" this] obtain temp' where
      t: "to_str_digits (num div 10) ?t (Suc i) = (temp', Suc i + length (dec_string (unat num div 10)))"
      and old: "\<forall>k<Suc i. temp' k = ?t k"
      and new: "\<forall>k<length (dec_string (unat num div 10)).
        temp' (Suc i + k) = rev (dec_string (unat num div 10)) ! k"
      unfolding m by blast
    have d: "dec_string (unat num) = dec_string (unat num div 10) @ [digit_char (unat num mod 10)]"
      using False by (subst dec_string.simps) simp
    have "to_str_digits num temp i = to_str_digits (num div 10) ?t (Suc i)"
      using "1.prems" by (subst to_str_digits.simps) simp
    moreover have "temp' (i + k) = rev (dec_string (unat num)) ! k" if "k < length (dec_string (unat num))" for k
      using that old new d m by (cases k) (auto simp: digit_char_def)
    ultimately show ?thesis using t old d by auto
  qed
qed

lemma to_str_reverse_spec:
  "to_str_reverse i j temp buf = (j + i, \<lambda>k. if j \<le> k \<and> k < j + i then temp (i - Suc (k - j)) else buf k)"
proof (induction i arbitrary: j buf)
  case 0
  then show ?case by (auto simp: fun_eq_iff)
next
  case (Suc i)
  show ?case
    by (auto simp: Suc.IH fun_eq_iff Suc_diff_le not_le less_Suc_eq_le)
qed

lemma length_dec_string_u64: "length (dec_string (unat (num :: u64))) \<le> 20"
  using unsigned_less [of num, where 'a = nat]
  by (intro dec_string_length_bound) simp_all

lemma uint64_to_str_cells:
  "uint64_to_str num buf k =
     (let ds = dec_string (unat num)
      in if k < length ds then ds ! k else if k = length ds then CHR 0x00 else buf k)"
proof (cases "num = 0")
  case True
  then show ?thesis
    by (subst dec_string.simps) (simp add: uint64_to_str_def digit_char_0)
next
  case False
  then have "0 < num" by (simp add: word_neq_0_conv)
  from to_str_digits_spec [OF this, of fresh_array 0] obtain temp where
    t: "to_str_digits num fresh_array 0 = (temp, length (dec_string (unat num)))"
    and ds: "\<forall>k<length (dec_string (unat num)). temp k = rev (dec_string (unat num)) ! k"
    by auto
  with False show ?thesis
    by (auto simp: uint64_to_str_def to_str_reverse_spec rev_nth Let_def)
qed

lemma dec_string_no_nul: "CHR 0x00 \<notin> set (dec_string n)"
  using dec_string_digits digit_char_not_special(1) by metis

lemma uint64_to_str_print: "c_str 32 (uint64_to_str num buf) = dec_string (unat num)"
  using length_dec_string_u64 [of num] dec_string_no_nul
  by (intro c_str_eqI) (simp_all add: uint64_to_str_cells)

end
