(* ===== verification/Pit.thy ===== *)
theory Pit
  imports Vga
begin

text \<open>
  The programmable interval timer (\<open>drivers/pit.c\<close>): the tick counter, the programming of
  channel 0, and the halt loop of \<open>pit_sleep\<close>. While a loop halts, interrupts run: what
  they do to the state is an argument, \<open>env k s\<close> for the \<open>k\<close>-th wake-up.
\<close>

definition PIT_CHANNEL0 :: u16 where "PIT_CHANNEL0 = 0x40"
definition PIT_COMMAND :: u16 where "PIT_COMMAND = 0x43"
definition PIT_FREQUENCY :: u32 where "PIT_FREQUENCY = 1193182"
definition TIMER_FREQUENCY :: u32 where "TIMER_FREQUENCY = 100"

record pit = vga +
  timer_ticks :: u64

definition pit_handler :: "'a pit_scheme \<Rightarrow> 'a pit_scheme" where
  "pit_handler s = s\<lparr>timer_ticks := timer_ticks s + 1\<rparr>"

definition pit_init :: "'a machine_scheme \<Rightarrow> 'a machine_scheme" where
  "pit_init s =
     (let divisor = PIT_FREQUENCY div TIMER_FREQUENCY;
          s = outb PIT_COMMAND 0x36 s;
          s = outb PIT_CHANNEL0 (ucast (divisor AND 0xFF)) s
      in outb PIT_CHANNEL0 (ucast (drop_bit 8 divisor AND 0xFF)) s)"

definition pit_get_ticks :: "'a pit_scheme \<Rightarrow> u64" where
  "pit_get_ticks s = timer_ticks s"

partial_function (option) pit_sleep_loop ::
  "(nat \<Rightarrow> 'a pit_scheme \<Rightarrow> 'a pit_scheme) \<Rightarrow> nat \<Rightarrow> u64 \<Rightarrow> 'a pit_scheme \<Rightarrow> 'a pit_scheme option" where
  "pit_sleep_loop env k end_tick s =
     (if timer_ticks s < end_tick then pit_sleep_loop env (Suc k) end_tick (env k (emit Hlt s))
      else Some s)"

definition pit_sleep ::
  "(nat \<Rightarrow> 'a pit_scheme \<Rightarrow> 'a pit_scheme) \<Rightarrow> u64 \<Rightarrow> 'a pit_scheme \<Rightarrow> 'a pit_scheme option" where
  "pit_sleep env ticks s = (let end_tick = timer_ticks s + ticks in pit_sleep_loop env 0 end_tick s)"

subsection \<open>Programming the timer\<close>

text \<open>
  The timer is programmed with the command byte and then the two bytes of the divisor,
  low byte first; the bytes recombine to 11931, and the resulting rate is within one part in ten
  thousand of 100 Hz.
\<close>

theorem pit_init_programs_divisor:
  "\<exists>lo hi. hw_trace (pit_init s) = hw_trace s @ [Out 0x43 0x36, Out 0x40 lo, Out 0x40 hi] \<and>
     unat lo + 256 * unat hi = unat (PIT_FREQUENCY div TIMER_FREQUENCY) \<and>
     unat (PIT_FREQUENCY div TIMER_FREQUENCY) = 11931 \<and>
     \<bar>1193182 - 100 * int (unat lo + 256 * unat hi)\<bar> * 10000 < 1193182"
  by (rule exI [of _ "0x9B"], rule exI [of _ "0x2E"])
    (simp add: pit_init_def machine_defs PIT_COMMAND_def PIT_CHANNEL0_def PIT_FREQUENCY_def TIMER_FREQUENCY_def)

subsection \<open>Sleeping\<close>

lemma pit_timer_emit [simp]: "timer_ticks (emit e s) = timer_ticks s"
  by (simp add: emit_def)

lemma pit_sleep_loop_ends:
  assumes "\<And>k t. timer_ticks (env k t) = timer_ticks t + 1"
    and "unat (end_tick - timer_ticks s) = n" and "timer_ticks s \<le> end_tick"
  shows "\<exists>t. pit_sleep_loop env k end_tick s = Some t \<and> timer_ticks t = end_tick"
  using assms(2,3)
proof (induction n arbitrary: k s)
  case 0
  then have "timer_ticks s = end_tick" by (simp add: unat_eq_0)
  then show ?case by (subst pit_sleep_loop.simps) simp
next
  case (Suc n)
  then have ne: "timer_ticks s \<noteq> end_tick" by auto
  with Suc.prems have lt: "timer_ticks s < end_tick" by simp
  let ?t = "env k (emit Hlt s)"
  have t: "timer_ticks ?t = timer_ticks s + 1" using assms(1) by simp
  have le: "timer_ticks ?t \<le> end_tick"
    using unat_Suc_below [OF lt] lt by (simp add: t word_le_nat_alt word_less_nat_alt)
  have "unat (end_tick - timer_ticks ?t) = n"
    using Suc.prems(1) unat_Suc_below [OF lt] lt le t
    by (simp add: unat_sub_exact less_imp_le word_le_nat_alt)
  from Suc.IH [OF this le] lt show ?case
    by (subst pit_sleep_loop.simps) simp
qed

text \<open>
  If every wake-up counts one tick, \<open>pit_sleep\<close> returns, exactly the requested
  number of ticks later (as long as the counter does not wrap, which takes 5.8 billion years).
\<close>

theorem pit_sleep_returns:
  assumes "\<And>k t. timer_ticks (env k t) = timer_ticks t + 1"
    and "unat (timer_ticks s) + unat ticks < 2 ^ 64"
  shows "\<exists>t. pit_sleep env ticks s = Some t \<and> pit_get_ticks t = pit_get_ticks s + ticks"
proof -
  have "timer_ticks s \<le> timer_ticks s + ticks"
    using assms(2) by (simp add: word_le_nat_alt unat_add_exact)
  from pit_sleep_loop_ends [OF assms(1) refl this] show ?thesis
    by (simp add: pit_sleep_def pit_get_ticks_def)
qed

lemma pit_sleep_loop_stuck:
  assumes "\<And>k t. timer_ticks (env k t) = timer_ticks t"
    and "timer_ticks s < end_tick"
  shows "pit_sleep_loop env k end_tick s = None"
proof (rule ccontr)
  assume "pit_sleep_loop env k end_tick s \<noteq> None"
  then obtain u where "pit_sleep_loop env k end_tick s = Some u" by blast
  then have "(\<forall>k t. timer_ticks (env k t) = timer_ticks t) \<longrightarrow> \<not> timer_ticks s < end_tick"
  proof (rule pit_sleep_loop.raw_induct [where P = "\<lambda>env k end_tick s u.
      (\<forall>k t. timer_ticks (env k t) = timer_ticks t) \<longrightarrow> \<not> timer_ticks s < end_tick", rotated])
    fix loop env k end_tick u and s :: "'b pit_scheme"
    assume "\<And>env k end_tick s u. loop env k end_tick s = Some u \<Longrightarrow>
        (\<forall>k t. timer_ticks (env k t) = timer_ticks t) \<longrightarrow> \<not> timer_ticks s < end_tick"
      and "(if timer_ticks s < end_tick then loop env (Suc k) end_tick (env k (emit Hlt s)) else Some s) = Some u"
    then show "(\<forall>k t. timer_ticks (env k t) = timer_ticks t) \<longrightarrow> \<not> timer_ticks s < end_tick"
      by (fastforce split: if_splits)
  qed
  with assms show False by blast
qed

definition demo_pit :: pit where
  "demo_pit = \<lparr>port_in = (\<lambda>_ _. 0), port_reads = (\<lambda>_. 0), hw_trace = [], mem8 = (\<lambda>_. 0),
     vga_buffer = (\<lambda>_. 0), cursor_x = 0, cursor_y = 0, timer_ticks = 7\<rparr>"

theorem pit_sleep_returns_witness:
  "\<exists>t. pit_sleep (\<lambda>_. pit_handler) 3 demo_pit = Some t \<and> pit_get_ticks t = 10"
  using pit_sleep_returns [of "\<lambda>_. pit_handler" demo_pit 3]
  by (simp add: pit_handler_def) (simp add: demo_pit_def pit_get_ticks_def)

end
