(* ===== verification/Queue.thy ===== *)
theory Queue
  imports Prelude
begin

text \<open>
  The contract of the kernel's two queues, the keyboard's ring buffer and the scheduler's list of
  ready processes: what a client sees is a list, a push appends to it where it is allowed, a pop
  takes its head. A bounded queue drops what does not fit.
\<close>

locale fifo =
  fixes push :: "'a \<Rightarrow> 's \<Rightarrow> 's"
    and pop :: "'s \<Rightarrow> 'a \<times> 's"
    and items :: "'s \<Rightarrow> 'a list"
    and ready :: "'a \<Rightarrow> 's \<Rightarrow> bool"
    and inv :: "'s \<Rightarrow> bool"
  assumes push_inv: "inv s \<Longrightarrow> ready x s \<Longrightarrow> inv (push x s)"
    and push_items: "inv s \<Longrightarrow> ready x s \<Longrightarrow> items (push x s) = items s @ [x]"
    and pop_inv: "inv s \<Longrightarrow> items s = x # xs \<Longrightarrow> inv (snd (pop s))"
    and pop_item: "inv s \<Longrightarrow> items s = x # xs \<Longrightarrow> fst (pop s) = x"
    and pop_items: "inv s \<Longrightarrow> items s = x # xs \<Longrightarrow> items (snd (pop s)) = xs"

text \<open>\<open>n\<close> pops in a row.\<close>

primrec pop_list :: "('s \<Rightarrow> 'a \<times> 's) \<Rightarrow> nat \<Rightarrow> 's \<Rightarrow> 'a list \<times> 's" where
  "pop_list pop 0 s = ([], s)"
| "pop_list pop (Suc n) s =
     (fst (pop s) # fst (pop_list pop n (snd (pop s))), snd (pop_list pop n (snd (pop s))))"

context fifo
begin

lemma pop_list_items:
  "inv s \<Longrightarrow> n \<le> length (items s) \<Longrightarrow>
    inv (snd (pop_list pop n s)) \<and> fst (pop_list pop n s) = take n (items s) \<and>
    items (snd (pop_list pop n s)) = drop n (items s)"
proof (induction n arbitrary: s)
  case 0
  then show ?case by simp
next
  case (Suc n)
  then obtain x xs where "items s = x # xs" by (cases "items s") auto
  with Suc show ?case by (simp add: pop_inv pop_item pop_items)
qed

text \<open>What was queued comes out first in, first out.\<close>

lemma pop_list_all:
  "inv s \<Longrightarrow> fst (pop_list pop (length (items s)) s) = items s \<and>
    items (snd (pop_list pop (length (items s)) s)) = []"
  by (simp add: pop_list_items)

text \<open>Pushing onto a queue that is not empty and then popping takes the old head.\<close>

lemma push_pop:
  assumes "inv s" and "ready x s" and "items s = y # ys"
  shows "fst (pop (push x s)) = y" "items (snd (pop (push x s))) = ys @ [x]"
    "inv (snd (pop (push x s)))"
  using assms push_items [OF assms(1,2)] push_inv [OF assms(1,2)]
  by (simp_all add: pop_item pop_items pop_inv)

end

locale bounded_fifo = fifo +
  fixes capacity :: nat
  assumes ready_iff: "inv s \<Longrightarrow> ready x s \<longleftrightarrow> length (items s) < capacity"
    and push_full: "inv s \<Longrightarrow> \<not> ready x s \<Longrightarrow> items (push x s) = items s"
    and push_full_inv: "inv s \<Longrightarrow> \<not> ready x s \<Longrightarrow> inv (push x s)"
begin

lemma push_any: "inv s \<Longrightarrow> items (push x s) = (if length (items s) < capacity then items s @ [x] else items s)"
  using ready_iff push_items push_full by auto

lemma push_any_inv: "inv s \<Longrightarrow> inv (push x s)"
  using push_inv push_full_inv by blast

text \<open>Of a burst of pushes, the queue keeps as many as fit, in order.\<close>

lemma push_burst:
  "inv s \<Longrightarrow> length (items s) \<le> capacity \<Longrightarrow>
    inv (fold push xs s) \<and> items (fold push xs s) = take capacity (items s @ xs)"
proof (induction xs arbitrary: s)
  case Nil
  then show ?case by simp
next
  case (Cons x xs)
  show ?case
  proof (cases "length (items s) < capacity")
    case True
    then have "capacity - length (items s) = Suc (capacity - Suc (length (items s)))" by simp
    with Cons True show ?thesis by (simp add: push_any push_any_inv)
  next
    case False
    with Cons have "length (items s) = capacity" by simp
    with Cons show ?thesis by (simp add: push_any push_any_inv)
  qed
qed

end

end
