(* ===== verification/Keyboard.thy ===== *)
theory Keyboard
  imports Pit Queue "HOL-Library.Sublist"
begin

text \<open>
  The PS/2 keyboard driver (\<open>drivers/keyboard.c\<close>): the scancode tables, the modifier flags, the
  interrupt handler and the ring buffer between it and \<open>keyboard_getchar\<close>.
\<close>

definition KB_DATA_PORT :: u16 where "KB_DATA_PORT = 0x60"
definition KB_STATUS_PORT :: u16 where "KB_STATUS_PORT = 0x64"
definition KB_STATUS_OUTPUT_FULL :: u8 where "KB_STATUS_OUTPUT_FULL = 0x01"
definition KEY_LCTRL :: u8 where "KEY_LCTRL = 0x1D"
definition KEY_LSHIFT :: u8 where "KEY_LSHIFT = 0x2A"
definition KEY_RSHIFT :: u8 where "KEY_RSHIFT = 0x36"
definition KEY_LALT :: u8 where "KEY_LALT = 0x38"
definition KB_BUFFER_SIZE :: u16 where "KB_BUFFER_SIZE = 256"

text \<open>The tables, by scancode; entries the initializer leaves out are 0.\<close>

definition keyboard_us :: "char list" where
  "keyboard_us =
     [CHR 0x00, CHR 0x1B] @ ''1234567890-='' @ [CHR 0x08, CHR 0x09] @ ''qwertyuiop[]'' @
     [CHR 0x0A, CHR 0x00] @ ''asdfghjkl;'' @ [CHR 0x27, CHR 0x60, CHR 0x00, CHR 0x5C] @
     ''zxcvbnm,./'' @ [CHR 0x00, CHR ''*'', CHR 0x00, CHR '' ''] @ replicate 16 (CHR 0x00) @
     [CHR ''-''] @ replicate 3 (CHR 0x00) @ [CHR ''+''] @ replicate 49 (CHR 0x00)"

definition keyboard_us_shifted :: "char list" where
  "keyboard_us_shifted =
     [CHR 0x00, CHR 0x1B] @ ''!@#$%^&*()_+'' @ [CHR 0x08, CHR 0x09] @ ''QWERTYUIOP{}'' @
     [CHR 0x0A, CHR 0x00] @ ''ASDFGHJKL:'' @ [CHR 0x22, CHR 0x7E, CHR 0x00, CHR 0x7C] @
     ''ZXCVBNM<>?'' @ [CHR 0x00, CHR ''*'', CHR 0x00, CHR '' ''] @ replicate 70 (CHR 0x00)"

record keyboard = pit +
  shift_pressed :: u8
  ctrl_pressed :: u8
  alt_pressed :: u8
  kb_buffer :: "u16 \<Rightarrow> char"
  kb_buffer_read :: u16
  kb_buffer_write :: u16

definition kb_buffer_add :: "char \<Rightarrow> 'a keyboard_scheme \<Rightarrow> 'a keyboard_scheme" where
  "kb_buffer_add c s =
     (let next_write = (kb_buffer_write s + 1) mod KB_BUFFER_SIZE
      in if next_write \<noteq> kb_buffer_read s
         then s\<lparr>kb_buffer := (kb_buffer s)(kb_buffer_write s := c), kb_buffer_write := next_write\<rparr>
         else s)"

partial_function (option) kb_drain :: "'a machine_scheme \<Rightarrow> 'a machine_scheme option" where
  "kb_drain s =
     (let (status, s) = inb KB_STATUS_PORT s
      in if status AND KB_STATUS_OUTPUT_FULL \<noteq> 0 then kb_drain (snd (inb KB_DATA_PORT s)) else Some s)"

definition keyboard_init :: "'a keyboard_scheme \<Rightarrow> 'a keyboard_scheme option" where
  "keyboard_init s = kb_drain (s\<lparr>kb_buffer_read := 0, kb_buffer_write := 0\<rparr>)"

definition keyboard_handler :: "'a keyboard_scheme \<Rightarrow> 'a keyboard_scheme" where
  "keyboard_handler s =
     (let (scancode, s) = inb KB_DATA_PORT s
      in if scancode AND 0x80 \<noteq> 0 then
           (let scancode = scancode AND 0x7F
            in if scancode = KEY_LSHIFT \<or> scancode = KEY_RSHIFT then s\<lparr>shift_pressed := 0\<rparr>
               else if scancode = KEY_LCTRL then s\<lparr>ctrl_pressed := 0\<rparr>
               else if scancode = KEY_LALT then s\<lparr>alt_pressed := 0\<rparr>
               else s)
         else if scancode = KEY_LSHIFT \<or> scancode = KEY_RSHIFT then s\<lparr>shift_pressed := 1\<rparr>
         else if scancode = KEY_LCTRL then s\<lparr>ctrl_pressed := 1\<rparr>
         else if scancode = KEY_LALT then s\<lparr>alt_pressed := 1\<rparr>
         else
           (let c = (if shift_pressed s \<noteq> 0 then keyboard_us_shifted ! unat scancode
                     else keyboard_us ! unat scancode)
            in if c \<noteq> CHR 0x00 then kb_buffer_add c s else s))"

definition keyboard_has_input :: "'a keyboard_scheme \<Rightarrow> bool" where
  "keyboard_has_input s \<longleftrightarrow> kb_buffer_read s \<noteq> kb_buffer_write s"

text \<open>The second half of \<open>keyboard_getchar\<close>, reading the character at the read index.\<close>

definition kb_buffer_take :: "'a keyboard_scheme \<Rightarrow> char \<times> 'a keyboard_scheme" where
  "kb_buffer_take s =
     (let c = kb_buffer s (kb_buffer_read s)
      in (c, s\<lparr>kb_buffer_read := (kb_buffer_read s + 1) mod KB_BUFFER_SIZE\<rparr>))"

text \<open>While it waits, interrupts run: \<open>env k\<close> is their effect at the \<open>k\<close>-th wake-up.\<close>

partial_function (option) kb_wait ::
  "(nat \<Rightarrow> 'a keyboard_scheme \<Rightarrow> 'a keyboard_scheme) \<Rightarrow> nat \<Rightarrow> 'a keyboard_scheme \<Rightarrow> 'a keyboard_scheme option" where
  "kb_wait env k s =
     (if \<not> keyboard_has_input s then kb_wait env (Suc k) (env k (emit Hlt s)) else Some s)"

definition keyboard_getchar ::
  "(nat \<Rightarrow> 'a keyboard_scheme \<Rightarrow> 'a keyboard_scheme) \<Rightarrow> 'a keyboard_scheme \<Rightarrow> (char \<times> 'a keyboard_scheme) option" where
  "keyboard_getchar env s = map_option kb_buffer_take (kb_wait env 0 s)"


subsection \<open>The ring buffer is a bounded queue\<close>

definition kb_ok :: "'a keyboard_scheme \<Rightarrow> bool" where
  "kb_ok s \<longleftrightarrow> kb_buffer_read s < KB_BUFFER_SIZE \<and> kb_buffer_write s < KB_BUFFER_SIZE"

definition kb_count :: "'a keyboard_scheme \<Rightarrow> nat" where
  "kb_count s = (unat (kb_buffer_write s) + 256 - unat (kb_buffer_read s)) mod 256"

text \<open>The characters between the two indices, oldest first.\<close>

definition kb_contents :: "'a keyboard_scheme \<Rightarrow> string" where
  "kb_contents s =
     map (\<lambda>k. kb_buffer s (word_of_nat ((unat (kb_buffer_read s) + k) mod 256))) [0..<kb_count s]"

definition kb_room :: "char \<Rightarrow> 'a keyboard_scheme \<Rightarrow> bool" where
  "kb_room c s \<longleftrightarrow> length (kb_contents s) < 255"

lemma kb_length [simp]: "length (kb_contents s) = kb_count s"
  by (simp add: kb_contents_def)

lemma kb_okD:
  assumes "kb_ok s"
  shows "unat (kb_buffer_read s) < 256" "unat (kb_buffer_write s) < 256"
  using assms by (simp_all add: kb_ok_def KB_BUFFER_SIZE_def word_less_nat_alt)

lemma unat_next_index: "unat ((i + 1) mod KB_BUFFER_SIZE) = Suc (unat i) mod 256" for i :: u16
proof -
  have "Suc (unat i) mod 65536 mod 256 = Suc (unat i) mod 256"
    by (rule mod_mod_cancel) simp
  then show ?thesis by (simp add: KB_BUFFER_SIZE_def unat_mod unat_word_ariths)
qed

lemma kb_count_bound: "kb_count s \<le> 255"
  by (simp add: kb_count_def less_Suc_eq_le [symmetric])

text \<open>Index arithmetic on a ring of 256 cells.\<close>

lemma ring_count:
  fixes r w :: nat
  assumes "r < 256" and "w < 256"
  shows "(w + 256 - r) mod 256 = (if r \<le> w then w - r else w + 256 - r)"
  using assms by (auto simp: mod_if)

lemma ring_Suc: "w < 256 \<Longrightarrow> Suc w mod 256 = (if w = 255 then 0 else Suc w)"
  by auto

lemma ring_end:
  fixes r w :: nat
  assumes "r < 256" and "w < 256"
  shows "(r + (w + 256 - r) mod 256) mod 256 = w"
  using assms by (simp add: ring_count)

lemma ring_inside:
  fixes r w :: nat
  assumes "r < 256" and "w < 256" and "k < (w + 256 - r) mod 256"
  shows "(r + k) mod 256 \<noteq> w"
proof (cases "r + k < 256")
  case True
  then show ?thesis using assms by (auto simp: ring_count split: if_splits)
next
  case False
  then have "(r + k) mod 256 = r + k - 256"
    using assms by (subst le_mod_geq) (auto simp: ring_count split: if_splits)
  then show ?thesis using assms False by (auto simp: ring_count split: if_splits)
qed

lemma ring_full:
  fixes r w :: nat
  assumes "r < 256" and "w < 256"
  shows "Suc w mod 256 = r \<longleftrightarrow> (w + 256 - r) mod 256 = 255"
  using assms by (auto simp: ring_count ring_Suc)

lemma ring_push:
  fixes r w :: nat
  assumes "r < 256" and "w < 256" and "Suc w mod 256 \<noteq> r"
  shows "(Suc w mod 256 + 256 - r) mod 256 = Suc ((w + 256 - r) mod 256)"
proof (cases "w = 255")
  case True
  have "0 < r" using True assms by simp
  then show ?thesis unfolding ring_count [OF assms(1,2)] using True assms by simp
next
  case False
  then have w: "Suc w < 256" "Suc w \<noteq> r" using assms by (simp_all add: ring_Suc)
  then have "Suc w mod 256 = Suc w" by simp
  then show ?thesis
    unfolding ring_count [OF assms(1,2)] using ring_count [OF assms(1) w(1)] assms w by auto
qed

lemma ring_pop:
  fixes r w :: nat
  assumes "r < 256" and "w < 256" and "r \<noteq> w"
  shows "(w + 256 - Suc r mod 256) mod 256 = (w + 256 - r) mod 256 - 1"
proof (cases "r = 255")
  case True
  then show ?thesis using assms by (simp add: ring_count)
next
  case False
  then have "Suc r < 256" using assms by simp
  moreover from this have "Suc r mod 256 = Suc r" by simp
  ultimately show ?thesis
    unfolding ring_count [OF assms(1,2)] using ring_count [of "Suc r" w] assms by auto
qed

lemma kb_full_iff:
  assumes "kb_ok s"
  shows "(kb_buffer_write s + 1) mod KB_BUFFER_SIZE = kb_buffer_read s \<longleftrightarrow> kb_count s = 255"
  using ring_full [OF kb_okD [OF assms]]
  by (simp add: word_unat_eq_iff unat_next_index kb_count_def)

lemma kb_add_accepts:
  assumes "kb_ok s" and "kb_count s < 255"
  shows "kb_ok (kb_buffer_add c s)" "kb_contents (kb_buffer_add c s) = kb_contents s @ [c]"
proof -
  let ?r = "unat (kb_buffer_read s)" and ?w = "unat (kb_buffer_write s)"
  note rw = kb_okD [OF assms(1)]
  have room: "(kb_buffer_write s + 1) mod KB_BUFFER_SIZE \<noteq> kb_buffer_read s"
    using kb_full_iff [OF assms(1)] assms(2) by simp
  then have "Suc ?w mod 256 \<noteq> ?r"
    by (simp add: word_unat_eq_iff unat_next_index)
  note push = ring_push [OF rw this]
  show "kb_ok (kb_buffer_add c s)"
    using assms(1) room
    by (simp add: kb_buffer_add_def kb_ok_def word_less_nat_alt unat_next_index) (simp add: KB_BUFFER_SIZE_def)
  have cell: "(word_of_nat ((?r + k) mod 256) = kb_buffer_write s) = (k = kb_count s)"
    if "k \<le> kb_count s" for k
  proof
    assume "word_of_nat ((?r + k) mod 256) = kb_buffer_write s"
    then have "unat (word_of_nat ((?r + k) mod 256) :: u16) = ?w" by simp
    then have "(?r + k) mod 256 = ?w" by (simp add: unat_of_nat mod_mod_cancel)
    with ring_inside [OF rw] that show "k = kb_count s"
      unfolding kb_count_def by (metis le_neq_implies_less)
  next
    assume "k = kb_count s"
    then show "word_of_nat ((?r + k) mod 256) = kb_buffer_write s"
      using ring_end [OF rw] by (simp add: kb_count_def)
  qed
  have count: "kb_count (kb_buffer_add c s) = Suc (kb_count s)"
    using room push by (simp add: kb_buffer_add_def kb_count_def unat_next_index)
  show "kb_contents (kb_buffer_add c s) = kb_contents s @ [c]"
    unfolding kb_contents_def count using room cell
    by (auto simp: kb_buffer_add_def)
qed

lemma kb_add_full:
  assumes "kb_ok s" and "\<not> kb_count s < 255"
  shows "kb_buffer_add c s = s"
  using kb_full_iff [OF assms(1)] assms(2) kb_count_bound [of s] by (simp add: kb_buffer_add_def)

lemma kb_take_head:
  assumes "kb_ok s" and "kb_contents s = x # xs"
  shows "kb_ok (snd (kb_buffer_take s))" "fst (kb_buffer_take s) = x"
    "kb_contents (snd (kb_buffer_take s)) = xs"
proof -
  let ?r = "unat (kb_buffer_read s)" and ?w = "unat (kb_buffer_write s)"
  note rw = kb_okD [OF assms(1)]
  have n: "kb_count s = Suc (length xs)" using arg_cong [OF assms(2), of length] by simp
  have hd: "kb_contents s ! 0 = x" by (simp add: assms(2))
  have nth: "kb_buffer s (word_of_nat ((?r + Suc k) mod 256)) = xs ! k" if "k < length xs" for k
  proof -
    have "kb_contents s ! Suc k = xs ! k" by (simp add: assms(2))
    then show ?thesis using that n by (simp add: kb_contents_def del: upt_Suc)
  qed
  show "fst (kb_buffer_take s) = x"
    using hd rw by (simp add: kb_contents_def kb_buffer_take_def n del: upt_Suc)
  show "kb_ok (snd (kb_buffer_take s))"
    using assms(1)
    by (simp add: kb_buffer_take_def kb_ok_def word_less_nat_alt unat_next_index) (simp add: KB_BUFFER_SIZE_def)
  have "?r \<noteq> ?w" using n by (auto simp: kb_count_def)
  then have "kb_count (snd (kb_buffer_take s)) = length xs"
    using ring_pop [OF rw] n by (simp add: kb_buffer_take_def kb_count_def unat_next_index)
  then show "kb_contents (snd (kb_buffer_take s)) = xs"
    using nth n
    by (intro nth_equalityI)
      (auto simp: kb_contents_def kb_buffer_take_def unat_next_index mod_simps simp del: upt_Suc)
qed

interpretation kb: bounded_fifo kb_buffer_add kb_buffer_take kb_contents kb_room kb_ok 255
  by unfold_locales (auto simp: kb_room_def kb_add_accepts kb_add_full kb_take_head)


lemma kb_has_input_iff: "kb_ok s \<Longrightarrow> keyboard_has_input s \<longleftrightarrow> kb_contents s \<noteq> []"
proof -
  assume "kb_ok s"
  note rw = kb_okD [OF this]
  have "kb_contents s = [] \<longleftrightarrow> kb_count s = 0" by (metis kb_length length_0_conv)
  also have "\<dots> \<longleftrightarrow> unat (kb_buffer_read s) = unat (kb_buffer_write s)"
    using rw unfolding kb_count_def ring_count [OF rw] by auto
  finally show ?thesis by (simp add: keyboard_has_input_def word_unat_eq_iff)
qed

text \<open>What only moves the machine leaves the queue alone.\<close>

lemma kb_machine_upd [simp]:
  "kb_contents (emit e s) = kb_contents s" "kb_ok (emit e s) = kb_ok s"
  "kb_contents (snd (inb p s)) = kb_contents s" "kb_ok (snd (inb p s)) = kb_ok s"
  "shift_pressed (emit e s) = shift_pressed s" "shift_pressed (snd (inb p s)) = shift_pressed s"
  by (simp_all add: machine_defs Let_def kb_contents_def kb_count_def kb_ok_def)

lemma kb_modifier_upd [simp]:
  "kb_contents (s\<lparr>shift_pressed := v\<rparr>) = kb_contents s" "kb_ok (s\<lparr>shift_pressed := v\<rparr>) = kb_ok s"
  "kb_contents (s\<lparr>ctrl_pressed := v\<rparr>) = kb_contents s" "kb_ok (s\<lparr>ctrl_pressed := v\<rparr>) = kb_ok s"
  "kb_contents (s\<lparr>alt_pressed := v\<rparr>) = kb_contents s" "kb_ok (s\<lparr>alt_pressed := v\<rparr>) = kb_ok s"
  by (simp_all add: kb_contents_def kb_count_def kb_ok_def)

lemma kb_shift_upd [simp]:
  "shift_pressed (kb_buffer_add c s) = shift_pressed s"
  "shift_pressed (snd (kb_buffer_take s)) = shift_pressed s"
  by (simp_all add: kb_buffer_add_def kb_buffer_take_def Let_def)

lemma kb_ticks_frame [simp]:
  "timer_ticks (kb_buffer_add c s) = timer_ticks s" "timer_ticks (snd (inb p s)) = timer_ticks s"
  by (simp_all add: kb_buffer_add_def inb_def Let_def)

lemma keyboard_handler_ticks: "timer_ticks (keyboard_handler s) = timer_ticks s"
  unfolding keyboard_handler_def Let_def split_beta
  by (simp only: if_distrib [of timer_ticks] kb_ticks_frame if_cancel pit.simps keyboard.simps)
    (simp add: kb_ticks_frame)

subsection \<open>The tables\<close>

lemma keyboard_us_length [simp]: "length keyboard_us = 128"
  by (simp add: keyboard_us_def)

lemma keyboard_us_shifted_length [simp]: "length keyboard_us_shifted = 128"
  by (simp add: keyboard_us_shifted_def)

text \<open>A scancode with bit 7 clear indexes both tables inside their 128 entries.\<close>

lemma scancode_bit7: "(sc AND 0x80 = 0) = (sc < (0x80 :: u8))"
  by (rule u8_all) code_simp

lemma scancode_in_table: "sc AND 0x80 = 0 \<Longrightarrow> unat (sc :: u8) < 128"
  by (simp add: scancode_bit7 word_less_nat_alt)

lemma scancode_release:
  "(sc AND 0x80 \<noteq> 0 \<and> (sc AND 0x7F = 0x2A \<or> sc AND 0x7F = 0x36)) = (sc \<in> {0xAA, 0xB6 :: u8})"
  by (rule u8_all) code_simp

subsection \<open>The handler and the reader as a typing machine\<close>

text \<open>The characters a scancode types, and the shift state it leaves.\<close>

definition key_text :: "bool \<Rightarrow> u8 \<Rightarrow> string" where
  "key_text shifted sc =
     (if sc \<in> {0x1D, 0x2A, 0x36, 0x38} \<or> 128 \<le> unat sc then []
      else filter (\<lambda>c. c \<noteq> CHR 0x00) [(if shifted then keyboard_us_shifted else keyboard_us) ! unat sc])"

definition shift_after :: "bool \<Rightarrow> u8 \<Rightarrow> bool" where
  "shift_after shifted sc = (if sc \<in> {0x2A, 0x36} then True else if sc \<in> {0xAA, 0xB6} then False else shifted)"

datatype kb_event = Key u8 | Read char

primrec typed_text :: "bool \<Rightarrow> kb_event list \<Rightarrow> string" where
  "typed_text shifted [] = []"
| "typed_text shifted (e # es) =
     (case e of Key sc \<Rightarrow> key_text shifted sc @ typed_text (shift_after shifted sc) es
      | Read c \<Rightarrow> typed_text shifted es)"

primrec read_text :: "kb_event list \<Rightarrow> string" where
  "read_text [] = []"
| "read_text (e # es) = (case e of Key sc \<Rightarrow> read_text es | Read c \<Rightarrow> c # read_text es)"

text \<open>Interrupts and reads in any order: one handler call or one character taken per step.\<close>

inductive kb_run :: "'a keyboard_scheme \<Rightarrow> kb_event list \<Rightarrow> 'a keyboard_scheme \<Rightarrow> bool" where
  idle: "kb_run s [] s"
| key: "fst (inb KB_DATA_PORT s) = sc \<Longrightarrow> kb_run (keyboard_handler s) es t \<Longrightarrow> kb_run s (Key sc # es) t"
| get: "keyboard_has_input s \<Longrightarrow> fst (kb_buffer_take s) = c \<Longrightarrow> kb_run (snd (kb_buffer_take s)) es t \<Longrightarrow>
    kb_run s (Read c # es) t"

inductive_simps kb_run_simps: "kb_run s [] t" "kb_run s (Key sc # es) t" "kb_run s (Read c # es) t"

lemma keyboard_handler_cases:
  assumes "kb_ok s" and "fst (inb KB_DATA_PORT s) = sc"
  shows "kb_ok (keyboard_handler s)"
    "shift_pressed (keyboard_handler s) \<noteq> 0 \<longleftrightarrow> shift_after (shift_pressed s \<noteq> 0) sc"
    "kb_contents (keyboard_handler s) = take 255 (kb_contents s @ key_text (shift_pressed s \<noteq> 0) sc)"
proof -
  obtain u where u: "inb KB_DATA_PORT s = (sc, u)" using assms(2) by (cases "inb KB_DATA_PORT s") simp
  have inv: "kb_ok u" "kb_contents u = kb_contents s" "shift_pressed u = shift_pressed s"
    using assms(1) kb_machine_upd(3,4,6) [of KB_DATA_PORT s] by (simp_all add: u)
  have le: "kb_count s \<le> 255" by (rule kb_count_bound)
  note codes = KEY_LSHIFT_def KEY_RSHIFT_def KEY_LCTRL_def KEY_LALT_def
  have "kb_ok (keyboard_handler s) \<and>
    (shift_pressed (keyboard_handler s) \<noteq> 0 \<longleftrightarrow> shift_after (shift_pressed s \<noteq> 0) sc) \<and>
    kb_contents (keyboard_handler s) = take 255 (kb_contents s @ key_text (shift_pressed s \<noteq> 0) sc)"
  proof (cases "sc AND 0x80 = 0")
    case True
    note press = scancode_in_table [OF this]
    then have "sc \<noteq> 0xAA" "sc \<noteq> 0xB6" by auto
    with True press le inv show ?thesis
      by (simp add: keyboard_handler_def u codes shift_after_def key_text_def kb.push_any kb.push_any_inv)
  next
    case False
    then have release: "128 \<le> unat sc" "sc \<noteq> 0x2A" "sc \<noteq> 0x36"
      by (auto simp: scancode_bit7 word_le_nat_alt not_less)
    then have none: "key_text b sc = []" for b by (simp add: key_text_def)
    have "(sc AND 0x7F = 0x2A \<or> sc AND 0x7F = 0x36) = (sc = 0xAA \<or> sc = 0xB6)"
      using scancode_release [of sc] False by simp
    with False le inv release none show ?thesis
      by (auto simp: keyboard_handler_def u codes shift_after_def Let_def)
  qed
  then show "kb_ok (keyboard_handler s)"
    "shift_pressed (keyboard_handler s) \<noteq> 0 \<longleftrightarrow> shift_after (shift_pressed s \<noteq> 0) sc"
    "kb_contents (keyboard_handler s) = take 255 (kb_contents s @ key_text (shift_pressed s \<noteq> 0) sc)"
    by blast+
qed

text \<open>
  Property C11. Whatever the interleaving of key interrupts and reads, what has been read followed
  by what is still buffered is what was buffered at the start followed by a subsequence of the
  text typed: characters never change, reorder or repeat, they are only lost; and none is lost
  as long as no more than 255 characters are typed in all.
\<close>

theorem keyboard_run_text:
  assumes "kb_run s es t" and "kb_ok s"
  shows "kb_ok t \<and>
    (\<exists>kept. subseq kept (typed_text (shift_pressed s \<noteq> 0) es) \<and>
       read_text es @ kb_contents t = kb_contents s @ kept \<and>
       (length (kb_contents s @ typed_text (shift_pressed s \<noteq> 0) es) \<le> 255 \<longrightarrow>
          kept = typed_text (shift_pressed s \<noteq> 0) es))"
  using assms
proof (induction rule: kb_run.induct)
  case (idle s)
  then show ?case by simp
next
  case (key s sc es t)
  note step = keyboard_handler_cases [OF key.prems key.hyps(1)]
  obtain kept where ih: "kb_ok t" "subseq kept (typed_text (shift_after (shift_pressed s \<noteq> 0) sc) es)"
    "read_text es @ kb_contents t = kb_contents (keyboard_handler s) @ kept"
    "length (kb_contents (keyboard_handler s) @ typed_text (shift_after (shift_pressed s \<noteq> 0) sc) es) \<le> 255 \<longrightarrow>
       kept = typed_text (shift_after (shift_pressed s \<noteq> 0) sc) es"
    using key.IH [OF step(1)] step(2) by auto
  let ?new = "key_text (shift_pressed s \<noteq> 0) sc"
  let ?fit = "take (255 - kb_count s) ?new"
  have "kb_contents (keyboard_handler s) = kb_contents s @ ?fit"
    using step(3) kb_count_bound [of s] by simp
  moreover have "subseq ?fit ?new" by (rule prefix_imp_subseq [OF take_is_prefix])
  moreover have "?fit = ?new" if "length (kb_contents s @ typed_text (shift_pressed s \<noteq> 0) (Key sc # es)) \<le> 255"
    using that by simp
  ultimately show ?case using ih
    by (intro conjI exI [of _ "?fit @ kept"]) (auto intro: list_emb_append_mono)
next
  case (get s c es t)
  have "kb_contents s \<noteq> []" using get.hyps(1) get.prems kb_has_input_iff by blast
  then obtain x xs where xs: "kb_contents s = x # xs" by (cases "kb_contents s") auto
  then have len: "kb_count s = Suc (length xs)" using kb_length [of s] by simp
  note pop = kb.pop_inv [OF get.prems xs] kb.pop_item [OF get.prems xs] kb.pop_items [OF get.prems xs]
  then have "kb_count (snd (kb_buffer_take s)) = length xs" using kb_length [of "snd (kb_buffer_take s)"] by simp
  then show ?case using get.IH [OF pop(1)] get.hyps(2) pop xs len by auto
qed


text \<open>The state in which the bytes \<open>scs\<close> are the answers of the data port, and the buffer is empty.\<close>

definition demo_keyboard :: "u8 list \<Rightarrow> keyboard" where
  "demo_keyboard scs =
     \<lparr>port_in = (\<lambda>p n. if p = KB_DATA_PORT \<and> n < length scs then scs ! n else 0),
      port_reads = (\<lambda>_. 0), hw_trace = [], mem8 = (\<lambda>_. 0),
      vga_buffer = (\<lambda>_. 0), cursor_x = 0, cursor_y = 0, timer_ticks = 0,
      shift_pressed = 0, ctrl_pressed = 0, alt_pressed = 0,
      kb_buffer = (\<lambda>_. CHR 0x00), kb_buffer_read = 0, kb_buffer_write = 0\<rparr>"

text \<open>Shift down, A, read, shift up, B: the run reads an A and leaves a b.\<close>

definition demo_keys :: "kb_event list" where
  "demo_keys = [Key 0x2A, Key 0x1E, Read CHR ''A'', Key 0xAA, Key 0x30]"

definition demo_final :: keyboard where
  "demo_final = keyboard_handler (keyboard_handler (snd (kb_buffer_take
     (keyboard_handler (keyboard_handler (demo_keyboard [0x2A, 0x1E, 0xAA, 0x30]))))))"

lemma demo_run: "kb_run (demo_keyboard [0x2A, 0x1E, 0xAA, 0x30]) demo_keys demo_final"
  unfolding demo_keys_def demo_final_def kb_run_simps by (intro conjI refl) code_simp+

theorem keyboard_run_text_witness:
  "kb_ok demo_final \<and> read_text demo_keys @ kb_contents demo_final = ''Ab''"
proof -
  have s: "kb_ok (demo_keyboard [0x2A, 0x1E, 0xAA, 0x30])" by code_simp
  have e: "kb_contents (demo_keyboard [0x2A, 0x1E, 0xAA, 0x30]) = []" by code_simp
  have t: "typed_text (shift_pressed (demo_keyboard [0x2A, 0x1E, 0xAA, 0x30]) \<noteq> 0) demo_keys = ''Ab''"
    by code_simp
  show ?thesis
    using keyboard_run_text [OF demo_run s] by (auto simp: e t)
qed

subsection \<open>The layout\<close>

text \<open>
  The keys of a US keyboard without shift, as runs of adjacent scancodes, and what shift makes of a
  character.
\<close>

definition us_rows :: "(nat \<times> string) list" where
  "us_rows =
     [(0x01, [CHR 0x1B]), (0x02, ''1234567890-='' @ [CHR 0x08, CHR 0x09]), (0x10, ''qwertyuiop[]'' @ [CHR 0x0A]),
      (0x1E, ''asdfghjkl;'' @ [CHR 0x27, CHR 0x60]), (0x2B, CHR 0x5C # ''zxcvbnm,./''),
      (0x37, ''*''), (0x39, '' ''), (0x4A, ''-''), (0x4E, ''+'')]"

definition us_keys :: "(nat \<times> char) list" where
  "us_keys = concat (map (\<lambda>(sc, cs). zip [sc..<sc + length cs] cs) us_rows)"

definition us_key :: "nat \<Rightarrow> char option" where
  "us_key = map_of us_keys"

definition us_shift :: "char \<Rightarrow> char" where
  "us_shift c =
     (case map_of (zip (''abcdefghijklmnopqrstuvwxyz1234567890-=[];,./'' @ [CHR 0x60, CHR 0x27, CHR 0x5C])
                       (''ABCDEFGHIJKLMNOPQRSTUVWXYZ!@#$%^&*()_+{}:<>?'' @ [CHR 0x7E, CHR 0x22, CHR 0x7C])) c of
        None \<Rightarrow> c
      | Some d \<Rightarrow> d)"

definition us_types :: "bool \<Rightarrow> u8 \<Rightarrow> string" where
  "us_types shifted sc =
     (case us_key (unat sc) of
        None \<Rightarrow> []
      | Some c \<Rightarrow> if \<not> shifted then [c] else if sc = 0x4A \<or> sc = 0x4E then [] else [us_shift c])"

text \<open>The two tables are this layout.\<close>

lemma table_plain: "keyboard_us = map (\<lambda>k. case us_key k of None \<Rightarrow> CHR 0x00 | Some c \<Rightarrow> c) [0..<128]"
  by code_simp

lemma table_shifted:
  "keyboard_us_shifted = map (\<lambda>k. if k = 0x4A \<or> k = 0x4E then CHR 0x00
     else case us_key k of None \<Rightarrow> CHR 0x00 | Some c \<Rightarrow> us_shift c) [0..<128]"
  by code_simp

lemma us_key_Some:
  assumes "us_key k = Some c"
  shows "k < 128" "k \<noteq> 0x1D" "k \<noteq> 0x2A" "k \<noteq> 0x36" "k \<noteq> 0x38" "c \<noteq> CHR 0x00" "us_shift c \<noteq> CHR 0x00"
proof -
  have "list_all (\<lambda>(k, c). k < 128 \<and> k \<notin> {0x1D, 0x2A, 0x36, 0x38} \<and> c \<noteq> CHR 0x00 \<and> us_shift c \<noteq> CHR 0x00) us_keys"
    by code_simp
  moreover have "(k, c) \<in> set us_keys" using assms by (auto simp: us_key_def dest: map_of_SomeD)
  ultimately show "k < 128" "k \<noteq> 0x1D" "k \<noteq> 0x2A" "k \<noteq> 0x36" "k \<noteq> 0x38" "c \<noteq> CHR 0x00" "us_shift c \<noteq> CHR 0x00"
    by (auto simp: list_all_iff)
qed

lemma key_text_us: "key_text shifted sc = us_types shifted sc"
proof (cases "us_key (unat sc)")
  case None
  then show ?thesis by (auto simp: key_text_def us_types_def table_plain table_shifted)
next
  case (Some c)
  note k = us_key_Some [OF this]
  have "sc \<notin> {0x1D, 0x2A, 0x36, 0x38}" "\<not> 128 \<le> unat sc" using k(1-5) by auto
  moreover have "unat sc = 0x4A \<longleftrightarrow> sc = 0x4A" "unat sc = 0x4E \<longleftrightarrow> sc = 0x4E"
    by (auto simp: word_unat_eq_iff)
  ultimately show ?thesis
    using k(1,6,7) Some by (simp add: key_text_def us_types_def table_plain table_shifted)
qed

lemma ctrl_release: "(sc AND 0x80 \<noteq> 0 \<and> sc AND 0x7F = 0x1D) = (sc = (0x9D :: u8))"
  by (rule u8_all) code_simp

lemma alt_release: "(sc AND 0x80 \<noteq> 0 \<and> sc AND 0x7F = 0x38) = (sc = (0xB8 :: u8))"
  by (rule u8_all) code_simp

lemma modifiers_after:
  assumes "fst (inb KB_DATA_PORT s) = sc"
  shows "ctrl_pressed (keyboard_handler s) = (if sc = 0x1D then 1 else if sc = 0x9D then 0 else ctrl_pressed s)"
    "alt_pressed (keyboard_handler s) = (if sc = 0x38 then 1 else if sc = 0xB8 then 0 else alt_pressed s)"
proof -
  obtain u where u: "inb KB_DATA_PORT s = (sc, u)" using assms by (cases "inb KB_DATA_PORT s") simp
  then have same: "ctrl_pressed u = ctrl_pressed s" "alt_pressed u = alt_pressed s"
    by (auto simp: machine_defs Let_def)
  have add: "ctrl_pressed (kb_buffer_add c t) = ctrl_pressed t" "alt_pressed (kb_buffer_add c t) = alt_pressed t"
    for c and t :: "'a keyboard_scheme"
    by (simp_all add: kb_buffer_add_def Let_def)
  note codes = KEY_LSHIFT_def KEY_RSHIFT_def KEY_LCTRL_def KEY_LALT_def
  have press: "sc \<noteq> 0x9D" "sc \<noteq> 0xB8" if "sc AND 0x80 = 0" using that by auto
  have release: "sc \<noteq> 0x1D" "sc \<noteq> 0x38" if "sc AND 0x80 \<noteq> 0" using that by auto
  show "ctrl_pressed (keyboard_handler s) = (if sc = 0x1D then 1 else if sc = 0x9D then 0 else ctrl_pressed s)"
    "alt_pressed (keyboard_handler s) = (if sc = 0x38 then 1 else if sc = 0xB8 then 0 else alt_pressed s)"
    using press release ctrl_release [of sc] alt_release [of sc]
    by (auto simp: keyboard_handler_def u codes same add Let_def)
qed

text \<open>
  Property C40. What one key interrupt does, for every scancode in every state of the driver: a key
  types the character of the US layout, with shift held the one on its upper half, as long as one of
  the 255 places of the buffer is free; releases and keys without a character type nothing, and nor
  do the minus and plus of the keypad while shift is held. Each of the modifiers is down exactly
  from its press to its release; the two shift keys share one flag, which the release of either clears.
\<close>

theorem keyboard_handler_layout:
  assumes "kb_ok s" and "fst (inb KB_DATA_PORT s) = sc"
  shows "kb_ok (keyboard_handler s) \<and>
    kb_contents (keyboard_handler s) = take 255 (kb_contents s @
      (case us_key (unat sc) of
         None \<Rightarrow> []
       | Some c \<Rightarrow> if shift_pressed s = 0 then [c] else if sc = 0x4A \<or> sc = 0x4E then [] else [us_shift c])) \<and>
    (shift_pressed (keyboard_handler s) \<noteq> 0 \<longleftrightarrow>
       sc \<in> {0x2A, 0x36} \<or> sc \<notin> {0xAA, 0xB6} \<and> shift_pressed s \<noteq> 0) \<and>
    ctrl_pressed (keyboard_handler s) = (if sc = 0x1D then 1 else if sc = 0x9D then 0 else ctrl_pressed s) \<and>
    alt_pressed (keyboard_handler s) = (if sc = 0x38 then 1 else if sc = 0xB8 then 0 else alt_pressed s)"
  using keyboard_handler_cases(1,2) [OF assms] modifiers_after [OF assms(2)]
    keyboard_handler_cases(3) [OF assms, unfolded key_text_us us_types_def not_not]
  by (intro conjI) (auto simp: shift_after_def)

theorem keyboard_handler_layout_witness:
  "kb_contents (keyboard_handler (demo_keyboard [0x2B])) = [CHR 0x5C] \<and>
   kb_contents (keyboard_handler ((demo_keyboard [0x2B])\<lparr>shift_pressed := 1\<rparr>)) = ''|''"
proof -
  have k: "us_key 43 = Some (CHR 0x5C)" "us_shift (CHR 0x5C) = CHR ''|''" by code_simp+
  have s: "kb_ok (demo_keyboard [0x2B])" "kb_ok ((demo_keyboard [0x2B])\<lparr>shift_pressed := 1\<rparr>)"
    "fst (inb KB_DATA_PORT (demo_keyboard [0x2B])) = 0x2B"
    "fst (inb KB_DATA_PORT ((demo_keyboard [0x2B])\<lparr>shift_pressed := 1\<rparr>)) = 0x2B"
    "kb_contents (demo_keyboard [0x2B]) = []" "kb_contents ((demo_keyboard [0x2B])\<lparr>shift_pressed := 1\<rparr>) = []"
    "shift_pressed (demo_keyboard [0x2B]) = 0"
    by code_simp+
  show ?thesis
    using keyboard_handler_layout [OF s(1,3)] keyboard_handler_layout [OF s(2,4)] by (simp add: k s)
qed

subsection \<open>Waiting for a character\<close>

text \<open>
  Property C25. A caller that finds the buffer empty sleeps until a wake-up has delivered a
  character, and returns that character: if the first \<open>n\<close> wake-ups deliver nothing and the next
  one delivers \<open>c\<close>, \<open>keyboard_getchar\<close> returns \<open>c\<close> and leaves the buffer empty.
\<close>

theorem keyboard_getchar_waits:
  assumes "kb_ok s" and "kb_contents s = []"
    and "\<And>k t. kb_ok t \<Longrightarrow> kb_ok (env k t)"
    and "\<And>k t. k < n \<Longrightarrow> kb_ok t \<Longrightarrow> kb_contents t = [] \<Longrightarrow> kb_contents (env k t) = []"
    and "\<And>t. kb_ok t \<Longrightarrow> kb_contents t = [] \<Longrightarrow> kb_contents (env n t) = [c]"
  shows "\<exists>t. keyboard_getchar env s = Some (c, t) \<and> kb_ok t \<and> kb_contents t = []"
proof -
  have "\<exists>u. kb_wait env k s = Some u \<and> kb_ok u \<and> kb_contents u = [c]"
    if "k \<le> n" "kb_ok s" "kb_contents s = []" for k and s :: "'a keyboard_scheme"
    using that
  proof (induction "n - k" arbitrary: k s)
    case 0
    let ?t = "env n (emit Hlt s)"
    have "kb_ok ?t" "kb_contents ?t = [c]" by (simp_all add: assms(3,5) 0)
    moreover from this have "keyboard_has_input ?t" by (simp add: kb_has_input_iff)
    then have "kb_wait env (Suc n) ?t = Some ?t" by (subst kb_wait.simps) simp
    moreover have "k = n" "\<not> keyboard_has_input s" using 0 by (simp_all add: kb_has_input_iff)
    ultimately show ?case by (subst kb_wait.simps) simp
  next
    case (Suc m)
    let ?t = "env k (emit Hlt s)"
    have "kb_ok ?t" "kb_contents ?t = []" using Suc.hyps(2) by (simp_all add: assms(3,4) Suc.prems)
    moreover have "\<not> keyboard_has_input s" using Suc.prems by (simp add: kb_has_input_iff)
    ultimately show ?case
      using Suc.hyps(1) [of "Suc k" ?t] Suc.hyps(2) Suc.prems by (subst kb_wait.simps) simp
  qed
  from this [OF le0 assms(1,2)] obtain u where
    u: "kb_wait env 0 s = Some u" "kb_ok u" "kb_contents u = [c]" by blast
  then show ?thesis
    using kb.pop_item [OF u(2,3)] kb.pop_items [OF u(2,3)] kb.pop_inv [OF u(2,3)]
    by (cases "kb_buffer_take u") (simp add: keyboard_getchar_def)
qed

theorem keyboard_getchar_waits_witness:
  "\<exists>t. keyboard_getchar (\<lambda>k t. if k = 2 then kb_buffer_add CHR ''x'' t else t) (demo_keyboard []) =
     Some (CHR ''x'', t) \<and> kb_contents t = []"
proof -
  have s: "kb_ok (demo_keyboard [])" "kb_contents (demo_keyboard []) = []" by code_simp+
  let ?env = "\<lambda>k t. if k = 2 then kb_buffer_add CHR ''x'' t else t"
  have "\<exists>t. keyboard_getchar ?env (demo_keyboard []) = Some (CHR ''x'', t) \<and> kb_ok t \<and> kb_contents t = []"
    by (rule keyboard_getchar_waits [OF s, of ?env 2]) (simp_all add: kb.push_any kb.push_any_inv split: if_split)
  then show ?thesis by blast
qed

text \<open>A caller that finds a character does not sleep at all.\<close>

lemma keyboard_getchar_ready:
  assumes "kb_ok s" and "kb_contents s = x # xs"
  shows "\<exists>t. keyboard_getchar env s = Some (x, t) \<and> kb_ok t \<and> kb_contents t = xs"
proof -
  have "keyboard_has_input s" using assms by (simp add: kb_has_input_iff)
  then have "kb_wait env 0 s = Some s" by (subst kb_wait.simps) simp
  then show ?thesis
    using kb.pop_item [OF assms] kb.pop_items [OF assms] kb.pop_inv [OF assms]
    by (cases "kb_buffer_take s") (simp add: keyboard_getchar_def)
qed

subsection \<open>Initialisation\<close>

text \<open>The accesses of a drain that reads the data port \<open>n\<close> times.\<close>

lemma kb_drain_reads:
  assumes "\<And>k. k < n \<Longrightarrow> port_in s KB_STATUS_PORT (port_reads s KB_STATUS_PORT + k) AND 1 \<noteq> 0"
    and "port_in s KB_STATUS_PORT (port_reads s KB_STATUS_PORT + n) AND 1 = 0"
  shows "\<exists>t. kb_drain s = Some t \<and>
    t = s\<lparr>port_reads := port_reads t, hw_trace := hw_trace t\<rparr> \<and>
    port_reads t = (port_reads s)
      (KB_STATUS_PORT := port_reads s KB_STATUS_PORT + Suc n, KB_DATA_PORT := port_reads s KB_DATA_PORT + n)"
  using assms
proof (induction n arbitrary: s)
  case 0
  then show ?case
    by (subst kb_drain.simps)
      (simp add: inb_def emit_def Let_def KB_STATUS_OUTPUT_FULL_def KB_STATUS_PORT_def KB_DATA_PORT_def fun_eq_iff)
next
  case (Suc n)
  let ?u = "snd (inb KB_DATA_PORT (snd (inb KB_STATUS_PORT s)))"
  have "port_in s KB_STATUS_PORT (port_reads s KB_STATUS_PORT) AND 1 \<noteq> 0"
    using Suc.prems(1) [of 0] by simp
  then have step: "kb_drain s = kb_drain ?u"
    by (subst kb_drain.simps) (simp add: inb_def emit_def Let_def KB_STATUS_OUTPUT_FULL_def)
  have u: "port_in ?u = port_in s" "port_reads ?u = (port_reads s)
      (KB_STATUS_PORT := Suc (port_reads s KB_STATUS_PORT), KB_DATA_PORT := Suc (port_reads s KB_DATA_PORT))"
    by (simp_all add: inb_def emit_def Let_def KB_STATUS_PORT_def KB_DATA_PORT_def)
  have "\<exists>t. kb_drain ?u = Some t \<and> t = ?u\<lparr>port_reads := port_reads t, hw_trace := hw_trace t\<rparr> \<and>
    port_reads t = (port_reads ?u)
      (KB_STATUS_PORT := port_reads ?u KB_STATUS_PORT + Suc n, KB_DATA_PORT := port_reads ?u KB_DATA_PORT + n)"
    using Suc.prems(1) [of "Suc k" for k] Suc.prems(2)
    by (intro Suc.IH) (simp_all add: u, simp_all add: KB_STATUS_PORT_def KB_DATA_PORT_def)
  then show ?case
    unfolding step u
    by (auto simp: inb_def emit_def Let_def KB_STATUS_PORT_def KB_DATA_PORT_def fun_eq_iff)
qed

text \<open>
  If the controller stops signalling pending bytes, after the \<open>n\<close>-th, then
  \<open>keyboard_init\<close> returns, has read exactly those \<open>n\<close> bytes, and leaves an empty buffer.
\<close>

theorem keyboard_init_empties:
  assumes "\<And>k. k < n \<Longrightarrow> port_in s KB_STATUS_PORT (port_reads s KB_STATUS_PORT + k) AND 1 \<noteq> 0"
    and "port_in s KB_STATUS_PORT (port_reads s KB_STATUS_PORT + n) AND 1 = 0"
  shows "\<exists>t. keyboard_init s = Some t \<and> kb_ok t \<and> kb_contents t = [] \<and>
    port_reads t KB_DATA_PORT = port_reads s KB_DATA_PORT + n \<and> shift_pressed t = shift_pressed s"
proof -
  let ?s = "s\<lparr>kb_buffer_read := 0, kb_buffer_write := 0\<rparr>"
  obtain t where t: "kb_drain ?s = Some t"
    "t = ?s\<lparr>port_reads := port_reads t, hw_trace := hw_trace t\<rparr>"
    "port_reads t KB_DATA_PORT = port_reads s KB_DATA_PORT + n"
    using kb_drain_reads [of n ?s] assms by (auto simp: KB_STATUS_PORT_def KB_DATA_PORT_def)
  have "kb_ok t \<and> kb_contents t = [] \<and> shift_pressed t = shift_pressed s"
    by (subst (1 2 3) t(2)) (simp add: kb_ok_def kb_contents_def kb_count_def KB_BUFFER_SIZE_def)
  with t show ?thesis by (simp add: keyboard_init_def)
qed

theorem keyboard_init_empties_witness:
  "\<exists>t. keyboard_init (demo_keyboard []) = Some t \<and> kb_ok t \<and> kb_contents t = []"
  using keyboard_init_empties [of 0 "demo_keyboard []"]
  by (auto simp: demo_keyboard_def KB_STATUS_PORT_def KB_DATA_PORT_def)

end
