(* ===== verification/Idt.thy ===== *)
theory Idt
  imports Keyboard
begin

text \<open>
  The interrupt descriptor table (\<open>kernel/arch/x86_64/idt.c\<close>, \<open>idt.h\<close>): 256 gates, each holding a
  handler address in three pieces. The addresses the linker chooses (the table's, its
  descriptor's, the entry stubs' of \<open>isr.asm\<close>) are a record of link-time constants.
\<close>

record idt_entry_t =
  offset_low :: u16
  selector :: u16
  ist :: u8
  type_attr :: u8
  offset_mid :: u16
  offset_high :: u32
  zero :: u32

record idt_ptr_t =
  limit :: u16
  base :: u64

record kernel_image =
  idt_addr :: u64
  idtp_addr :: u64
  isr_addr :: "nat \<Rightarrow> u64"
  irq_addr :: "nat \<Rightarrow> u64"

definition IDT_ENTRIES :: nat where "IDT_ENTRIES = 256"
definition IDT_ENTRY_SIZE :: nat where "IDT_ENTRY_SIZE = 16"

record idt_state = keyboard +
  idt :: "u8 \<Rightarrow> idt_entry_t"
  idtp :: idt_ptr_t

definition idt_set_gate :: "u8 \<Rightarrow> u64 \<Rightarrow> u16 \<Rightarrow> u8 \<Rightarrow> 'a idt_state_scheme \<Rightarrow> 'a idt_state_scheme" where
  "idt_set_gate num handler sel flags s =
     (let e = idt s num;
          e = e\<lparr>offset_low := ucast (handler AND 0xFFFF)\<rparr>;
          e = e\<lparr>offset_mid := ucast (drop_bit 16 handler AND 0xFFFF)\<rparr>;
          e = e\<lparr>offset_high := ucast (drop_bit 32 handler AND 0xFFFFFFFF)\<rparr>;
          e = e\<lparr>selector := sel, ist := 0, type_attr := flags, zero := 0\<rparr>
      in s\<lparr>idt := (idt s)(num := e)\<rparr>)"

definition clear_gate :: "idt_entry_t \<Rightarrow> idt_entry_t" where
  "clear_gate e = e\<lparr>offset_low := 0, selector := 0, ist := 0, type_attr := 0,
     offset_mid := 0, offset_high := 0, zero := 0\<rparr>"

definition idt_init :: "kernel_image \<Rightarrow> 'a idt_state_scheme \<Rightarrow> 'a idt_state_scheme" where
  "idt_init img s =
     (let s = s\<lparr>idtp := \<lparr>limit = word_of_nat (IDT_ENTRY_SIZE * IDT_ENTRIES - 1), base = idt_addr img\<rparr>\<rparr>;
          s = for_int 0 IDT_ENTRIES (\<lambda>i s.
                s\<lparr>idt := (idt s)(word_of_nat i := clear_gate (idt s (word_of_nat i)))\<rparr>) s
      in emit (Lidt (idtp_addr img)) s)"

subsection \<open>What the processor reads from a gate\<close>

text \<open>The 64-bit entry point the processor puts together from the three offset fields.\<close>

definition gate_offset :: "idt_entry_t \<Rightarrow> u64" where
  "gate_offset e = push_bit 32 (ucast (offset_high e)) OR push_bit 16 (ucast (offset_mid e)) OR ucast (offset_low e)"

lemma gate_offset_pieces:
  "push_bit 32 (ucast (ucast (drop_bit 32 h AND 0xFFFFFFFF) :: u32)) OR
   push_bit 16 (ucast (ucast (drop_bit 16 h AND 0xFFFF) :: u16)) OR
   ucast (ucast (h AND 0xFFFF) :: u16) = (h :: u64)" (is "?l = h")
proof -
  have m: "(0xFFFFFFFF :: u64) = mask 32" "(0xFFFF :: u64) = mask 16"
    by (simp_all add: mask_eq_exp_minus_1)
  show ?thesis
  proof (rule bit_word_eqI)
    show "bit ?l n = bit h n" if "n < LENGTH(64)" for n
      using that by (cases "n < 32") (auto simp: m bit_or_iff bit_and_iff bit_push_bit_iff bit_drop_bit_eq bit_mask_iff bit_unsigned_iff)
  qed
qed

text \<open>
  The gate that \<open>idt_set_gate\<close> writes dispatches to exactly the handler it was
  given, with the given selector and flags, no stack switch and reserved bits 0; no other gate
  changes, and nothing else in the kernel does.
\<close>

theorem idt_set_gate_dispatches:
  "gate_offset (idt (idt_set_gate num handler sel flags s) num) = handler \<and>
   selector (idt (idt_set_gate num handler sel flags s) num) = sel \<and>
   type_attr (idt (idt_set_gate num handler sel flags s) num) = flags \<and>
   ist (idt (idt_set_gate num handler sel flags s) num) = 0 \<and>
   zero (idt (idt_set_gate num handler sel flags s) num) = 0 \<and>
   idt_set_gate num handler sel flags s =
     s\<lparr>idt := (idt s)(num := idt (idt_set_gate num handler sel flags s) num)\<rparr>"
  using gate_offset_pieces [of handler]
  by (simp add: idt_set_gate_def Let_def gate_offset_def)

lemma idt_set_gate_frame [frame, simp]:
  "hw_trace (idt_set_gate n h sel fl s) = hw_trace s"
  "port_in (idt_set_gate n h sel fl s) = port_in s"
  "port_reads (idt_set_gate n h sel fl s) = port_reads s"
  "idtp (idt_set_gate n h sel fl s) = idtp s"
  by (simp_all add: idt_set_gate_def Let_def)

text \<open>A loop that rewrites \<open>n\<close> consecutive gates from \<open>lo\<close> on.\<close>

lemma idt_fill:
  assumes "lo + n \<le> 256"
    and "\<And>i t. i < n \<Longrightarrow> idt (f i t) = (idt t)(word_of_nat (lo + i) := g i (idt t (word_of_nat (lo + i))))"
  shows "idt (for_int 0 n f s) v =
    (if lo \<le> unat v \<and> unat v < lo + n then g (unat v - lo) (idt s v) else idt s v)"
proof -
  let ?P = "\<lambda>m t. \<forall>v. idt t v =
    (if lo \<le> unat v \<and> unat v < lo + m then g (unat v - lo) (idt s v) else idt s v)"
  have "?P n (for_int 0 n f s)"
  proof (rule for_int_rule [where P = ?P])
    show "?P (Suc m) (f m t)" if "m < n" "?P m t" for m t
    proof
      fix v
      have un: "unat (word_of_nat (lo + m) :: u8) = lo + m"
        using that(1) assms(1) by (simp add: unat_of_nat del: of_nat_add)
      show "idt (f m t) v = (if lo \<le> unat v \<and> unat v < lo + Suc m then g (unat v - lo) (idt s v) else idt s v)"
      proof (cases "v = word_of_nat (lo + m)")
        case True
        then show ?thesis using that un by (simp add: assms(2))
      next
        case False
        then have "unat v \<noteq> lo + m" using un by (metis word_unat_eq_iff)
        then show ?thesis using that False by (auto simp: assms(2))
      qed
    qed
  qed auto
  then show ?thesis by blast
qed

definition empty_gate :: idt_entry_t where
  "empty_gate = \<lparr>offset_low = 0, selector = 0, ist = 0, type_attr = 0,
     offset_mid = 0, offset_high = 0, zero = 0\<rparr>"

lemma clear_gate_empty [simp]: "clear_gate e = empty_gate"
  by (simp add: clear_gate_def empty_gate_def)

lemma idt_init_gates [simp]: "idt (idt_init img s) v = empty_gate"
proof -
  have "unat v < 256" using unsigned_less [of v, where 'a = nat] by simp
  then show ?thesis
    unfolding idt_init_def Let_def IDT_ENTRIES_def
    by (simp add: emit_def idt_fill [where lo = 0 and g = "\<lambda>i. clear_gate"])
qed

text \<open>The descriptor that \<open>lidt\<close> loads covers exactly the 256 gates of 16 bytes.\<close>

lemma idt_init_descriptor:
  "idtp (idt_init img s) = \<lparr>limit = 4095, base = idt_addr img\<rparr>"
  "hw_trace (idt_init img s) = hw_trace s @ [Lidt (idtp_addr img)]"
  by (simp_all add: idt_init_def Let_def emit_def IDT_ENTRIES_def IDT_ENTRY_SIZE_def
      for_int_frame [where g = idtp] for_int_frame [where g = hw_trace])

end
