(* ===== verification/Interrupts.thy ===== *)
theory Interrupts
  imports Idt
begin

text \<open>
  Exceptions, the interrupt controllers and IRQ dispatch (\<open>kernel/arch/x86_64/interrupts.c\<close>).
\<close>

definition PIC1_COMMAND :: u16 where "PIC1_COMMAND = 0x20"
definition PIC1_DATA :: u16 where "PIC1_DATA = 0x21"
definition PIC2_COMMAND :: u16 where "PIC2_COMMAND = 0xA0"
definition PIC2_DATA :: u16 where "PIC2_DATA = 0xA1"
definition PIC_EOI :: u8 where "PIC_EOI = 0x20"

lemmas pic_ports = PIC1_COMMAND_def PIC1_DATA_def PIC2_COMMAND_def PIC2_DATA_def PIC_EOI_def

definition exception_messages :: "string list" where
  "exception_messages =
     [''Division By Zero'', ''Debug'', ''Non Maskable Interrupt'', ''Breakpoint'',
      ''Into Detected Overflow'', ''Out of Bounds'', ''Invalid Opcode'', ''No Coprocessor'',
      ''Double Fault'', ''Coprocessor Segment Overrun'', ''Bad TSS'', ''Segment Not Present'',
      ''Stack Fault'', ''General Protection Fault'', ''Page Fault'', ''Unknown Interrupt'',
      ''Coprocessor Fault'', ''Alignment Check'', ''Machine Check''] @ replicate 13 ''Reserved''"

definition pic_remap :: "u8 \<Rightarrow> u8 \<Rightarrow> 'a machine_scheme \<Rightarrow> 'a machine_scheme" where
  "pic_remap offset1 offset2 s =
     (let (a1, s) = inb PIC1_DATA s;
          (a2, s) = inb PIC2_DATA s;
          s = outb PIC1_COMMAND 0x11 s;
          s = outb PIC2_COMMAND 0x11 s;
          s = outb PIC1_DATA offset1 s;
          s = outb PIC2_DATA offset2 s;
          s = outb PIC1_DATA 0x04 s;
          s = outb PIC2_DATA 0x02 s;
          s = outb PIC1_DATA 0x01 s;
          s = outb PIC2_DATA 0x01 s;
          s = outb PIC1_DATA a1 s
      in outb PIC2_DATA a2 s)"

definition pic_send_eoi :: "u8 \<Rightarrow> 'a machine_scheme \<Rightarrow> 'a machine_scheme" where
  "pic_send_eoi irq s =
     (let s = (if 8 \<le> irq then outb PIC2_COMMAND PIC_EOI s else s)
      in outb PIC1_COMMAND PIC_EOI s)"

text \<open>
  What code does that may halt the processor for good is a value of its own: it returns, or it
  halts in a state and goes on from there. A run that halts again and again and never returns is an
  infinite value. \<open>and_then\<close> is what the caller does after a return, and \<open>halts k\<close> the state in which
  the processor halts for the \<open>k\<close>-th time, counted from 0.
\<close>

codatatype 's outcome =
  is_returned: Returned (returned: 's)
| Halted (halted: 's) (resumed: "'s outcome")

primcorec and_then :: "'s outcome \<Rightarrow> ('s \<Rightarrow> 's outcome) \<Rightarrow> 's outcome" where
  "and_then r f = (case r of Returned s \<Rightarrow> f s | Halted s r \<Rightarrow> Halted s (and_then r f))"

primrec halts :: "nat \<Rightarrow> 's outcome \<Rightarrow> 's option" where
  "halts 0 r = (case r of Returned s \<Rightarrow> None | Halted s r \<Rightarrow> Some s)"
| "halts (Suc k) r = (case r of Returned s \<Rightarrow> None | Halted s r \<Rightarrow> halts k r)"

text \<open>\<open>for (;;) hlt\<close>, with interrupts off.\<close>

primcorec halt_forever :: "'a machine_scheme \<Rightarrow> 'a machine_scheme outcome" where
  "halt_forever s = Halted (emit Hlt s) (halt_forever (emit Hlt s))"

definition isr_report :: "u64 \<Rightarrow> 'a vga_scheme \<Rightarrow> 'a vga_scheme" where
  "isr_report isr_number s =
     (let s = vga_print ''Exception: '' VGA_COLOR_LIGHT_RED s;
          s = (if isr_number < 32
               then vga_print (exception_messages ! unat isr_number) VGA_COLOR_LIGHT_RED s
               else vga_print ''Unknown'' VGA_COLOR_LIGHT_RED s)
      in vga_print (line '''') VGA_COLOR_WHITE s)"

definition isr_handler :: "u64 \<Rightarrow> 'a vga_scheme \<Rightarrow> 'a vga_scheme outcome" where
  "isr_handler isr_number s = halt_forever (isr_report isr_number s)"

definition irq_handler :: "u64 \<Rightarrow> 'a keyboard_scheme \<Rightarrow> 'a keyboard_scheme" where
  "irq_handler irq_number s =
     (let s = (if irq_number = 0 then pit_handler s
               else if irq_number = 1 then keyboard_handler s
               else s)
      in pic_send_eoi (ucast irq_number) s)"

definition interrupts_init :: "kernel_image \<Rightarrow> 'a idt_state_scheme \<Rightarrow> 'a idt_state_scheme" where
  "interrupts_init img s =
     (let s = idt_init img s;
          s = pic_remap 0x20 0x28 s;
          s = for_int 0 32 (\<lambda>n. idt_set_gate (word_of_nat n) (isr_addr img n) 0x08 0x8E) s;
          s = for_int 0 16 (\<lambda>n. idt_set_gate (word_of_nat (32 + n)) (irq_addr img n) 0x08 0x8E) s
      in enable_interrupts s)"

subsection \<open>Exceptions\<close>

lemma exception_messages_length [simp]: "length exception_messages = 32"
  by (simp add: exception_messages_def)

lemma halts_forever: "halts k (halt_forever s) = Some ((emit Hlt ^^ Suc k) s)"
proof (induction k arbitrary: s)
  case 0
  show ?case by (subst halt_forever.code) simp
next
  case (Suc k)
  have "halts (Suc k) (halt_forever s) = halts k (halt_forever (emit Hlt s))"
    by (subst halt_forever.code) simp
  then show ?case by (simp only: Suc funpow_Suc_right o_apply)
qed

lemma halt_forever_continues [simp]: "and_then (halt_forever s) f = halt_forever s"
proof (coinduction arbitrary: s)
  case (Eq_outcome s)
  have "halt_forever s = Halted (emit Hlt s) (halt_forever (emit Hlt s))" by (rule halt_forever.code)
  then show ?case by auto
qed

text \<open>
  Property C29. An exception is reported and is fatal. However often the processor halts in the
  handler, it halts once more, so the handler never returns to the interrupted code; and at every
  halt the screen is the interrupted one with a line printed on it that holds the exception's name,
  or the bare word Unknown for a number past the table, which is indexed only inside its 32 entries.
  Nothing but the screen differs from the interrupted state, and the cursor stays on it.
\<close>

theorem isr_handler_reports_and_halts:
  "\<exists>t. t = vga_print (line '''') VGA_COLOR_WHITE (vga_print
      (''Exception: '' @ (if unat n < length exception_messages then exception_messages ! unat n else ''Unknown''))
      VGA_COLOR_LIGHT_RED s) \<and>
    (\<forall>k. halts k (isr_handler n s) = Some ((emit Hlt ^^ Suc k) t)) \<and>
    vga_frame s t \<and> (vga_ok s \<longrightarrow> vga_ok t)"
proof -
  have "vga_print (''Exception: '' @ m) c s = vga_print m c (vga_print ''Exception: '' c s)" for m c
    by (rule vga_print_append)
  then have "isr_report n s = vga_print (line '''') VGA_COLOR_WHITE (vga_print
      (''Exception: '' @ (if unat n < length exception_messages then exception_messages ! unat n else ''Unknown''))
      VGA_COLOR_LIGHT_RED s)"
    by (simp add: isr_report_def Let_def word_less_nat_alt del: append_Cons)
  then show ?thesis
    unfolding isr_handler_def halts_forever by (simp add: vga_print_ok del: append_Cons)
qed

theorem isr_handler_reports_and_halts_witness:
  "halts 2 (isr_handler 14 demo_vga) = Some (emit Hlt (emit Hlt (emit Hlt
     (vga_print (line '''') VGA_COLOR_WHITE (vga_print ''Exception: Page Fault'' VGA_COLOR_LIGHT_RED demo_vga)))))"
proof -
  have "unat (14 :: u64) < length exception_messages" "exception_messages ! unat (14 :: u64) = ''Page Fault''"
    by code_simp+
  then show ?thesis
    using isr_handler_reports_and_halts [of 14 demo_vga] by (auto simp: numeral_2_eq_2)
qed

subsection \<open>Port traffic\<close>

text \<open>The bytes written to one port, in order.\<close>

definition writes_to :: "u16 \<Rightarrow> hw_event list \<Rightarrow> u8 list" where
  "writes_to port tr = concat (map (\<lambda>e. case e of Out p v \<Rightarrow> if p = port then [v] else [] | _ \<Rightarrow> []) tr)"

lemma writes_to_append [simp]: "writes_to p (a @ b) = writes_to p a @ writes_to p b"
  by (simp add: writes_to_def)

text \<open>
  Remapping sends each controller the four-step initialisation sequence in order
  (command 0x11; vector offset, cascade wiring, 8086 mode) and then the mask that was read from
  it beforehand, so the set of enabled lines is what it was.
\<close>

theorem pic_remap_sequence:
  "\<exists>new. hw_trace (pic_remap offset1 offset2 s) = hw_trace s @ new \<and>
     writes_to PIC1_COMMAND new = [0x11] \<and> writes_to PIC2_COMMAND new = [0x11] \<and>
     writes_to PIC1_DATA new = [offset1, 0x04, 0x01, port_in s PIC1_DATA (port_reads s PIC1_DATA)] \<and>
     writes_to PIC2_DATA new = [offset2, 0x02, 0x01, port_in s PIC2_DATA (port_reads s PIC2_DATA)] \<and>
     take 4 new = [In PIC1_DATA (port_in s PIC1_DATA (port_reads s PIC1_DATA)),
       In PIC2_DATA (port_in s PIC2_DATA (port_reads s PIC2_DATA)), Out PIC1_COMMAND 0x11, Out PIC2_COMMAND 0x11]"
  by (rule exI, intro conjI, simp add: pic_remap_def machine_defs Let_def pic_ports)
    (simp_all add: writes_to_def pic_ports)

subsection \<open>Setting up\<close>

lemma pic_remap_frame [frame, simp]:
  "idt (pic_remap a b s) = idt s" "idtp (pic_remap a b s) = idtp s"
  by (simp_all add: pic_remap_def machine_defs Let_def)

lemma set_gates_trace [simp]:
  "hw_trace (for_int 0 n (\<lambda>n. idt_set_gate (num n) (h n) sel fl) s) = hw_trace s"
  by (rule for_int_frame) simp

lemma set_gates_idtp [simp]:
  "idtp (for_int 0 n (\<lambda>n. idt_set_gate (num n) (h n) sel fl) s) = idtp s"
  by (rule for_int_frame) simp

definition interrupt_gate :: "u64 \<Rightarrow> idt_entry_t" where
  "interrupt_gate h = \<lparr>offset_low = ucast (h AND 0xFFFF), selector = 0x08, ist = 0, type_attr = 0x8E,
     offset_mid = ucast (drop_bit 16 h AND 0xFFFF), offset_high = ucast (drop_bit 32 h AND 0xFFFFFFFF), zero = 0\<rparr>"

lemma gate_offset_interrupt_gate [simp]: "gate_offset (interrupt_gate h) = h"
  using gate_offset_pieces [of h] by (simp add: gate_offset_def interrupt_gate_def)

lemma idt_set_gate_idt: "idt (idt_set_gate num h 0x08 0x8E s) = (idt s)(num := interrupt_gate h)"
  by (cases "idt s num") (simp add: idt_set_gate_def Let_def interrupt_gate_def)

lemma set_gates_idt:
  assumes "lo + n \<le> 256"
  shows "idt (for_int 0 n (\<lambda>i. idt_set_gate (word_of_nat (lo + i)) (h i) 0x08 0x8E) s) v =
    (if lo \<le> unat v \<and> unat v < lo + n then interrupt_gate (h (unat v - lo)) else idt s v)"
  by (rule idt_fill [OF assms, where g = "\<lambda>i e. interrupt_gate (h i)"])
    (rule idt_set_gate_idt)

text \<open>
  Property C18. After \<open>interrupts_init\<close> vectors 0 to 31 enter the exception stubs, 32 to 47 the
  IRQ stubs, all as present ring-0 interrupt gates on the kernel code selector; every other
  vector is absent. The loaded descriptor covers the table, the controllers deliver their lines
  at 0x20 and 0x28, and interrupts are enabled only as the very last step.
\<close>

theorem interrupts_init_table:
  "(\<forall>v. idt (interrupts_init img s) v =
      (if unat v < 32 then interrupt_gate (isr_addr img (unat v))
       else if unat v < 48 then interrupt_gate (irq_addr img (unat v - 32)) else empty_gate)) \<and>
   idtp (interrupts_init img s) = \<lparr>limit = 4095, base = idt_addr img\<rparr> \<and>
   (\<exists>mid. hw_trace (interrupts_init img s) = hw_trace s @ [Lidt (idtp_addr img)] @ mid @ [Sti] \<and>
      Sti \<notin> set mid \<and> hd (writes_to PIC1_DATA mid) = 0x20 \<and> hd (writes_to PIC2_DATA mid) = 0x28)"
proof (intro conjI allI)
  fix v
  let ?exc = "for_int 0 32 (\<lambda>n. idt_set_gate (word_of_nat n) (isr_addr img n) 0x08 0x8E)
    (pic_remap 0x20 0x28 (idt_init img s))"
  have exc: "idt ?exc v = (if unat v < 32 then interrupt_gate (isr_addr img (unat v)) else empty_gate)"
    using set_gates_idt [of 0 32 "isr_addr img" "pic_remap 0x20 0x28 (idt_init img s)" v] by simp
  have "idt (interrupts_init img s) v = (if 32 \<le> unat v \<and> unat v < 48
      then interrupt_gate (irq_addr img (unat v - 32)) else idt ?exc v)"
    using set_gates_idt [of 32 16 "irq_addr img" ?exc v]
    by (simp add: interrupts_init_def Let_def enable_interrupts_def emit_def del: of_nat_add)
  then show "idt (interrupts_init img s) v =
      (if unat v < 32 then interrupt_gate (isr_addr img (unat v))
       else if unat v < 48 then interrupt_gate (irq_addr img (unat v - 32)) else empty_gate)"
    using exc by auto
next
  show "idtp (interrupts_init img s) = \<lparr>limit = 4095, base = idt_addr img\<rparr>"
    by (simp add: interrupts_init_def Let_def enable_interrupts_def emit_def idt_init_descriptor)
next
  show "\<exists>mid. hw_trace (interrupts_init img s) = hw_trace s @ [Lidt (idtp_addr img)] @ mid @ [Sti] \<and>
      Sti \<notin> set mid \<and> hd (writes_to PIC1_DATA mid) = 0x20 \<and> hd (writes_to PIC2_DATA mid) = 0x28"
    by (rule exI, intro conjI, simp add: interrupts_init_def Let_def enable_interrupts_def emit_def
        idt_init_descriptor pic_remap_def outb_def inb_def pic_ports)
      (simp_all add: writes_to_def pic_ports)
qed

subsection \<open>Dispatch\<close>

lemma pic_send_eoi_eq:
  "pic_send_eoi irq s = s\<lparr>hw_trace := hw_trace s @
     (if 8 \<le> irq then [Out PIC2_COMMAND PIC_EOI] else []) @ [Out PIC1_COMMAND PIC_EOI]\<rparr>"
  by (simp add: pic_send_eoi_def machine_defs)

text \<open>
  Property C28. On lines 0 to 15 the handler ends with the acknowledgements, to the second
  controller exactly for lines 8 to 15 and to the first always and last. Line 0 counts one tick
  and touches no keyboard state, line 1 runs the keyboard and counts no tick, the others do
  nothing else.
\<close>

theorem irq_handler_dispatch:
  assumes "irq_number < 16"
  shows "\<exists>s'. irq_handler irq_number s = s'\<lparr>hw_trace := hw_trace s' @
       (if 8 \<le> irq_number then [Out PIC2_COMMAND PIC_EOI] else []) @ [Out PIC1_COMMAND PIC_EOI]\<rparr> \<and>
     s' = (if irq_number = 1 then keyboard_handler s else s\<lparr>timer_ticks := timer_ticks s'\<rparr>) \<and>
     timer_ticks s' = timer_ticks s + (if irq_number = 0 then 1 else 0)"
proof -
  have "unat irq_number < 16" using assms by (simp add: word_less_nat_alt)
  then have "(8 \<le> (ucast irq_number :: u8)) = (8 \<le> irq_number)"
    by (simp add: word_le_nat_alt unsigned_ucast_eq take_bit_eq_mod)
  moreover have "timer_ticks (keyboard_handler s) = timer_ticks s"
    by (rule keyboard_handler_ticks)
  ultimately show ?thesis
    by (intro exI [of _ "if irq_number = 0 then pit_handler s else if irq_number = 1 then keyboard_handler s else s"])
      (simp add: irq_handler_def Let_def pic_send_eoi_eq pit_handler_def)
qed

theorem irq_handler_dispatch_witness:
  "hw_trace (irq_handler 12 (demo_keyboard [])) = [Out 0xA0 0x20, Out 0x20 0x20]"
  using irq_handler_dispatch [of 12 "demo_keyboard []"]
  by (auto simp: pic_ports demo_keyboard_def)

end
