(* ===== verification/Multiboot2.thy ===== *)
theory Multiboot2
  imports Numfmt Interrupts "HOL-Library.Monad_Syntax"
begin

text \<open>
  The Multiboot2 information the boot loader leaves in memory (\<open>kernel/boot/multiboot2.c\<close>,
  \<open>multiboot2.h\<close>): little-endian loads from the byte memory, the walk over the tags, the
  three saved tag pointers. The walks follow sizes read from memory and may not end, so they
  are partial: \<open>None\<close> is a run that never returns.
\<close>

subsection \<open>Loads from memory\<close>

definition load_le :: "nat \<Rightarrow> (u64 \<Rightarrow> u8) \<Rightarrow> u64 \<Rightarrow> 'w::len word" where
  "load_le n m a = (\<Sum>k\<leftarrow>[0..<n]. push_bit (8 * k) (ucast (m (a + word_of_nat k))))"

definition load32 :: "(u64 \<Rightarrow> u8) \<Rightarrow> u64 \<Rightarrow> u32" where
  "load32 m a = load_le 4 m a"

definition load64 :: "(u64 \<Rightarrow> u8) \<Rightarrow> u64 \<Rightarrow> u64" where
  "load64 m a = load_le 8 m a"

partial_function (option) mem_cstr :: "(u64 \<Rightarrow> u8) \<Rightarrow> u64 \<Rightarrow> string option" where
  "mem_cstr m a =
     (if m a = 0 then Some []
      else do { cs \<leftarrow> mem_cstr m (a + 1); Some (char_of (unat (m a)) # cs) })"

subsection \<open>The layout of the tags\<close>

definition MULTIBOOT2_BOOTLOADER_MAGIC :: u32 where "MULTIBOOT2_BOOTLOADER_MAGIC = 0x36d76289"

definition MULTIBOOT_TAG_TYPE_END :: u32 where "MULTIBOOT_TAG_TYPE_END = 0"
definition MULTIBOOT_TAG_TYPE_CMDLINE :: u32 where "MULTIBOOT_TAG_TYPE_CMDLINE = 1"
definition MULTIBOOT_TAG_TYPE_BOOT_LOADER_NAME :: u32 where "MULTIBOOT_TAG_TYPE_BOOT_LOADER_NAME = 2"
definition MULTIBOOT_TAG_TYPE_BASIC_MEMINFO :: u32 where "MULTIBOOT_TAG_TYPE_BASIC_MEMINFO = 4"
definition MULTIBOOT_TAG_TYPE_MMAP :: u32 where "MULTIBOOT_TAG_TYPE_MMAP = 6"

lemmas tag_types = MULTIBOOT_TAG_TYPE_END_def MULTIBOOT_TAG_TYPE_CMDLINE_def
  MULTIBOOT_TAG_TYPE_BOOT_LOADER_NAME_def MULTIBOOT_TAG_TYPE_BASIC_MEMINFO_def
  MULTIBOOT_TAG_TYPE_MMAP_def

definition MULTIBOOT_MEMORY_AVAILABLE :: u32 where "MULTIBOOT_MEMORY_AVAILABLE = 1"
definition MULTIBOOT_MEMORY_RESERVED :: u32 where "MULTIBOOT_MEMORY_RESERVED = 2"
definition MULTIBOOT_MEMORY_ACPI_RECLAIMABLE :: u32 where "MULTIBOOT_MEMORY_ACPI_RECLAIMABLE = 3"
definition MULTIBOOT_MEMORY_NVS :: u32 where "MULTIBOOT_MEMORY_NVS = 4"
definition MULTIBOOT_MEMORY_BADRAM :: u32 where "MULTIBOOT_MEMORY_BADRAM = 5"

definition tag_type :: "(u64 \<Rightarrow> u8) \<Rightarrow> u64 \<Rightarrow> u32" where "tag_type m tag = load32 m tag"
definition tag_size :: "(u64 \<Rightarrow> u8) \<Rightarrow> u64 \<Rightarrow> u32" where "tag_size m tag = load32 m (tag + 4)"

definition meminfo_mem_lower :: "(u64 \<Rightarrow> u8) \<Rightarrow> u64 \<Rightarrow> u32" where
  "meminfo_mem_lower m tag = load32 m (tag + 8)"
definition meminfo_mem_upper :: "(u64 \<Rightarrow> u8) \<Rightarrow> u64 \<Rightarrow> u32" where
  "meminfo_mem_upper m tag = load32 m (tag + 12)"

definition mmap_entry_size :: "(u64 \<Rightarrow> u8) \<Rightarrow> u64 \<Rightarrow> u32" where
  "mmap_entry_size m tag = load32 m (tag + 8)"
definition mmap_entries :: "u64 \<Rightarrow> u64" where "mmap_entries tag = tag + 16"

definition entry_addr :: "(u64 \<Rightarrow> u8) \<Rightarrow> u64 \<Rightarrow> u64" where "entry_addr m e = load64 m e"
definition entry_len :: "(u64 \<Rightarrow> u8) \<Rightarrow> u64 \<Rightarrow> u64" where "entry_len m e = load64 m (e + 8)"
definition entry_type :: "(u64 \<Rightarrow> u8) \<Rightarrow> u64 \<Rightarrow> u32" where "entry_type m e = load32 m (e + 16)"

subsection \<open>State and operations\<close>

record multiboot = idt_state +
  mmap_tag :: u64
  meminfo_tag :: u64
  bootloader_tag :: u64

definition print_dec :: "u64 \<Rightarrow> vga_color_t \<Rightarrow> 'a vga_scheme \<Rightarrow> 'a vga_scheme" where
  "print_dec n color s = vga_print (c_str 32 (uint64_to_str n fresh_array)) color s"

definition mb_print_type :: "u32 \<Rightarrow> 'a vga_scheme \<Rightarrow> 'a vga_scheme" where
  "mb_print_type t s =
     (if t = MULTIBOOT_MEMORY_AVAILABLE then vga_print ''Available'' VGA_COLOR_LIGHT_GREEN s
      else if t = MULTIBOOT_MEMORY_RESERVED then vga_print ''Reserved'' VGA_COLOR_LIGHT_RED s
      else if t = MULTIBOOT_MEMORY_ACPI_RECLAIMABLE then vga_print ''ACPI Reclaimable'' VGA_COLOR_BROWN s
      else if t = MULTIBOOT_MEMORY_NVS then vga_print ''ACPI NVS'' VGA_COLOR_BROWN s
      else if t = MULTIBOOT_MEMORY_BADRAM then vga_print ''Bad RAM'' VGA_COLOR_RED s
      else vga_print ''Unknown'' VGA_COLOR_LIGHT_GREY s)"

definition mb_print_entry :: "u64 \<Rightarrow> 'a vga_scheme \<Rightarrow> 'a vga_scheme" where
  "mb_print_entry e s =
     (let m = mem8 s;
          s = vga_print ''      0x'' VGA_COLOR_WHITE s;
          s = print_dec (entry_addr m e) VGA_COLOR_LIGHT_CYAN s;
          s = vga_print '' - 0x'' VGA_COLOR_WHITE s;
          s = print_dec (entry_addr m e + entry_len m e) VGA_COLOR_LIGHT_CYAN s;
          s = vga_print '' ('' VGA_COLOR_WHITE s;
          s = print_dec (entry_len m e div 1024) VGA_COLOR_LIGHT_CYAN s;
          s = vga_print '' KB) - '' VGA_COLOR_WHITE s;
          s = mb_print_type (entry_type m e) s
      in vga_print (line '''') VGA_COLOR_WHITE s)"

partial_function (option) mb_mmap_loop :: "u64 \<Rightarrow> u64 \<Rightarrow> 'a vga_scheme \<Rightarrow> 'a vga_scheme option" where
  "mb_mmap_loop tag e s =
     (if e < tag + ucast (tag_size (mem8 s) tag)
      then mb_mmap_loop tag (e + ucast (mmap_entry_size (mem8 s) tag)) (mb_print_entry e s)
      else Some s)"

definition mb_tag :: "u64 \<Rightarrow> 'a multiboot_scheme \<Rightarrow> 'a multiboot_scheme option" where
  "mb_tag tag s =
     (let t = tag_type (mem8 s) tag in
      if t = MULTIBOOT_TAG_TYPE_CMDLINE then Some s
      else if t = MULTIBOOT_TAG_TYPE_BOOT_LOADER_NAME then
        (let s = s\<lparr>bootloader_tag := tag\<rparr>;
             s = vga_print ''    Bootloader: '' VGA_COLOR_WHITE s
         in do {
           name \<leftarrow> mem_cstr (mem8 s) (bootloader_tag s + 8);
           Some (vga_print (line '''') VGA_COLOR_WHITE (vga_print name VGA_COLOR_LIGHT_CYAN s))
         })
      else if t = MULTIBOOT_TAG_TYPE_BASIC_MEMINFO then
        (let s = s\<lparr>meminfo_tag := tag\<rparr>;
             s = vga_print ''    Lower memory: '' VGA_COLOR_WHITE s;
             s = print_dec (ucast (meminfo_mem_lower (mem8 s) tag)) VGA_COLOR_LIGHT_CYAN s;
             s = vga_print (line '' KB'') VGA_COLOR_WHITE s;
             s = vga_print ''    Upper memory: '' VGA_COLOR_WHITE s;
             s = print_dec (ucast (meminfo_mem_upper (mem8 s) tag)) VGA_COLOR_LIGHT_CYAN s
         in Some (vga_print (line '' KB'') VGA_COLOR_WHITE s))
      else if t = MULTIBOOT_TAG_TYPE_MMAP then
        (let s = s\<lparr>mmap_tag := tag\<rparr>;
             s = vga_print (line ''    Memory map found'') VGA_COLOR_WHITE s
         in mb_mmap_loop tag (mmap_entries (mmap_tag s)) s)
      else Some s)"

text \<open>The advance: the size rounded up to 8 in 32-bit arithmetic, then added to the pointer.\<close>

definition tag_next :: "(u64 \<Rightarrow> u8) \<Rightarrow> u64 \<Rightarrow> u64" where
  "tag_next m tag = tag + ucast ((tag_size m tag + 7) AND NOT 7)"

partial_function (option) mb_tag_loop :: "u64 \<Rightarrow> 'a multiboot_scheme \<Rightarrow> 'a multiboot_scheme option" where
  "mb_tag_loop tag s =
     (if tag_type (mem8 s) tag \<noteq> MULTIBOOT_TAG_TYPE_END
      then do { s \<leftarrow> mb_tag tag s; mb_tag_loop (tag_next (mem8 s) tag) s }
      else Some s)"

definition multiboot2_parse :: "u32 \<Rightarrow> u64 \<Rightarrow> 'a multiboot_scheme \<Rightarrow> 'a multiboot_scheme option" where
  "multiboot2_parse magic addr s =
     (if magic \<noteq> MULTIBOOT2_BOOTLOADER_MAGIC
      then Some (vga_print (line ''ERROR: Invalid multiboot2 magic!'') VGA_COLOR_LIGHT_RED s)
      else do {
        s \<leftarrow> mb_tag_loop (addr + 8)
               (vga_print (line ''[*] Parsing multiboot2 info...'') VGA_COLOR_BROWN s);
        Some (vga_print (line ''[OK] Multiboot2 info parsed!'') VGA_COLOR_LIGHT_GREEN s)
      })"

definition multiboot2_get_mmap :: "'a multiboot_scheme \<Rightarrow> u64" where
  "multiboot2_get_mmap s = mmap_tag s"

definition multiboot2_get_basic_meminfo :: "'a multiboot_scheme \<Rightarrow> u64" where
  "multiboot2_get_basic_meminfo s = meminfo_tag s"

text \<open>The name is a pointer into the tag, or the literal.\<close>

datatype name_ptr = Mem_string u64 | Literal string

definition multiboot2_get_bootloader_name :: "'a multiboot_scheme \<Rightarrow> name_ptr" where
  "multiboot2_get_bootloader_name s =
     (if bootloader_tag s \<noteq> 0 then Mem_string (bootloader_tag s + 8) else Literal ''Unknown'')"

subsection \<open>What the operations leave alone\<close>

lemma print_dec_eq: "print_dec n color s = vga_print (dec_string (unat n)) color s"
  by (simp add: print_dec_def uint64_to_str_print)

lemma print_dec_frame: "vga_frame s (print_dec n color s)"
  by (simp add: print_dec_def vga_print_frame)

lemma print_dec_vga [simp]: "vga_frame s (print_dec n color t) = vga_frame s t"
  by (simp add: print_dec_def)

lemma mb_print_type_vga [simp]: "vga_frame s (mb_print_type k t) = vga_frame s t"
  by (simp add: mb_print_type_def)

lemma mb_print_entry_vga [simp]: "vga_frame s (mb_print_entry e t) = vga_frame s t"
  by (simp add: mb_print_entry_def Let_def)

lemma vga_frame_mem8: "vga_frame s t \<Longrightarrow> mem8 t = mem8 s"
  by (simp add: vga_frame_def)

lemma mb_mmap_loop_frame: "mb_mmap_loop tag e s = Some t \<Longrightarrow> vga_frame s t"
proof (erule mb_mmap_loop.raw_induct [where P = "\<lambda>tag e s t. vga_frame s t", rotated])
  fix loop tag e t and s :: "'a vga_scheme"
  assume IH: "\<And>tag e s t. loop tag e s = Some t \<Longrightarrow> vga_frame s t"
    and eq: "(if e < tag + ucast (tag_size (mem8 s) tag)
      then loop tag (e + ucast (mmap_entry_size (mem8 s) tag)) (mb_print_entry e s)
      else Some s) = Some t"
  then show "vga_frame s t"
    by (auto split: if_splits dest!: IH elim: vga_frame_trans [rotated])
qed

text \<open>The parser writes the screen and the three pointers only.\<close>

definition mb_frame :: "'a multiboot_scheme \<Rightarrow> 'a multiboot_scheme \<Rightarrow> bool" where
  "mb_frame s t \<longleftrightarrow> port_in t = port_in s \<and> port_reads t = port_reads s \<and>
     hw_trace t = hw_trace s \<and> mem8 t = mem8 s \<and>
     timer_ticks t = timer_ticks s \<and> shift_pressed t = shift_pressed s \<and> ctrl_pressed t = ctrl_pressed s \<and>
     alt_pressed t = alt_pressed s \<and> kb_buffer t = kb_buffer s \<and> kb_buffer_read t = kb_buffer_read s \<and>
     kb_buffer_write t = kb_buffer_write s \<and> idt t = idt s \<and> idtp t = idtp s \<and>
     multiboot.more t = multiboot.more s"

lemma mb_frame_refl [simp, intro]: "mb_frame s s"
  by (simp add: mb_frame_def)

lemma mb_frame_trans [trans]: "mb_frame s t \<Longrightarrow> mb_frame t u \<Longrightarrow> mb_frame s u"
  by (simp add: mb_frame_def)

lemma vga_frame_multiboot:
  assumes "vga_frame s t"
  shows "mb_frame s t" "mmap_tag t = mmap_tag s" "meminfo_tag t = meminfo_tag s"
    "bootloader_tag t = bootloader_tag s"
proof -
  from assms have "t = s\<lparr>vga_buffer := vga_buffer t, cursor_x := cursor_x t, cursor_y := cursor_y t\<rparr>"
    by (simp add: vga_frame_iff)
  then obtain b x y where "t = s\<lparr>vga_buffer := b, cursor_x := x, cursor_y := y\<rparr>" by metis
  then show "mb_frame s t" "mmap_tag t = mmap_tag s" "meminfo_tag t = meminfo_tag s"
    "bootloader_tag t = bootloader_tag s"
    by (simp_all add: mb_frame_def)
qed

lemma multiboot_print_frame [frame, simp]:
  "mmap_tag (vga_print cs color s) = mmap_tag s"
  "meminfo_tag (vga_print cs color s) = meminfo_tag s"
  "bootloader_tag (vga_print cs color s) = bootloader_tag s"
  "mmap_tag (print_dec n color s) = mmap_tag s"
  "meminfo_tag (print_dec n color s) = meminfo_tag s"
  "bootloader_tag (print_dec n color s) = bootloader_tag s"
  "mem8 (print_dec n color s) = mem8 s"
  using vga_frame_multiboot [OF vga_print_frame] vga_frame_multiboot [OF print_dec_frame]
  by (simp_all add: vga_frame_mem8 [OF print_dec_frame])

lemma mb_frame_vga [simp]:
  "mb_frame s (vga_print cs color t) = mb_frame s t"
  "mb_frame s (print_dec n color t) = mb_frame s t"
  "mb_frame (vga_print cs color t) s = mb_frame t s"
  "mb_frame (print_dec n color t) s = mb_frame t s"
  "mb_frame s (t\<lparr>mmap_tag := a\<rparr>) = mb_frame s t"
  "mb_frame s (t\<lparr>meminfo_tag := a\<rparr>) = mb_frame s t"
  "mb_frame s (t\<lparr>bootloader_tag := a\<rparr>) = mb_frame s t"
  using vga_frame_multiboot(1) [OF vga_print_frame, of t cs color]
    vga_frame_multiboot(1) [OF print_dec_frame, of t n color]
  by (auto simp: mb_frame_def)

lemma mb_frame_mem8: "mb_frame s t \<Longrightarrow> mem8 t = mem8 s"
  by (simp add: mb_frame_def)

lemma mb_tag_frame: "mb_tag tag s = Some t \<Longrightarrow> mb_frame s t"
  unfolding mb_tag_def
  by (auto simp: Let_def bind_eq_Some_conv split: if_splits
      dest!: mb_mmap_loop_frame [THEN vga_frame_multiboot(1), THEN mb_frame_trans [rotated, where s = s]])

subsection \<open>Well-formed information\<close>

text \<open>
  \<open>tag_chain m a ts\<close>: the tags before the end tag, met from address \<open>a\<close>, are \<open>ts\<close>.
  \<open>entry_chain lim step e es\<close>: stepping from \<open>e\<close> meets \<open>es\<close> below \<open>lim\<close>.
\<close>

primrec tag_chain :: "(u64 \<Rightarrow> u8) \<Rightarrow> u64 \<Rightarrow> u64 list \<Rightarrow> bool" where
  "tag_chain m a [] \<longleftrightarrow> tag_type m a = MULTIBOOT_TAG_TYPE_END"
| "tag_chain m a (t # ts) \<longleftrightarrow>
     t = a \<and> tag_type m a \<noteq> MULTIBOOT_TAG_TYPE_END \<and> tag_chain m (tag_next m a) ts"

primrec entry_chain :: "u64 \<Rightarrow> u64 \<Rightarrow> u64 \<Rightarrow> u64 list \<Rightarrow> bool" where
  "entry_chain lim step e [] \<longleftrightarrow> \<not> e < lim"
| "entry_chain lim step e (x # xs) \<longleftrightarrow> x = e \<and> e < lim \<and> entry_chain lim step (e + step) xs"

definition mmap_limit :: "(u64 \<Rightarrow> u8) \<Rightarrow> u64 \<Rightarrow> u64" where
  "mmap_limit m tag = tag + ucast (tag_size m tag)"

definition mmap_step :: "(u64 \<Rightarrow> u8) \<Rightarrow> u64 \<Rightarrow> u64" where
  "mmap_step m tag = ucast (mmap_entry_size m tag)"

text \<open>What the walk needs of one tag: a terminated name, a finite memory map.\<close>

definition tag_ok :: "(u64 \<Rightarrow> u8) \<Rightarrow> u64 \<Rightarrow> bool" where
  "tag_ok m tag \<longleftrightarrow>
     (tag_type m tag = MULTIBOOT_TAG_TYPE_BOOT_LOADER_NAME \<longrightarrow> (\<exists>cs. mem_cstr m (tag + 8) = Some cs)) \<and>
     (tag_type m tag = MULTIBOOT_TAG_TYPE_MMAP \<longrightarrow>
        (\<exists>es. entry_chain (mmap_limit m tag) (mmap_step m tag) (mmap_entries tag) es))"

definition last_tag :: "(u64 \<Rightarrow> u8) \<Rightarrow> u32 \<Rightarrow> u64 list \<Rightarrow> u64 \<Rightarrow> u64" where
  "last_tag m k ts d = last (d # filter (\<lambda>t. tag_type m t = k) ts)"

lemma last_tag_Nil [simp]: "last_tag m k [] d = d"
  by (simp add: last_tag_def)

lemma last_tag_Cons [simp]:
  "last_tag m k (t # ts) d = last_tag m k ts (if tag_type m t = k then t else d)"
  by (simp add: last_tag_def)

lemma mb_mmap_loop_ends:
  "entry_chain (mmap_limit (mem8 s) tag) (mmap_step (mem8 s) tag) e es \<Longrightarrow> \<exists>t. mb_mmap_loop tag e s = Some t"
proof (induction es arbitrary: e s)
  case Nil
  then show ?case by (subst mb_mmap_loop.simps) (simp add: mmap_limit_def)
next
  case (Cons x es)
  have "mem8 (mb_print_entry e s) = mem8 s"
    by (rule vga_frame_mem8) simp
  with Cons.IH [of "mb_print_entry e s"] Cons.prems show ?case
    by (subst mb_mmap_loop.simps) (simp add: mmap_limit_def mmap_step_def)
qed

lemma mb_tag_saves:
  assumes "tag_ok (mem8 s) tag"
  shows "\<exists>t. mb_tag tag s = Some t \<and> mb_frame s t \<and>
    mmap_tag t = (if tag_type (mem8 s) tag = MULTIBOOT_TAG_TYPE_MMAP then tag else mmap_tag s) \<and>
    meminfo_tag t = (if tag_type (mem8 s) tag = MULTIBOOT_TAG_TYPE_BASIC_MEMINFO then tag else meminfo_tag s) \<and>
    bootloader_tag t =
      (if tag_type (mem8 s) tag = MULTIBOOT_TAG_TYPE_BOOT_LOADER_NAME then tag else bootloader_tag s)"
proof -
  let ?k = "tag_type (mem8 s) tag"
  consider "?k = MULTIBOOT_TAG_TYPE_MMAP" | "?k = MULTIBOOT_TAG_TYPE_BOOT_LOADER_NAME"
    | "?k \<noteq> MULTIBOOT_TAG_TYPE_MMAP" "?k \<noteq> MULTIBOOT_TAG_TYPE_BOOT_LOADER_NAME" by blast
  then show ?thesis
  proof cases
    case 1
    let ?s = "vga_print (line ''    Memory map found'') VGA_COLOR_WHITE (s\<lparr>mmap_tag := tag\<rparr>)"
    from 1 assms obtain es where
      "entry_chain (mmap_limit (mem8 s) tag) (mmap_step (mem8 s) tag) (mmap_entries tag) es"
      by (auto simp: tag_ok_def)
    then obtain t where t: "mb_mmap_loop tag (mmap_entries tag) ?s = Some t"
      using mb_mmap_loop_ends [of ?s tag] by auto
    from mb_mmap_loop_frame [OF this] have "vga_frame ?s t" .
    from vga_frame_multiboot [OF this] 1 t show ?thesis
      by (auto simp: mb_tag_def tag_types elim!: mb_frame_trans [rotated])
  next
    case 2
    then show ?thesis using assms
      by (auto simp: mb_tag_def tag_ok_def tag_types Let_def)
  next
    case 3
    then show ?thesis
      by (auto simp: mb_tag_def tag_types Let_def)
  qed
qed

lemma mb_tag_loop_saves:
  assumes "tag_chain (mem8 s) tag ts" and "\<forall>t\<in>set ts. tag_ok (mem8 s) t"
  shows "\<exists>u. mb_tag_loop tag s = Some u \<and> mb_frame s u \<and>
    mmap_tag u = last_tag (mem8 s) MULTIBOOT_TAG_TYPE_MMAP ts (mmap_tag s) \<and>
    meminfo_tag u = last_tag (mem8 s) MULTIBOOT_TAG_TYPE_BASIC_MEMINFO ts (meminfo_tag s) \<and>
    bootloader_tag u = last_tag (mem8 s) MULTIBOOT_TAG_TYPE_BOOT_LOADER_NAME ts (bootloader_tag s)"
  using assms
proof (induction ts arbitrary: tag s)
  case Nil
  then show ?case by (subst mb_tag_loop.simps) simp
next
  case (Cons a ts)
  then have a: "a = tag" "tag_type (mem8 s) tag \<noteq> MULTIBOOT_TAG_TYPE_END"
    "tag_chain (mem8 s) (tag_next (mem8 s) tag) ts" "tag_ok (mem8 s) tag" by simp_all
  from mb_tag_saves [OF a(4)] obtain t where t: "mb_tag tag s = Some t" "mb_frame s t"
    "mmap_tag t = (if tag_type (mem8 s) tag = MULTIBOOT_TAG_TYPE_MMAP then tag else mmap_tag s)"
    "meminfo_tag t = (if tag_type (mem8 s) tag = MULTIBOOT_TAG_TYPE_BASIC_MEMINFO then tag else meminfo_tag s)"
    "bootloader_tag t =
      (if tag_type (mem8 s) tag = MULTIBOOT_TAG_TYPE_BOOT_LOADER_NAME then tag else bootloader_tag s)"
    by blast
  have m: "mem8 t = mem8 s" using t(2) by (rule mb_frame_mem8)
  have "mb_tag_loop tag s = mb_tag_loop (tag_next (mem8 t) tag) t"
    using a t by (subst mb_tag_loop.simps) simp
  moreover have "tag_chain (mem8 t) (tag_next (mem8 t) tag) ts" "\<forall>x\<in>set ts. tag_ok (mem8 t) x"
    using a Cons.prems m by simp_all
  from Cons.IH [OF this] obtain u where "mb_tag_loop (tag_next (mem8 t) tag) t = Some u" "mb_frame t u"
    "mmap_tag u = last_tag (mem8 t) MULTIBOOT_TAG_TYPE_MMAP ts (mmap_tag t)"
    "meminfo_tag u = last_tag (mem8 t) MULTIBOOT_TAG_TYPE_BASIC_MEMINFO ts (meminfo_tag t)"
    "bootloader_tag u = last_tag (mem8 t) MULTIBOOT_TAG_TYPE_BOOT_LOADER_NAME ts (bootloader_tag t)"
    by blast
  ultimately show ?case
    using t m a(1) by (auto intro: mb_frame_trans)
qed

subsection \<open>The walk can hang\<close>

lemma mb_tag_loop_stuck:
  assumes "tag_type (mem8 s) tag \<noteq> MULTIBOOT_TAG_TYPE_END" and "tag_next (mem8 s) tag = tag"
  shows "mb_tag_loop tag s = None"
proof (rule ccontr)
  assume "mb_tag_loop tag s \<noteq> None"
  then obtain t where "mb_tag_loop tag s = Some t" by blast
  then have "\<not> (tag_type (mem8 s) tag \<noteq> MULTIBOOT_TAG_TYPE_END \<and> tag_next (mem8 s) tag = tag)"
  proof (rule mb_tag_loop.raw_induct [where P = "\<lambda>tag s t.
      \<not> (tag_type (mem8 s) tag \<noteq> MULTIBOOT_TAG_TYPE_END \<and> tag_next (mem8 s) tag = tag)", rotated])
    fix loop tag t and s :: "'b multiboot_scheme"
    assume IH: "\<And>tag s t. loop tag s = Some t \<Longrightarrow>
        \<not> (tag_type (mem8 s) tag \<noteq> MULTIBOOT_TAG_TYPE_END \<and> tag_next (mem8 s) tag = tag)"
      and eq: "(if tag_type (mem8 s) tag \<noteq> MULTIBOOT_TAG_TYPE_END
        then mb_tag tag s \<bind> (\<lambda>s. loop (tag_next (mem8 s) tag) s) else Some s) = Some t"
    show "\<not> (tag_type (mem8 s) tag \<noteq> MULTIBOOT_TAG_TYPE_END \<and> tag_next (mem8 s) tag = tag)"
    proof
      assume stuck: "tag_type (mem8 s) tag \<noteq> MULTIBOOT_TAG_TYPE_END \<and> tag_next (mem8 s) tag = tag"
      with eq obtain u where u: "mb_tag tag s = Some u" "loop (tag_next (mem8 u) tag) u = Some t"
        by (auto simp: bind_eq_Some_conv)
      have "mem8 u = mem8 s" using mb_tag_frame [OF u(1)] by (rule mb_frame_mem8)
      with IH [OF u(2)] stuck show False by simp
    qed
  qed
  with assms show False by blast
qed

lemma multiboot2_parse_tags:
  assumes "magic = MULTIBOOT2_BOOTLOADER_MAGIC"
    and "tag_chain (mem8 s) (addr + 8) ts" and "\<forall>t\<in>set ts. tag_ok (mem8 s) t"
  shows "\<exists>u. multiboot2_parse magic addr s = Some u \<and> mb_frame s u \<and>
    mmap_tag u = last_tag (mem8 s) MULTIBOOT_TAG_TYPE_MMAP ts (mmap_tag s) \<and>
    meminfo_tag u = last_tag (mem8 s) MULTIBOOT_TAG_TYPE_BASIC_MEMINFO ts (meminfo_tag s) \<and>
    bootloader_tag u = last_tag (mem8 s) MULTIBOOT_TAG_TYPE_BOOT_LOADER_NAME ts (bootloader_tag s)"
proof -
  let ?s = "vga_print (line ''[*] Parsing multiboot2 info...'') VGA_COLOR_BROWN s"
  have "tag_chain (mem8 ?s) (addr + 8) ts" "\<forall>t\<in>set ts. tag_ok (mem8 ?s) t"
    using assms(2,3) by simp_all
  from mb_tag_loop_saves [OF this] assms(1) show ?thesis
    by (auto simp: multiboot2_parse_def)
qed

subsection \<open>Properties\<close>

text \<open>
  Property C22. On well-formed boot information (a chain of tags that reaches the end tag, with
  terminated names and finite memory maps) the parser returns, saves the last tag of each of the
  three kinds it looks for, keeps a pointer whose kind does not occur, and changes nothing but
  the screen besides.
\<close>

theorem multiboot2_parse_saves:
  assumes "magic = MULTIBOOT2_BOOTLOADER_MAGIC"
    and "tag_chain (mem8 s) (addr + 8) ts" and "\<forall>t\<in>set ts. tag_ok (mem8 s) t"
  shows "\<exists>u. multiboot2_parse magic addr s = Some u \<and> mb_frame s u \<and>
    multiboot2_get_mmap u = last_tag (mem8 s) MULTIBOOT_TAG_TYPE_MMAP ts (mmap_tag s) \<and>
    multiboot2_get_basic_meminfo u =
      last_tag (mem8 s) MULTIBOOT_TAG_TYPE_BASIC_MEMINFO ts (meminfo_tag s) \<and>
    bootloader_tag u = last_tag (mem8 s) MULTIBOOT_TAG_TYPE_BOOT_LOADER_NAME ts (bootloader_tag s)"
  using multiboot2_parse_tags [OF assms] by (auto simp: multiboot2_get_mmap_def multiboot2_get_basic_meminfo_def)

text \<open>
  A two-tag example: memory information at 8, a memory map of one entry at 24, the end at 64.
\<close>

definition demo_info :: "u64 \<Rightarrow> u8" where
  "demo_info = (\<lambda>_. 0)(8 := 4, 12 := 16, 24 := 6, 28 := 40, 32 := 24, 50 := 17, 56 := 1)"

definition demo_multiboot :: multiboot where
  "demo_multiboot =
     \<lparr>port_in = (\<lambda>_ _. 0), port_reads = (\<lambda>_. 0), hw_trace = [], mem8 = demo_info,
      vga_buffer = (\<lambda>_. 0), cursor_x = 0, cursor_y = 0, timer_ticks = 0,
      shift_pressed = 0, ctrl_pressed = 0, alt_pressed = 0,
      kb_buffer = (\<lambda>_. CHR 0x00), kb_buffer_read = 0, kb_buffer_write = 0,
      idt = (\<lambda>_. empty_gate), idtp = \<lparr>limit = 0, base = 0\<rparr>,
      mmap_tag = 0, meminfo_tag = 0, bootloader_tag = 0\<rparr>"

lemma demo_multiboot_mem8 [simp]: "mem8 demo_multiboot = demo_info"
  by (simp add: demo_multiboot_def)

lemma demo_info_chain: "tag_chain demo_info 8 [8, 24]"
  by code_simp

lemma demo_info_ok: "\<forall>t\<in>set [8, 24]. tag_ok demo_info t"
proof -
  have types: "tag_type demo_info 8 = 4" "tag_type demo_info 24 = 6" by code_simp+
  have "entry_chain (mmap_limit demo_info 24) (mmap_step demo_info 24) (mmap_entries 24) [40]"
    by code_simp
  then have "\<exists>es. entry_chain (mmap_limit demo_info 24) (mmap_step demo_info 24) (mmap_entries 24) es"
    by (rule exI)
  with types show ?thesis by (simp add: tag_ok_def tag_types)
qed

theorem multiboot2_parse_saves_witness:
  "\<exists>u. multiboot2_parse MULTIBOOT2_BOOTLOADER_MAGIC 0 demo_multiboot = Some u \<and>
    multiboot2_get_mmap u = 24 \<and> multiboot2_get_basic_meminfo u = 8"
proof -
  have "tag_type demo_info 8 = 4" "tag_type demo_info 24 = 6" by code_simp+
  then show ?thesis
    using multiboot2_parse_saves [of MULTIBOOT2_BOOTLOADER_MAGIC demo_multiboot 0 "[8, 24]"]
      demo_info_chain demo_info_ok
    by (auto simp: tag_types)
qed

text \<open>
  A tag of length zero (other than the end tag) at the start of the boot information
  hangs the kernel: the walk advances by the tag's own size and never returns.
\<close>

theorem multiboot2_parse_zero_size_hangs:
  assumes "tag_type (mem8 s) (addr + 8) \<noteq> MULTIBOOT_TAG_TYPE_END"
    and "tag_size (mem8 s) (addr + 8) = 0"
  shows "multiboot2_parse MULTIBOOT2_BOOTLOADER_MAGIC addr s = None"
proof -
  have "tag_next (mem8 s) (addr + 8) = addr + 8"
    using assms(2) by (simp add: tag_next_def)
  then show ?thesis
    using assms(1) by (simp add: multiboot2_parse_def mb_tag_loop_stuck)
qed

theorem multiboot2_parse_zero_size_hangs_witness:
  "multiboot2_parse MULTIBOOT2_BOOTLOADER_MAGIC 48 demo_multiboot = None"
proof -
  have "tag_type demo_info 56 = 1 \<and> tag_size demo_info 56 = 0" by code_simp
  then show ?thesis
    using multiboot2_parse_zero_size_hangs [of demo_multiboot 48] by (simp add: tag_types)
qed

text \<open>The region report prints the addresses in decimal, after the prefix \<open>0x\<close>.\<close>

lemma mb_print_entry_decimal:
  "mb_print_entry e s =
     (let m = mem8 s in
      vga_print (line '''') VGA_COLOR_WHITE (mb_print_type (entry_type m e)
        (vga_print '' KB) - '' VGA_COLOR_WHITE
        (vga_print (dec_string (unat (entry_len m e div 1024))) VGA_COLOR_LIGHT_CYAN
        (vga_print '' ('' VGA_COLOR_WHITE
        (vga_print (dec_string (unat (entry_addr m e + entry_len m e))) VGA_COLOR_LIGHT_CYAN
        (vga_print '' - 0x'' VGA_COLOR_WHITE
        (vga_print (dec_string (unat (entry_addr m e))) VGA_COLOR_LIGHT_CYAN
        (vga_print ''      0x'' VGA_COLOR_WHITE s)))))))))"
  by (simp add: mb_print_entry_def print_dec_eq Let_def)

end
