(* ===== verification/Page_Pool.thy ===== *)
theory Page_Pool
  imports Prelude
begin

text \<open>
  What the paging code and the kernel heap rely on when they ask for physical pages: an
  allocator over a set of available page addresses that hands out an available page or 0, and a
  releaser that puts a page back. Address 0 doubles as the failure value, so a pool in which page
  0 is available can answer 0 without being empty.
\<close>

locale page_pool =
  fixes alloc :: "'s \<Rightarrow> u64 \<times> 's"
    and avail :: "'s \<Rightarrow> u64 set"
    and inv :: "'s \<Rightarrow> bool"
  assumes alloc_inv: "inv s \<Longrightarrow> inv (snd (alloc s))"
    and alloc_avail: "inv s \<Longrightarrow> avail (snd (alloc s)) = avail s - {fst (alloc s)}"
    and alloc_in: "inv s \<Longrightarrow> fst (alloc s) \<noteq> 0 \<Longrightarrow> fst (alloc s) \<in> avail s"
    and alloc_fail: "inv s \<Longrightarrow> fst (alloc s) = 0 \<Longrightarrow> 0 \<in> avail s \<or> avail s = {}"
    and avail_aligned: "inv s \<Longrightarrow> p \<in> avail s \<Longrightarrow> 4096 dvd unat p"

text \<open>Up to \<open>n\<close> pages in a row, giving up at the first failure.\<close>

primrec take_pages :: "('s \<Rightarrow> u64 \<times> 's) \<Rightarrow> nat \<Rightarrow> 's \<Rightarrow> u64 list \<times> 's" where
  "take_pages al 0 s = ([], s)"
| "take_pages al (Suc n) s =
     (if fst (al s) = 0 then ([], snd (al s))
      else (fst (al s) # fst (take_pages al n (snd (al s))), snd (take_pages al n (snd (al s)))))"

context page_pool
begin

lemma take_pages_inv: "inv s \<Longrightarrow> inv (snd (take_pages alloc n s))"
  by (induction n arbitrary: s) (simp_all add: alloc_inv)

lemma take_pages_avail:
  "inv s \<Longrightarrow> avail (snd (take_pages alloc n s)) - {0} = avail s - set (fst (take_pages alloc n s)) - {0}"
  by (induction n arbitrary: s) (auto simp: alloc_inv alloc_avail)

lemma take_pages_fresh:
  "inv s \<Longrightarrow> set (fst (take_pages alloc n s)) \<subseteq> avail s - {0} \<and> distinct (fst (take_pages alloc n s))"
proof (induction n arbitrary: s)
  case 0
  then show ?case by simp
next
  case (Suc n)
  show ?case
  proof (cases "fst (alloc s) = 0")
    case True
    then show ?thesis by simp
  next
    case False
    have "set (fst (take_pages alloc n (snd (alloc s)))) \<subseteq> avail s - {fst (alloc s)} - {0}"
      "distinct (fst (take_pages alloc n (snd (alloc s))))"
      using Suc.IH [OF alloc_inv] Suc.prems alloc_avail by blast+
    with False alloc_in [OF Suc.prems] show ?thesis by auto
  qed
qed

lemma take_pages_subset: "inv s \<Longrightarrow> avail (snd (take_pages alloc n s)) \<subseteq> avail s"
proof (induction n arbitrary: s)
  case (Suc n)
  from Suc.IH [OF alloc_inv [OF Suc.prems]] alloc_avail [OF Suc.prems] show ?case by auto
qed simp

lemma take_pages_aligned: "inv s \<Longrightarrow> p \<in> set (fst (take_pages alloc n s)) \<Longrightarrow> 4096 dvd unat p"
  using take_pages_fresh avail_aligned by blast

lemma take_pages_length: "length (fst (take_pages alloc n s)) \<le> n"
  by (induction n arbitrary: s) simp_all

text \<open>Giving up early is only possible when page 0 is in the way or nothing is left.\<close>

lemma take_pages_short:
  "inv s \<Longrightarrow> 0 \<notin> avail s \<Longrightarrow> length (fst (take_pages alloc n s)) < n \<Longrightarrow>
    avail (snd (take_pages alloc n s)) = {}"
proof (induction n arbitrary: s)
  case 0
  then show ?case by simp
next
  case (Suc n)
  show ?case
  proof (cases "fst (alloc s) = 0")
    case True
    with alloc_fail [OF Suc.prems(1)] Suc.prems(2) have "avail s = {}" by blast
    with True alloc_avail [OF Suc.prems(1)] show ?thesis by simp
  next
    case False
    with Suc.prems show ?thesis
      by (simp add: Suc.IH alloc_inv alloc_avail)
  qed
qed

end

text \<open>A pool that takes pages back.\<close>

locale returning_page_pool = page_pool +
  fixes release :: "u64 \<Rightarrow> 's \<Rightarrow> 's"
    and held :: "'s \<Rightarrow> u64 set"
  assumes release_inv: "inv s \<Longrightarrow> inv (release p s)"
    and release_avail: "inv s \<Longrightarrow> p \<in> held s \<Longrightarrow> avail (release p s) = insert p (avail s)"
    and alloc_held: "inv s \<Longrightarrow> fst (alloc s) \<noteq> 0 \<Longrightarrow> fst (alloc s) \<in> held (snd (alloc s))"
begin

text \<open>Taking a page and giving it back leaves the same pages available.\<close>

lemma alloc_release:
  assumes "inv s" and "fst (alloc s) \<noteq> 0"
  shows "avail (release (fst (alloc s)) (snd (alloc s))) = avail s"
  using assms release_avail [OF alloc_inv [OF assms(1)] alloc_held [OF assms]] alloc_avail alloc_in
  by auto

end

end
