(* ===== verification/Pmm.thy ===== *)
theory Pmm
  imports Multiboot2 Page_Pool
begin

text \<open>
  The physical memory manager (\<open>kernel/mm/pmm.c\<close>): one bit per 4 KiB page frame in a bitmap
  that sits in physical memory right after the kernel image, so the bitmap lives in the same
  byte memory as the boot information it is computed from. The linker's \<open>kernel_end\<close> is a
  parameter.
\<close>

definition PAGE_SIZE :: u64 where "PAGE_SIZE = 4096"

record pmm = multiboot +
  bitmap :: u64
  total_pages :: u64
  used_pages :: u64
  memory_size :: u64

subsection \<open>The bitmap\<close>

definition bitmap_cell :: "u64 \<Rightarrow> 'a pmm_scheme \<Rightarrow> u64" where
  "bitmap_cell n s = bitmap s + n div 8"

definition bitmap_mask :: "u64 \<Rightarrow> u8" where
  "bitmap_mask n = push_bit (unat (n mod 8)) 1"

definition bitmap_set :: "u64 \<Rightarrow> 'a pmm_scheme \<Rightarrow> 'a pmm_scheme" where
  "bitmap_set n s =
     (let a = bitmap_cell n s in s\<lparr>mem8 := (mem8 s)(a := mem8 s a OR bitmap_mask n)\<rparr>)"

definition bitmap_clear :: "u64 \<Rightarrow> 'a pmm_scheme \<Rightarrow> 'a pmm_scheme" where
  "bitmap_clear n s =
     (let a = bitmap_cell n s in s\<lparr>mem8 := (mem8 s)(a := mem8 s a AND NOT (bitmap_mask n))\<rparr>)"

definition bitmap_test :: "u64 \<Rightarrow> 'a pmm_scheme \<Rightarrow> bool" where
  "bitmap_test n s \<longleftrightarrow> mem8 s (bitmap_cell n s) AND bitmap_mask n \<noteq> 0"

subsection \<open>Allocation\<close>

text \<open>The copy of the decimal printer in this file.\<close>

definition uint64_to_str_dec :: "u64 \<Rightarrow> char_array \<Rightarrow> char_array" where
  "uint64_to_str_dec num buf = uint64_to_str num buf"

function pmm_alloc_from :: "u64 \<Rightarrow> 'a pmm_scheme \<Rightarrow> u64 \<times> 'a pmm_scheme" where
  "pmm_alloc_from i s =
     (if i < total_pages s then
        (if \<not> bitmap_test i s then
           (let s = bitmap_set i s in (i * PAGE_SIZE, s\<lparr>used_pages := used_pages s + 1\<rparr>))
         else pmm_alloc_from (i + 1) s)
      else (0, s))"
  by pat_completeness auto
termination
proof (relation "measure (\<lambda>(i, s). unat (total_pages s) - unat i)")
  show "((i + 1, s), i, s) \<in> measure (\<lambda>(i, s). unat (total_pages s) - unat i)"
    if "i < total_pages s" for i and s :: "'a pmm_scheme"
    using that unat_Suc_below [OF that] by (simp add: word_less_nat_alt)
qed simp

declare pmm_alloc_from.simps [simp del]

definition pmm_alloc_page :: "'a pmm_scheme \<Rightarrow> u64 \<times> 'a pmm_scheme" where
  "pmm_alloc_page s = pmm_alloc_from 0 s"

definition pmm_free_page :: "u64 \<Rightarrow> 'a pmm_scheme \<Rightarrow> 'a pmm_scheme" where
  "pmm_free_page page s =
     (let pfn = page div PAGE_SIZE in
      if total_pages s \<le> pfn then s
      else if \<not> bitmap_test pfn s then s
      else (let s = bitmap_clear pfn s in s\<lparr>used_pages := used_pages s - 1\<rparr>))"

definition pmm_get_total_memory :: "'a pmm_scheme \<Rightarrow> u64" where
  "pmm_get_total_memory s = total_pages s * PAGE_SIZE"

definition pmm_get_free_memory :: "'a pmm_scheme \<Rightarrow> u64" where
  "pmm_get_free_memory s = (total_pages s - used_pages s) * PAGE_SIZE"

definition pmm_get_used_memory :: "'a pmm_scheme \<Rightarrow> u64" where
  "pmm_get_used_memory s = used_pages s * PAGE_SIZE"

subsection \<open>Initialisation\<close>

text \<open>The first walk over the memory map: the highest available address, the sum of lengths.\<close>

partial_function (option) pmm_sum_regions ::
  "u64 \<Rightarrow> u64 \<Rightarrow> u64 \<Rightarrow> 'a pmm_scheme \<Rightarrow> (u64 \<times> 'a pmm_scheme) option" where
  "pmm_sum_regions mmap entry max_addr s =
     (if entry < mmap + ucast (tag_size (mem8 s) mmap) then
        (let (max_addr, s) =
           (if entry_type (mem8 s) entry = MULTIBOOT_MEMORY_AVAILABLE then
              (let region_end = entry_addr (mem8 s) entry + entry_len (mem8 s) entry
               in (if max_addr < region_end then region_end else max_addr,
                   s\<lparr>memory_size := memory_size s + entry_len (mem8 s) entry\<rparr>))
            else (max_addr, s))
         in pmm_sum_regions mmap (entry + ucast (mmap_entry_size (mem8 s) mmap)) max_addr s)
      else Some (max_addr, s))"

definition pmm_fill_bitmap :: "u64 \<Rightarrow> 'a pmm_scheme \<Rightarrow> 'a pmm_scheme" where
  "pmm_fill_bitmap bitmap_size s =
     for_u64 0 bitmap_size (\<lambda>i s. s\<lparr>mem8 := (mem8 s)(bitmap s + i := 0xFF)\<rparr>) s"

definition pmm_release :: "u64 \<Rightarrow> 'a pmm_scheme \<Rightarrow> 'a pmm_scheme" where
  "pmm_release n s =
     (if \<not> bitmap_test n s then s
      else (let s = bitmap_clear n s in s\<lparr>used_pages := used_pages s - 1\<rparr>))"

definition pmm_release_region :: "u64 \<Rightarrow> 'a pmm_scheme \<Rightarrow> 'a pmm_scheme" where
  "pmm_release_region entry s =
     (if entry_type (mem8 s) entry = MULTIBOOT_MEMORY_AVAILABLE then
        (let start_page = entry_addr (mem8 s) entry div PAGE_SIZE;
             num_pages = entry_len (mem8 s) entry div PAGE_SIZE
         in for_u64 0 num_pages (\<lambda>i. pmm_release (start_page + i)) s)
      else s)"

text \<open>The second walk: the pages of the available regions become free.\<close>

partial_function (option) pmm_free_regions ::
  "u64 \<Rightarrow> u64 \<Rightarrow> 'a pmm_scheme \<Rightarrow> 'a pmm_scheme option" where
  "pmm_free_regions mmap entry s =
     (if entry < mmap + ucast (tag_size (mem8 s) mmap) then
        (let s = pmm_release_region entry s
         in pmm_free_regions mmap (entry + ucast (mmap_entry_size (mem8 s) mmap)) s)
      else Some s)"

definition pmm_reserve :: "u64 \<Rightarrow> 'a pmm_scheme \<Rightarrow> 'a pmm_scheme" where
  "pmm_reserve i s =
     (if i < total_pages s \<and> \<not> bitmap_test i s
      then (let s = bitmap_set i s in s\<lparr>used_pages := used_pages s + 1\<rparr>) else s)"

definition pmm_report :: "'a pmm_scheme \<Rightarrow> 'a pmm_scheme" where
  "pmm_report s =
     (let num = (\<lambda>n s. vga_print (c_str 32 (uint64_to_str_dec n fresh_array)) VGA_COLOR_LIGHT_CYAN s);
          s = vga_print ''    Total memory: '' VGA_COLOR_WHITE s;
          s = num (memory_size s div 1024 div 1024) s;
          s = vga_print (line '' MB'') VGA_COLOR_WHITE s;
          s = vga_print ''    Total pages: '' VGA_COLOR_WHITE s;
          s = num (total_pages s) s;
          s = vga_print (line '''') VGA_COLOR_WHITE s;
          s = vga_print ''    Free pages: '' VGA_COLOR_WHITE s;
          s = num (total_pages s - used_pages s) s;
          s = vga_print (line '''') VGA_COLOR_WHITE s
      in vga_print (line ''[OK] PMM initialized!'') VGA_COLOR_LIGHT_GREEN s)"

definition KERNEL_START :: u64 where "KERNEL_START = 0x100000"

definition pmm_init :: "u64 \<Rightarrow> 'a pmm_scheme \<Rightarrow> 'a pmm_scheme option" where
  "pmm_init kernel_end s =
     (let s = vga_print (line ''[*] Initializing physical memory manager...'') VGA_COLOR_BROWN s;
          mmap = multiboot2_get_mmap s
      in if mmap = 0 then Some (vga_print (line ''[ERROR] No memory map available!'') VGA_COLOR_LIGHT_RED s)
         else do {
           (max_addr, s) \<leftarrow> pmm_sum_regions mmap (mmap_entries mmap) 0 s;
           let s = s\<lparr>total_pages := max_addr div PAGE_SIZE\<rparr>;
           let bitmap_size = (total_pages s + 7) div 8;
           let s = s\<lparr>bitmap := kernel_end\<rparr>;
           let s = pmm_fill_bitmap bitmap_size s;
           let s = s\<lparr>used_pages := total_pages s\<rparr>;
           s \<leftarrow> pmm_free_regions mmap (mmap_entries mmap) s;
           let kernel_pages = (kernel_end - KERNEL_START + PAGE_SIZE - 1) div PAGE_SIZE;
           let bitmap_pages = (bitmap_size + PAGE_SIZE - 1) div PAGE_SIZE;
           let s = for_u64 (KERNEL_START div PAGE_SIZE)
                     (KERNEL_START div PAGE_SIZE + kernel_pages + bitmap_pages) pmm_reserve s;
           Some (pmm_report s)
         })"

subsection \<open>Bit algebra\<close>

lemma bitmap_test_bit: "bitmap_test n s \<longleftrightarrow> bit (mem8 s (bitmap s + n div 8)) (unat (n mod 8))"
  by (simp add: bitmap_test_def bitmap_cell_def bitmap_mask_def bit_iff_and_push_bit_not_eq_0)

lemma unat_mod8_less [simp]: "unat (n mod 8 :: u64) < 8"
  by (simp add: unat_mod_distrib)

lemma bitmap_mask_bit: "bit (bitmap_mask n) k \<longleftrightarrow> k = unat (n mod 8)"
  using unat_mod8_less [of n] by (auto simp: bitmap_mask_def bit_exp_iff)

lemma same_bit_iff: "n div 8 = m div 8 \<Longrightarrow> unat (n mod 8) = unat (m mod 8) \<longleftrightarrow> n = m" for n m :: u64
  by (metis word_mod_div_equality word_unat_eq_iff)

lemma bitmap_test_set [simp]: "bitmap_test m (bitmap_set n s) \<longleftrightarrow> m = n \<or> bitmap_test m s"
  using same_bit_iff [of m n]
  by (auto simp: bitmap_test_bit bitmap_set_def bitmap_cell_def Let_def bit_or_iff bitmap_mask_bit)

lemma bitmap_test_clear [simp]: "bitmap_test m (bitmap_clear n s) \<longleftrightarrow> m \<noteq> n \<and> bitmap_test m s"
  using same_bit_iff [of m n]
  by (auto simp: bitmap_test_bit bitmap_clear_def bitmap_cell_def Let_def bit_and_iff bit_not_iff
      bitmap_mask_bit)


subsection \<open>What the operations leave alone\<close>

lemma bitmap_fields [simp]:
  "bitmap (bitmap_set n s) = bitmap s" "total_pages (bitmap_set n s) = total_pages s"
  "used_pages (bitmap_set n s) = used_pages s" "memory_size (bitmap_set n s) = memory_size s"
  "bitmap (bitmap_clear n s) = bitmap s" "total_pages (bitmap_clear n s) = total_pages s"
  "used_pages (bitmap_clear n s) = used_pages s" "memory_size (bitmap_clear n s) = memory_size s"
  by (simp_all add: bitmap_set_def bitmap_clear_def Let_def)

lemma bitmap_test_upd [simp]:
  "bitmap_test n (s\<lparr>used_pages := u\<rparr>) = bitmap_test n s"
  "bitmap_test n (s\<lparr>memory_size := v\<rparr>) = bitmap_test n s"
  "bitmap_test n (s\<lparr>total_pages := w\<rparr>) = bitmap_test n s"
  by (simp_all add: bitmap_test_bit)

lemma vga_frame_pmm:
  assumes "vga_frame s t"
  shows "bitmap t = bitmap s" "total_pages t = total_pages s" "used_pages t = used_pages s"
    "memory_size t = memory_size s" "bitmap_test n t = bitmap_test n s" "pmm.more t = pmm.more s"
proof -
  from assms have "t = s\<lparr>vga_buffer := vga_buffer t, cursor_x := cursor_x t, cursor_y := cursor_y t\<rparr>"
    by (simp add: vga_frame_iff)
  then obtain b x y where "t = s\<lparr>vga_buffer := b, cursor_x := x, cursor_y := y\<rparr>" by metis
  then show "bitmap t = bitmap s" "total_pages t = total_pages s" "used_pages t = used_pages s"
    "memory_size t = memory_size s" "bitmap_test n t = bitmap_test n s" "pmm.more t = pmm.more s"
    by (simp_all add: bitmap_test_bit)
qed

lemmas pmm_print_frame [frame, simp] = vga_frame_pmm [OF vga_print_frame]

text \<open>
  The allocator writes the bitmap and the page counter only: \<open>pmm_frame s t\<close> says that
  \<open>t\<close> is \<open>s\<close> but for the memory of the bitmap and the counter.
\<close>

definition bitmap_cells :: "'a pmm_scheme \<Rightarrow> u64 set" where
  "bitmap_cells s = (\<lambda>n. bitmap_cell n s) ` {n. n < total_pages s}"

definition pmm_frame :: "'a pmm_scheme \<Rightarrow> 'a pmm_scheme \<Rightarrow> bool" where
  "pmm_frame s t \<longleftrightarrow> port_in t = port_in s \<and> port_reads t = port_reads s \<and> hw_trace t = hw_trace s \<and>
     vga_buffer t = vga_buffer s \<and> cursor_x t = cursor_x s \<and> cursor_y t = cursor_y s \<and>
     timer_ticks t = timer_ticks s \<and> shift_pressed t = shift_pressed s \<and> ctrl_pressed t = ctrl_pressed s \<and>
     alt_pressed t = alt_pressed s \<and> kb_buffer t = kb_buffer s \<and> kb_buffer_read t = kb_buffer_read s \<and>
     kb_buffer_write t = kb_buffer_write s \<and> idt t = idt s \<and> idtp t = idtp s \<and>
     mmap_tag t = mmap_tag s \<and> meminfo_tag t = meminfo_tag s \<and> bootloader_tag t = bootloader_tag s \<and>
     bitmap t = bitmap s \<and> total_pages t = total_pages s \<and> memory_size t = memory_size s \<and>
     pmm.more t = pmm.more s \<and> (\<forall>a. a \<notin> bitmap_cells s \<longrightarrow> mem8 t a = mem8 s a)"

lemma pmm_frame_refl [simp, intro]: "pmm_frame s s"
  by (simp add: pmm_frame_def)

lemma bitmap_cells_cong: "bitmap t = bitmap s \<Longrightarrow> total_pages t = total_pages s \<Longrightarrow> bitmap_cells t = bitmap_cells s"
  by (simp add: bitmap_cells_def bitmap_cell_def)

lemma pmm_frame_cells: "pmm_frame s t \<Longrightarrow> bitmap_cells t = bitmap_cells s"
  by (rule bitmap_cells_cong) (simp_all add: pmm_frame_def)

lemma pmm_frame_trans [trans]: "pmm_frame s t \<Longrightarrow> pmm_frame t u \<Longrightarrow> pmm_frame s u"
  using pmm_frame_cells [of s t] by (simp add: pmm_frame_def)

lemma pmm_frame_record: "pmm_frame s t \<Longrightarrow> t = s\<lparr>mem8 := mem8 t, used_pages := used_pages t\<rparr>"
  by (cases s; cases t) (simp add: pmm_frame_def)

text \<open>Any field that does not read the byte memory or the counter is kept.\<close>

lemma pmm_frame_field:
  assumes "pmm_frame s t"
    and "\<And>u m n. f (u\<lparr>mem8 := m, used_pages := n\<rparr>) = f u"
  shows "f t = f s"
  using pmm_frame_record [OF assms(1)] assms(2) by metis

lemma bitmap_set_frame: "n < total_pages s \<Longrightarrow> pmm_frame s (bitmap_set n s)"
  by (auto simp: pmm_frame_def bitmap_set_def bitmap_cells_def Let_def)

lemma bitmap_clear_frame: "n < total_pages s \<Longrightarrow> pmm_frame s (bitmap_clear n s)"
  by (auto simp: pmm_frame_def bitmap_clear_def bitmap_cells_def Let_def)

lemma pmm_frame_used [simp]: "pmm_frame s (t\<lparr>used_pages := u\<rparr>) = pmm_frame s t"
  by (simp add: pmm_frame_def)

subsection \<open>The set of free pages\<close>

definition free_pfns :: "'a pmm_scheme \<Rightarrow> u64 set" where
  "free_pfns s = {n. n < total_pages s \<and> \<not> bitmap_test n s}"

definition used_pfns :: "'a pmm_scheme \<Rightarrow> u64 set" where
  "used_pfns s = {n. n < total_pages s \<and> bitmap_test n s}"

text \<open>
  The invariant: page addresses do not overflow, and the counter counts the set bits below
  \<open>total_pages\<close>.
\<close>

definition pmm_ok :: "'a pmm_scheme \<Rightarrow> bool" where
  "pmm_ok s \<longleftrightarrow> unat (total_pages s) \<le> 2 ^ 52 \<and> unat (used_pages s) = card (used_pfns s)"

lemma finite_pfns [simp]: "finite (free_pfns s)" "finite (used_pfns s)"
  by simp_all

lemma pfns_partition: "card (free_pfns s) + card (used_pfns s) = unat (total_pages s)"
proof -
  have "free_pfns s \<union> used_pfns s = {m. m < total_pages s}" "free_pfns s \<inter> used_pfns s = {}"
    by (auto simp: free_pfns_def used_pfns_def)
  then have "card (free_pfns s) + card (used_pfns s) = card {m. m < total_pages s}"
    by (metis card_Un_disjoint finite_pfns)
  then show ?thesis by (simp add: card_below_word)
qed

subsection \<open>Taking and returning a page\<close>

definition pmm_take :: "u64 \<Rightarrow> 'a pmm_scheme \<Rightarrow> 'a pmm_scheme" where
  "pmm_take n s = (bitmap_set n s)\<lparr>used_pages := used_pages s + 1\<rparr>"

definition pmm_give :: "u64 \<Rightarrow> 'a pmm_scheme \<Rightarrow> 'a pmm_scheme" where
  "pmm_give n s = (bitmap_clear n s)\<lparr>used_pages := used_pages s - 1\<rparr>"

lemma pmm_take_give_fields [simp]:
  "total_pages (pmm_take n s) = total_pages s" "total_pages (pmm_give n s) = total_pages s"
  "bitmap_test m (pmm_take n s) \<longleftrightarrow> m = n \<or> bitmap_test m s"
  "bitmap_test m (pmm_give n s) \<longleftrightarrow> m \<noteq> n \<and> bitmap_test m s"
  "used_pages (pmm_take n s) = used_pages s + 1" "used_pages (pmm_give n s) = used_pages s - 1"
  by (simp_all add: pmm_take_def pmm_give_def)

lemma pmm_take_sets:
  assumes "n \<in> free_pfns s"
  shows "free_pfns (pmm_take n s) = free_pfns s - {n}" "used_pfns (pmm_take n s) = insert n (used_pfns s)"
  using assms by (auto simp: free_pfns_def used_pfns_def)

lemma pmm_give_sets:
  assumes "n \<in> used_pfns s"
  shows "free_pfns (pmm_give n s) = insert n (free_pfns s)" "used_pfns (pmm_give n s) = used_pfns s - {n}"
  using assms by (auto simp: free_pfns_def used_pfns_def)

lemma pmm_ok_bounds:
  assumes "pmm_ok s"
  shows "card (free_pfns s) + unat (used_pages s) = unat (total_pages s)"
    "unat (used_pages s) \<le> unat (total_pages s)" "unat (total_pages s) \<le> 2 ^ 52"
  using assms pfns_partition [of s] by (auto simp: pmm_ok_def)

lemma pmm_take_ok:
  assumes "pmm_ok s" and "n \<in> free_pfns s"
  shows "pmm_ok (pmm_take n s)"
proof -
  have "card (free_pfns s) \<noteq> 0" using assms(2) by auto
  then have "unat (used_pages s) + 1 < 2 ^ LENGTH(64)"
    using pmm_ok_bounds [OF assms(1)] by simp
  then have "unat (used_pages s + 1) = Suc (card (used_pfns s))"
    using assms(1) by (simp add: pmm_ok_def unat_word_ariths)
  moreover have "n \<notin> used_pfns s" using assms(2) by (simp add: free_pfns_def used_pfns_def)
  ultimately show ?thesis
    using assms by (simp add: pmm_ok_def pmm_take_sets)
qed

lemma pmm_give_ok:
  assumes "pmm_ok s" and "n \<in> used_pfns s"
  shows "pmm_ok (pmm_give n s)"
proof -
  have pos: "0 < unat (used_pages s)"
    using assms by (auto simp: pmm_ok_def card_gt_0_iff)
  then have "1 \<le> used_pages s" by (simp add: word_le_nat_alt)
  then have "unat (used_pages s - 1) = card (used_pfns s) - 1"
    using assms(1) by (simp add: pmm_ok_def unat_sub)
  then show ?thesis
    using assms by (simp add: pmm_ok_def pmm_give_sets)
qed

lemma pmm_take_frame: "n < total_pages s \<Longrightarrow> pmm_frame s (pmm_take n s)"
  by (simp add: pmm_take_def bitmap_set_frame)

lemma pmm_give_frame: "n < total_pages s \<Longrightarrow> pmm_frame s (pmm_give n s)"
  by (simp add: pmm_give_def bitmap_clear_frame)

subsection \<open>What the operations do\<close>

lemma pmm_alloc_from_spec:
  "pmm_alloc_from i s =
    (let avail = {n \<in> free_pfns s. i \<le> n} in
     if avail = {} then (0, s) else (Min avail * PAGE_SIZE, pmm_take (Min avail) s))"
proof (induction i s rule: pmm_alloc_from.induct)
  case (1 i s)
  consider "\<not> i < total_pages s" | "i < total_pages s" "\<not> bitmap_test i s" | "i < total_pages s" "bitmap_test i s"
    by blast
  then show ?case
  proof cases
    case 1
    then have "{n \<in> free_pfns s. i \<le> n} = {}" by (auto simp: free_pfns_def)
    with 1 show ?thesis by (subst pmm_alloc_from.simps) simp
  next
    case 2
    then have "i \<in> {n \<in> free_pfns s. i \<le> n}" by (simp add: free_pfns_def)
    moreover from this have "Min {n \<in> free_pfns s. i \<le> n} = i" by (intro Min_eqI) auto
    ultimately show ?thesis
      using 2 by (subst pmm_alloc_from.simps) (auto simp: pmm_take_def Let_def)
  next
    case 3
    have "i + 1 \<le> n \<longleftrightarrow> i < n" if "n < total_pages s" for n
      using unat_Suc_below [OF 3(1)] by (simp add: word_le_nat_alt word_less_nat_alt Suc_le_eq)
    then have "{n \<in> free_pfns s. i + 1 \<le> n} = {n \<in> free_pfns s. i \<le> n}"
      using 3 by (auto simp: free_pfns_def order_le_less)
    then show ?thesis
      using 3 "1.IH" by (subst pmm_alloc_from.simps) simp
  qed
qed

lemma pmm_alloc_page_spec:
  "pmm_alloc_page s =
    (if free_pfns s = {} then (0, s)
     else (Min (free_pfns s) * PAGE_SIZE, pmm_take (Min (free_pfns s)) s))"
  by (simp add: pmm_alloc_page_def pmm_alloc_from_spec Let_def)

lemma pmm_free_page_spec:
  "pmm_free_page p s = (if p div PAGE_SIZE \<in> used_pfns s then pmm_give (p div PAGE_SIZE) s else s)"
  by (auto simp: pmm_free_page_def used_pfns_def pmm_give_def Let_def)

lemma Min_free_pfns: "free_pfns s \<noteq> {} \<Longrightarrow> Min (free_pfns s) \<in> free_pfns s"
  by (rule Min_in) simp_all

lemma free_pfns_less: "n \<in> free_pfns s \<Longrightarrow> n < total_pages s"
  by (simp add: free_pfns_def)

lemma pmm_alloc_page_frame: "pmm_frame s (snd (pmm_alloc_page s))"
  by (simp add: pmm_alloc_page_spec pmm_take_frame free_pfns_less Min_free_pfns)

lemma pmm_free_page_frame: "pmm_frame s (pmm_free_page p s)"
  by (auto simp: pmm_free_page_spec used_pfns_def intro!: pmm_give_frame)

lemma pmm_alloc_page_ok: "pmm_ok s \<Longrightarrow> pmm_ok (snd (pmm_alloc_page s))"
  by (simp add: pmm_alloc_page_spec pmm_take_ok Min_free_pfns)

lemma pmm_free_page_ok: "pmm_ok s \<Longrightarrow> pmm_ok (pmm_free_page p s)"
  by (simp add: pmm_free_page_spec pmm_give_ok)

text \<open>Page addresses: \<open>n * PAGE_SIZE\<close> does not overflow below \<open>2 ^ 52\<close>.\<close>

lemma page_addr_unat: "unat n < 2 ^ 52 \<Longrightarrow> unat (n * PAGE_SIZE) = unat n * 4096"
  by (subst unat_mult_exact) (simp_all add: PAGE_SIZE_def)

lemma page_addr_div: "unat n < 2 ^ 52 \<Longrightarrow> n * PAGE_SIZE div PAGE_SIZE = n"
  by (simp add: word_unat_eq_iff unat_div_distrib page_addr_unat PAGE_SIZE_def [THEN arg_cong, of unat])

lemma page_addr_inj: "unat n < 2 ^ 52 \<Longrightarrow> unat m < 2 ^ 52 \<Longrightarrow> n * PAGE_SIZE = m * PAGE_SIZE \<longleftrightarrow> n = m"
  by (metis page_addr_div)

lemma pmm_ok_pfn: "pmm_ok s \<Longrightarrow> n < total_pages s \<Longrightarrow> unat n < 2 ^ 52"
  by (simp add: pmm_ok_def word_less_nat_alt)

subsection \<open>The allocator as a page pool\<close>

definition page_of :: "u64 \<Rightarrow> u64" where "page_of n = n * PAGE_SIZE"

definition free_pages :: "'a pmm_scheme \<Rightarrow> u64 set" where
  "free_pages s = page_of ` free_pfns s"

definition used_page_set :: "'a pmm_scheme \<Rightarrow> u64 set" where
  "used_page_set s = page_of ` used_pfns s"

lemma page_of_div: "pmm_ok s \<Longrightarrow> n < total_pages s \<Longrightarrow> page_of n div PAGE_SIZE = n"
  unfolding page_of_def by (rule page_addr_div [OF pmm_ok_pfn])

lemma page_of_inj: "pmm_ok s \<Longrightarrow> inj_on page_of {n. n < total_pages s}"
  by (rule inj_on_inverseI [of _ "\<lambda>p. p div PAGE_SIZE"]) (simp add: page_of_div)

lemma page_of_zero: "pmm_ok s \<Longrightarrow> n < total_pages s \<Longrightarrow> page_of n = 0 \<longleftrightarrow> n = 0"
  using page_addr_inj [of n 0] pmm_ok_pfn [of s n] by (simp add: page_of_def)

lemma page_of_aligned: "unat n < 2 ^ 52 \<Longrightarrow> 4096 dvd unat (page_of n)"
  by (simp add: page_of_def page_addr_unat)

lemma free_pages_take:
  assumes "pmm_ok s" and "n \<in> free_pfns s"
  shows "free_pages (pmm_take n s) = free_pages s - {page_of n}"
proof -
  have "inj_on page_of (free_pfns s)"
    using page_of_inj [OF assms(1)] by (rule inj_on_subset) (auto simp: free_pfns_def)
  from inj_on_image_set_diff [OF this, of "free_pfns s" "{n}"] assms(2)
  show ?thesis by (simp add: free_pages_def pmm_take_sets)
qed

interpretation pool: page_pool pmm_alloc_page free_pages pmm_ok
proof
  fix s :: "'a pmm_scheme" and p
  assume ok: "pmm_ok s"
  show "pmm_ok (snd (pmm_alloc_page s))" using ok by (rule pmm_alloc_page_ok)
  show "free_pages (snd (pmm_alloc_page s)) = free_pages s - {fst (pmm_alloc_page s)}"
    using ok by (auto simp: pmm_alloc_page_spec free_pages_take Min_free_pfns page_of_def)
      (simp_all add: free_pages_def)
  show "fst (pmm_alloc_page s) \<in> free_pages s" if "fst (pmm_alloc_page s) \<noteq> 0"
    using that by (simp add: pmm_alloc_page_spec free_pages_def page_of_def Min_free_pfns split: if_splits)
  show "0 \<in> free_pages s \<or> free_pages s = {}" if "fst (pmm_alloc_page s) = 0"
    using that by (auto simp: pmm_alloc_page_spec free_pages_def page_of_def split: if_splits
        dest: sym intro!: image_eqI Min_free_pfns)
  show "4096 dvd unat p" if "p \<in> free_pages s"
    using that ok by (auto simp: free_pages_def intro!: page_of_aligned pmm_ok_pfn free_pfns_less)
qed

interpretation pool: returning_page_pool pmm_alloc_page free_pages pmm_ok pmm_free_page used_page_set
proof
  fix s :: "'a pmm_scheme" and p
  assume ok: "pmm_ok s"
  show "pmm_ok (pmm_free_page p s)" using ok by (rule pmm_free_page_ok)
  show "free_pages (pmm_free_page p s) = insert p (free_pages s)" if "p \<in> used_page_set s"
    using that ok
    by (auto simp: used_page_set_def pmm_free_page_spec free_pages_def pmm_give_sets used_pfns_def page_of_div)
  show "fst (pmm_alloc_page s) \<in> used_page_set (snd (pmm_alloc_page s))" if "fst (pmm_alloc_page s) \<noteq> 0"
    using that by (auto simp: pmm_alloc_page_spec used_page_set_def page_of_def pmm_take_sets Min_free_pfns
        split: if_splits)
qed

subsection \<open>Initialisation: the loops\<close>

definition entry_available :: "(u64 \<Rightarrow> u8) \<Rightarrow> u64 \<Rightarrow> bool" where
  "entry_available m e \<longleftrightarrow> entry_type m e = MULTIBOOT_MEMORY_AVAILABLE"

definition max_end :: "(u64 \<Rightarrow> u8) \<Rightarrow> u64 list \<Rightarrow> u64 \<Rightarrow> u64" where
  "max_end m es mx =
     fold (\<lambda>e mx. if entry_available m e then max mx (entry_addr m e + entry_len m e) else mx) es mx"

definition sum_len :: "(u64 \<Rightarrow> u8) \<Rightarrow> u64 list \<Rightarrow> u64" where
  "sum_len m es = sum_list (map (entry_len m) (filter (entry_available m) es))"

lemma max_end_Cons [simp]:
  "max_end m (e # es) mx =
     max_end m es (if entry_available m e then max mx (entry_addr m e + entry_len m e) else mx)"
  by (simp add: max_end_def)

lemma max_end_Nil [simp]: "max_end m [] mx = mx"
  by (simp add: max_end_def)

lemma max_end_ge: "mx \<le> max_end m es mx"
  by (induction es arbitrary: mx) (auto intro: order_trans [OF max.cobounded1])

lemma max_end_ge_entry:
  "e \<in> set es \<Longrightarrow> entry_available m e \<Longrightarrow> entry_addr m e + entry_len m e \<le> max_end m es mx"
proof (induction es arbitrary: mx)
  case Nil
  then show ?case by simp
next
  case (Cons x es)
  have "entry_addr m x + entry_len m x \<le> max_end m es (max mx (entry_addr m x + entry_len m x))"
    by (rule order_trans [OF max.cobounded2 max_end_ge])
  with Cons show ?case by auto
qed

lemma pmm_sum_regions_spec:
  assumes "entry_chain (mmap_limit (mem8 s) mmap) (mmap_step (mem8 s) mmap) e es"
  shows "pmm_sum_regions mmap e mx s =
    Some (max_end (mem8 s) es mx, s\<lparr>memory_size := memory_size s + sum_len (mem8 s) es\<rparr>)"
  using assms
proof (induction es arbitrary: e mx s)
  case Nil
  then show ?case
    by (subst pmm_sum_regions.simps) (simp add: mmap_limit_def sum_len_def)
next
  case (Cons x es)
  then have x: "x = e" "e < mmap_limit (mem8 s) mmap"
    "entry_chain (mmap_limit (mem8 s) mmap) (mmap_step (mem8 s) mmap) (e + mmap_step (mem8 s) mmap) es"
    by simp_all
  have "max mx (entry_addr (mem8 s) e + entry_len (mem8 s) e) =
      (if mx < entry_addr (mem8 s) e + entry_len (mem8 s) e
       then entry_addr (mem8 s) e + entry_len (mem8 s) e else mx)"
    by (auto simp: max_def)
  with x Cons.IH [of s "e + mmap_step (mem8 s) mmap"]
    Cons.IH [of "s\<lparr>memory_size := memory_size s + entry_len (mem8 s) e\<rparr>" "e + mmap_step (mem8 s) mmap"]
  show ?case
    by (subst pmm_sum_regions.simps)
      (simp add: mmap_limit_def mmap_step_def entry_available_def sum_len_def Let_def algebra_simps)
qed

lemma pmm_fill_bitmap_spec:
  "pmm_fill_bitmap n s = s\<lparr>mem8 := (\<lambda>a. if \<exists>j<n. a = bitmap s + j then 0xFF else mem8 s a)\<rparr>"
proof -
  let ?f = "\<lambda>i s. s\<lparr>mem8 := (mem8 s)(bitmap s + i := 0xFF)\<rparr> :: 'a pmm_scheme"
  let ?P = "\<lambda>k t. t = s\<lparr>mem8 := (\<lambda>a. if \<exists>j. unat j < k \<and> a = bitmap s + j then 0xFF else mem8 s a)\<rparr>"
  have "?P (unat n) (for_u64 0 n ?f s)"
  proof (rule for_u64_rule [where P = ?P])
    show "?P (unat (0::u64)) s" by simp
    fix k t assume k: "k < unat n" and IH: "?P k t"
    let ?i = "word_of_nat k :: u64"
    have "unat ?i = k" using k by (rule unat_of_nat_below)
    then have "unat j < Suc k \<longleftrightarrow> unat j < k \<or> j = ?i" for j
      by (auto simp: less_Suc_eq word_unat_eq_iff)
    then show "?P (Suc k) (?f ?i t)"
      unfolding IH by (auto simp: fun_eq_iff intro!: arg_cong [where f = "\<lambda>m. s\<lparr>mem8 := m\<rparr>"])
  qed simp
  then show ?thesis by (simp add: pmm_fill_bitmap_def word_less_nat_alt)
qed

lemma pmm_release_give: "pmm_release n s = (if bitmap_test n s then pmm_give n s else s)"
  by (simp add: pmm_release_def pmm_give_def Let_def)

text \<open>Pages \<open>lo\<close> up to \<open>hi\<close> are given back; what else is set stays set.\<close>

lemma pmm_release_loop:
  assumes "pmm_ok s" and fits: "unat start + unat num \<le> unat (total_pages s)"
  defines "t \<equiv> for_u64 0 num (\<lambda>i. pmm_release (start + i)) s"
  shows "pmm_ok t \<and> pmm_frame s t \<and>
    (\<forall>n. bitmap_test n t \<longleftrightarrow> bitmap_test n s \<and> \<not> (unat start \<le> unat n \<and> unat n < unat start + unat num))"
proof -
  let ?P = "\<lambda>k t. pmm_ok t \<and> pmm_frame s t \<and>
    (\<forall>n. bitmap_test n t \<longleftrightarrow> bitmap_test n s \<and> \<not> (unat start \<le> unat n \<and> unat n < unat start + k))"
  have "?P (unat num) (for_u64 0 num (\<lambda>i. pmm_release (start + i)) s)"
  proof (rule for_u64_rule [where P = ?P])
    show "?P (unat (0::u64)) s" using assms(1) by auto
    fix k t assume k: "k < unat num" and IH: "?P k t"
    let ?n = "start + word_of_nat k"
    have "unat (total_pages s) \<le> 2 ^ 52" using assms(1) by (simp add: pmm_ok_def)
    then have "unat start + unat (word_of_nat k :: u64) < 2 ^ LENGTH(64)"
      using k fits by (simp only: unat_of_nat_below [OF k]) simp
    from unat_add_exact [OF this] have n: "unat ?n = unat start + k"
      using unat_of_nat_below [OF k] by linarith
    have tp: "total_pages t = total_pages s" using IH by (simp add: pmm_frame_def)
    then have lt: "?n < total_pages t" using n k fits by (simp add: word_less_nat_alt)
    have "unat m < unat start + Suc k \<longleftrightarrow> unat m < unat start + k \<or> m = ?n" for m
      using n by (auto simp: less_Suc_eq word_unat_eq_iff)
    moreover have "pmm_ok (pmm_release ?n t) \<and> pmm_frame s (pmm_release ?n t)"
      using IH lt by (auto simp: pmm_release_give used_pfns_def intro!: pmm_give_ok
          elim: pmm_frame_trans [OF _ pmm_give_frame])
    moreover have "bitmap_test m (pmm_release ?n t) \<longleftrightarrow> m \<noteq> ?n \<and> bitmap_test m t" for m
      by (auto simp: pmm_release_give)
    ultimately show "?P (Suc k) (pmm_release ?n t)"
      using IH n by auto
  qed simp
  then show ?thesis by (simp add: t_def)
qed

lemma pmm_reserve_take: "pmm_reserve n s = (if n \<in> free_pfns s then pmm_take n s else s)"
  by (simp add: pmm_reserve_def pmm_take_def free_pfns_def Let_def)

lemma pmm_reserve_loop:
  assumes "pmm_ok s" and "unat lo \<le> unat hi"
  defines "t \<equiv> for_u64 lo hi pmm_reserve s"
  shows "pmm_ok t \<and> pmm_frame s t \<and>
    (\<forall>n<total_pages s. bitmap_test n t \<longleftrightarrow> bitmap_test n s \<or> (unat lo \<le> unat n \<and> unat n < unat hi))"
proof -
  let ?P = "\<lambda>k t. pmm_ok t \<and> pmm_frame s t \<and>
    (\<forall>n<total_pages s. bitmap_test n t \<longleftrightarrow> bitmap_test n s \<or> (unat lo \<le> unat n \<and> unat n < k))"
  have "?P (unat hi) (for_u64 lo hi pmm_reserve s)"
  proof (rule for_u64_rule [where P = ?P])
    show "?P (unat lo) s" using assms(1) by auto
    fix k t assume k: "unat lo \<le> k" "k < unat hi" and IH: "?P k t"
    let ?n = "word_of_nat k :: u64"
    have n: "unat ?n = k" using k(2) by (rule unat_of_nat_below)
    have tp: "total_pages t = total_pages s" using IH by (simp add: pmm_frame_def)
    have "unat m < Suc k \<longleftrightarrow> unat m < k \<or> m = ?n" for m
      using n by (auto simp: less_Suc_eq word_unat_eq_iff)
    moreover have "pmm_ok (pmm_reserve ?n t) \<and> pmm_frame s (pmm_reserve ?n t)"
      using IH by (auto simp: pmm_reserve_take free_pfns_less intro!: pmm_take_ok
          elim: pmm_frame_trans [OF _ pmm_take_frame])
    moreover have "bitmap_test m (pmm_reserve ?n t) \<longleftrightarrow> m = ?n \<or> bitmap_test m t" if "m < total_pages s" for m
      using that tp by (auto simp: pmm_reserve_take free_pfns_def)
    ultimately show "?P (Suc k) (pmm_reserve ?n t)"
      using IH n k by auto
  qed (use assms in simp)
  then show ?thesis by (simp add: t_def)
qed

text \<open>The bytes of the memory map that the second walk reads.\<close>

definition mmap_bytes :: "u64 \<Rightarrow> u64 list \<Rightarrow> u64 set" where
  "mmap_bytes mmap es =
     (\<lambda>k. mmap + word_of_nat k) ` {..<16} \<union> (\<Union>e\<in>set es. (\<lambda>k. e + word_of_nat k) ` {..<24})"

lemma load_le_cong:
  "(\<And>k. k < n \<Longrightarrow> m (a + word_of_nat k) = m' (a + word_of_nat k)) \<Longrightarrow> load_le n m a = load_le n m' a"
  unfolding load_le_def by (rule arg_cong [where f = sum_list]) simp

lemma mmap_reads_agree:
  assumes "\<And>a. a \<in> mmap_bytes mmap es \<Longrightarrow> m' a = m a"
  shows "tag_size m' mmap = tag_size m mmap" "mmap_entry_size m' mmap = mmap_entry_size m mmap"
    "e \<in> set es \<Longrightarrow> entry_type m' e = entry_type m e"
    "e \<in> set es \<Longrightarrow> entry_addr m' e = entry_addr m e"
    "e \<in> set es \<Longrightarrow> entry_len m' e = entry_len m e"
proof -
  have h: "m' (mmap + word_of_nat (j + k)) = m (mmap + word_of_nat (j + k))" if "j + k < 16" for j k
    unfolding mmap_bytes_def using that
    by (intro assms) (auto simp only: mmap_bytes_def lessThan_iff intro!: UnI1 image_eqI [of _ _ "j + k"])
  have e: "m' (e + word_of_nat (j + k)) = m (e + word_of_nat (j + k))" if "e \<in> set es" "j + k < 24" for e j k
    using that
    by (intro assms) (auto simp only: mmap_bytes_def lessThan_iff intro!: UnI2 UN_I [of e] image_eqI [of _ _ "j + k"])
  show "tag_size m' mmap = tag_size m mmap" "mmap_entry_size m' mmap = mmap_entry_size m mmap"
    using h [of 4] h [of 8]
    by (auto simp: tag_size_def mmap_entry_size_def load32_def add.assoc intro!: load_le_cong)
  show "e \<in> set es \<Longrightarrow> entry_type m' e = entry_type m e"
    "e \<in> set es \<Longrightarrow> entry_addr m' e = entry_addr m e"
    "e \<in> set es \<Longrightarrow> entry_len m' e = entry_len m e"
    using e [of e 0] e [of e 8] e [of e 16]
    by (auto simp: entry_type_def entry_addr_def entry_len_def load32_def load64_def add.assoc
        intro!: load_le_cong)
qed

text \<open>The pages the code takes a region to cover: both ends rounded down separately.\<close>

definition in_region :: "(u64 \<Rightarrow> u8) \<Rightarrow> u64 \<Rightarrow> u64 \<Rightarrow> bool" where
  "in_region m e n \<longleftrightarrow> entry_available m e \<and>
     unat (entry_addr m e) div 4096 \<le> unat n \<and>
     unat n < unat (entry_addr m e) div 4096 + unat (entry_len m e) div 4096"

lemma pmm_release_region_spec:
  assumes "pmm_ok s"
    and "entry_available (mem8 s) e \<Longrightarrow>
      unat (entry_addr (mem8 s) e) div 4096 + unat (entry_len (mem8 s) e) div 4096 \<le> unat (total_pages s)"
  shows "pmm_ok (pmm_release_region e s) \<and> pmm_frame s (pmm_release_region e s) \<and>
    (\<forall>n. bitmap_test n (pmm_release_region e s) \<longleftrightarrow> bitmap_test n s \<and> \<not> in_region (mem8 s) e n)"
proof (cases "entry_available (mem8 s) e")
  case True
  have d: "unat (x div PAGE_SIZE) = unat x div 4096" for x
    by (simp add: unat_div_distrib PAGE_SIZE_def)
  from True assms show ?thesis
    using pmm_release_loop [OF assms(1), of "entry_addr (mem8 s) e div PAGE_SIZE" "entry_len (mem8 s) e div PAGE_SIZE"]
    by (simp add: pmm_release_region_def entry_available_def in_region_def d Let_def)
next
  case False
  then show ?thesis using assms
    by (simp add: pmm_release_region_def entry_available_def in_region_def)
qed

lemma pmm_free_regions_spec:
  assumes "entry_chain (mmap_limit m mmap) (mmap_step m mmap) e es"
    and "pmm_ok s" and "\<And>a. a \<in> mmap_bytes mmap all \<Longrightarrow> mem8 s a = m a"
    and "mmap_bytes mmap all \<inter> bitmap_cells s = {}" and "set es \<subseteq> set all"
    and "\<And>x. x \<in> set es \<Longrightarrow> entry_available m x \<Longrightarrow>
      unat (entry_addr m x) div 4096 + unat (entry_len m x) div 4096 \<le> unat (total_pages s)"
  shows "\<exists>t. pmm_free_regions mmap e s = Some t \<and> pmm_ok t \<and> pmm_frame s t \<and>
    (\<forall>n. bitmap_test n t \<longleftrightarrow> bitmap_test n s \<and> (\<forall>x\<in>set es. \<not> in_region m x n))"
  using assms
proof (induction es arbitrary: e s)
  case Nil
  note reads = mmap_reads_agree [of mmap all "mem8 s" m, OF Nil.prems(3)]
  from Nil.prems(1) have "\<not> e < mmap + ucast (tag_size m mmap)" by (simp add: mmap_limit_def)
  then show ?case
    using Nil.prems(2) reads(1) by (subst pmm_free_regions.simps) simp
next
  case (Cons x es)
  note reads = mmap_reads_agree [of mmap all "mem8 s" m, OF Cons.prems(3)]
  let ?t = "pmm_release_region x s"
  have x: "x = e" "e < mmap_limit m mmap" "x \<in> set all"
    "entry_chain (mmap_limit m mmap) (mmap_step m mmap) (e + mmap_step m mmap) es"
    using Cons.prems(1,5) by simp_all
  have same: "entry_available (mem8 s) x = entry_available m x" "in_region (mem8 s) x n = in_region m x n" for n
    using reads x(3) by (simp_all add: entry_available_def in_region_def)
  have rel: "pmm_ok ?t" "pmm_frame s ?t"
    "\<And>n. bitmap_test n ?t \<longleftrightarrow> bitmap_test n s \<and> \<not> in_region m x n"
    using pmm_release_region_spec [OF Cons.prems(2), of x] Cons.prems(6) [of x] reads x(3) same by auto
  have mem: "mem8 ?t a = m a" if "a \<in> mmap_bytes mmap all" for a
    using that rel(2) Cons.prems(3,4) by (fastforce simp: pmm_frame_def)
  have cells: "bitmap_cells ?t = bitmap_cells s" "total_pages ?t = total_pages s"
    using rel(2) pmm_frame_cells by (auto simp: pmm_frame_def)
  note step = mmap_reads_agree [of mmap all "mem8 ?t" m, OF mem]
  have "pmm_free_regions mmap e s = pmm_free_regions mmap (e + mmap_step m mmap) ?t"
    using x reads(1) step(2)
    by (subst pmm_free_regions.simps) (simp add: mmap_limit_def mmap_step_def Let_def)
  moreover have "\<exists>u. pmm_free_regions mmap (e + mmap_step m mmap) ?t = Some u \<and> pmm_ok u \<and> pmm_frame ?t u \<and>
    (\<forall>n. bitmap_test n u \<longleftrightarrow> bitmap_test n ?t \<and> (\<forall>x\<in>set es. \<not> in_region m x n))"
    using x(4) rel(1) mem Cons.prems(4-6) cells by (intro Cons.IH) auto
  ultimately show ?case
    using rel(2,3) by (auto elim: pmm_frame_trans)
qed

text \<open>What the whole initialisation needs of the memory map and of the link.\<close>

definition init_pages :: "(u64 \<Rightarrow> u8) \<Rightarrow> u64 list \<Rightarrow> u64" where
  "init_pages m es = max_end m es 0 div PAGE_SIZE"

definition bitmap_bytes :: "u64 \<Rightarrow> u64" where
  "bitmap_bytes pages = (pages + 7) div 8"

definition memory_map_ok :: "(u64 \<Rightarrow> u8) \<Rightarrow> u64 \<Rightarrow> u64 \<Rightarrow> u64 list \<Rightarrow> bool" where
  "memory_map_ok m mmap kernel_end es \<longleftrightarrow> mmap \<noteq> 0 \<and>
     entry_chain (mmap_limit m mmap) (mmap_step m mmap) (mmap_entries mmap) es \<and>
     (\<forall>e\<in>set es. entry_available m e \<longrightarrow> unat (entry_addr m e) + unat (entry_len m e) < 2 ^ 64) \<and>
     (\<forall>j<bitmap_bytes (init_pages m es). kernel_end + j \<notin> mmap_bytes mmap es) \<and>
     0x100000 \<le> unat kernel_end \<and> unat kernel_end < 2 ^ 63"

text \<open>The frames that hold the kernel image and, after it, the bitmap, as the code counts them.\<close>

definition reserved_pfn :: "u64 \<Rightarrow> u64 \<Rightarrow> u64 \<Rightarrow> bool" where
  "reserved_pfn kernel_end pages n \<longleftrightarrow> 256 \<le> unat n \<and>
     unat n < 256 + (unat kernel_end - 0x100000 + 4095) div 4096 + (unat (bitmap_bytes pages) + 4095) div 4096"

lemma unat_div_num: "unat (x div numeral k) = unat x div unat (numeral k :: u64)" for x :: u64
  by (rule unat_div_distrib)

lemma init_pages_bound: "unat (init_pages m es) \<le> 2 ^ 52 - 1"
  using unsigned_less [of "max_end m es 0", where 'a = nat]
  by (simp add: init_pages_def unat_div_distrib PAGE_SIZE_def)

lemma region_fits:
  assumes "memory_map_ok m mmap ke es" "e \<in> set es" "entry_available m e"
  shows "unat (entry_addr m e) div 4096 + unat (entry_len m e) div 4096 \<le> unat (init_pages m es)"
proof -
  have sum: "unat (entry_addr m e) + unat (entry_len m e) < 2 ^ LENGTH(64)"
    using assms by (simp add: memory_map_ok_def)
  have "unat (entry_addr m e + entry_len m e) \<le> unat (max_end m es 0)"
    using max_end_ge_entry [OF assms(2,3)] by (simp add: word_le_nat_alt)
  then have "unat (entry_addr m e) + unat (entry_len m e) \<le> unat (max_end m es 0)"
    by (simp only: unat_add_exact [OF sum])
  then have le: "(unat (entry_addr m e) + unat (entry_len m e)) div 4096 \<le> unat (max_end m es 0) div 4096"
    by (rule div_le_mono)
  have floor: "a div 4096 + b div 4096 \<le> (a + b) div 4096" for a b :: nat by (simp add: div_add1_eq [of a b])
  have pages: "unat (init_pages m es) = unat (max_end m es 0) div 4096"
    by (simp only: init_pages_def PAGE_SIZE_def unat_div_distrib) simp
  show ?thesis unfolding pages by (rule order_trans [OF floor le])
qed

lemma unat_bitmap_bytes: "unat p \<le> 2 ^ 52 - 1 \<Longrightarrow> unat (bitmap_bytes p) = (unat p + 7) div 8"
  by (simp add: bitmap_bytes_def unat_div_distrib unat_word_ariths)

lemma bitmap_cell_below:
  assumes "unat p \<le> 2 ^ 52 - 1" "n < p"
  shows "n div 8 < bitmap_bytes p"
  using assms by (simp add: word_less_nat_alt unat_bitmap_bytes unat_div_distrib)

lemma round_up_pages:
  assumes "unat x + 4095 < 2 ^ 64"
  shows "unat ((x + PAGE_SIZE - 1) div PAGE_SIZE) = (unat x + 4095) div 4096"
proof -
  have eq: "x + PAGE_SIZE - 1 = x + 4095" by (simp add: PAGE_SIZE_def)
  have val: "unat (x + 4095) = unat x + 4095"
    using assms by (subst unat_add_exact) simp_all
  show ?thesis by (simp only: eq val unat_div_distrib) (simp add: PAGE_SIZE_def)
qed

lemma reserved_end:
  assumes "0x100000 \<le> unat ke" "unat ke < 2 ^ 63" "unat pages \<le> 2 ^ 52 - 1"
  shows "unat (KERNEL_START div PAGE_SIZE + (ke - KERNEL_START + PAGE_SIZE - 1) div PAGE_SIZE +
      (bitmap_bytes pages + PAGE_SIZE - 1) div PAGE_SIZE) =
    256 + (unat ke - 0x100000 + 4095) div 4096 + (unat (bitmap_bytes pages) + 4095) div 4096"
proof -
  have B: "unat (bitmap_bytes pages) \<le> 2 ^ 50" using assms(3) by (simp add: unat_bitmap_bytes)
  have "KERNEL_START \<le> ke" using assms(1) by (simp add: KERNEL_START_def word_le_nat_alt)
  then have "unat (ke - KERNEL_START) = unat ke - 0x100000"
    by (simp add: unat_sub_exact) (simp add: KERNEL_START_def)
  then have a: "unat ((ke - KERNEL_START + PAGE_SIZE - 1) div PAGE_SIZE) = (unat ke - 0x100000 + 4095) div 4096"
    using assms(2) by (subst round_up_pages) simp_all
  have b: "unat ((bitmap_bytes pages + PAGE_SIZE - 1) div PAGE_SIZE) = (unat (bitmap_bytes pages) + 4095) div 4096"
    using B by (subst round_up_pages) simp_all
  have c: "unat (KERNEL_START div PAGE_SIZE) = 256"
    by (simp add: KERNEL_START_def PAGE_SIZE_def)
  have "(unat ke - 0x100000 + 4095) div 4096 \<le> 2 ^ 51" "(unat (bitmap_bytes pages) + 4095) div 4096 \<le> 2 ^ 50"
    using assms(2) B by simp_all
  then show ?thesis
    using a b c by (simp add: unat_add_exact)
qed

subsection \<open>Properties\<close>

text \<open>After the fill every frame is marked used.\<close>

lemma full_bitmap:
  assumes P: "unat pages \<le> 2 ^ 52 - 1" and s: "total_pages s = pages" "used_pages s = pages"
    and m: "mem8 s = (\<lambda>a. if \<exists>j<bitmap_bytes pages. a = bitmap s + j then 0xFF else m a)"
  shows "pmm_ok s" "n < pages \<Longrightarrow> bitmap_test n s"
    "bitmap_cells s \<subseteq> {bitmap s + j |j. j < bitmap_bytes pages}"
proof -
  show set: "bitmap_test n s" if "n < pages" for n
  proof -
    have "mem8 s (bitmap s + n div 8) = mask 8"
      unfolding m using bitmap_cell_below [OF P that] by (auto simp: mask_eq_exp_minus_1)
    then show ?thesis by (simp add: bitmap_test_bit bit_mask_iff)
  qed
  have "used_pfns s = {n. n < pages}" using set s by (auto simp: used_pfns_def)
  then show "pmm_ok s" using P by (simp add: pmm_ok_def s card_below_word)
  show "bitmap_cells s \<subseteq> {bitmap s + j |j. j < bitmap_bytes pages}"
    using bitmap_cell_below [OF P] by (auto simp: bitmap_cells_def bitmap_cell_def s)
qed

lemma free_all_regions:
  assumes map: "memory_map_ok m (mmap_tag s) kernel_end es"
    and s: "total_pages s = init_pages m es" "used_pages s = init_pages m es" "bitmap s = kernel_end"
    and m: "mem8 s = (\<lambda>a. if \<exists>j<bitmap_bytes (init_pages m es). a = bitmap s + j then 0xFF else m a)"
  shows "\<exists>t. pmm_free_regions (mmap_tag s) (mmap_entries (mmap_tag s)) s = Some t \<and> pmm_ok t \<and> pmm_frame s t \<and>
    (\<forall>n. bitmap_test n t \<longleftrightarrow> bitmap_test n s \<and> (\<forall>x\<in>set es. \<not> in_region m x n))"
proof (rule pmm_free_regions_spec [where all = es and m = m])
  note full = full_bitmap [OF init_pages_bound s(1,2) m]
  let ?mm = "mmap_tag s"
  have disj: "mmap_bytes ?mm es \<inter> {kernel_end + j |j. j < bitmap_bytes (init_pages m es)} = {}"
    using map by (auto simp: memory_map_ok_def)
  show "entry_chain (mmap_limit m ?mm) (mmap_step m ?mm) (mmap_entries ?mm) es"
    using map by (simp add: memory_map_ok_def)
  show "mem8 s a = m a" if "a \<in> mmap_bytes ?mm es" for a
    unfolding m using that disj by (auto simp: s)
  show "mmap_bytes ?mm es \<inter> bitmap_cells s = {}" using disj full(3) by (auto simp: s(3))
  show "unat (entry_addr m x) div 4096 + unat (entry_len m x) div 4096 \<le> unat (total_pages s)"
    if "x \<in> set es" "entry_available m x" for x
    using region_fits [OF map that] by (simp add: s)
  show "pmm_ok s" by (rule full(1))
qed simp_all

lemma pmm_init_spec:
  assumes map: "memory_map_ok (mem8 s) (mmap_tag s) kernel_end es"
  defines "pages \<equiv> init_pages (mem8 s) es"
  shows "\<exists>t. pmm_init kernel_end s = Some t \<and> pmm_ok t \<and>
    total_pages t = pages \<and> bitmap t = kernel_end \<and> memory_size t = memory_size s + sum_len (mem8 s) es \<and>
    (\<forall>n<pages. bitmap_test n t \<longleftrightarrow>
       reserved_pfn kernel_end pages n \<or> (\<forall>e\<in>set es. \<not> in_region (mem8 s) e n)) \<and>
    (\<forall>a. (\<forall>j<bitmap_bytes pages. a \<noteq> kernel_end + j) \<longrightarrow> mem8 t a = mem8 s a) \<and> pmm.more t = pmm.more s"
proof -
  let ?m = "mem8 s" and ?mm = "mmap_tag s"
  define s0 where "s0 = vga_print (line ''[*] Initializing physical memory manager...'') VGA_COLOR_BROWN s"
  have s0 [simp]: "mem8 s0 = ?m" "mmap_tag s0 = ?mm" "memory_size s0 = memory_size s"
    by (simp_all add: s0_def)
  define s1 where "s1 = s0\<lparr>memory_size := memory_size s + sum_len ?m es, total_pages := pages, bitmap := kernel_end\<rparr>"
  define s2 where "s2 = (pmm_fill_bitmap (bitmap_bytes pages) s1)\<lparr>used_pages := pages\<rparr>"
  have P: "unat pages \<le> 2 ^ 52 - 1" unfolding pages_def by (rule init_pages_bound)
  have s2: "total_pages s2 = pages" "bitmap s2 = kernel_end" "used_pages s2 = pages" "mmap_tag s2 = ?mm"
    "memory_size s2 = memory_size s + sum_len ?m es"
    "mem8 s2 = (\<lambda>a. if \<exists>j<bitmap_bytes pages. a = kernel_end + j then 0xFF else ?m a)"
    by (simp_all add: s2_def pmm_fill_bitmap_spec s1_def cong: if_cong)
  have m2: "mem8 s2 = (\<lambda>a. if \<exists>j<bitmap_bytes pages. a = bitmap s2 + j then 0xFF else ?m a)"
    unfolding s2(2) by (rule s2(6))
  note full = full_bitmap [OF P s2(1,3) m2, unfolded s2(2)]
  obtain s3 where s3: "pmm_free_regions ?mm (mmap_entries ?mm) s2 = Some s3" "pmm_ok s3" "pmm_frame s2 s3"
    "\<And>n. bitmap_test n s3 \<longleftrightarrow> bitmap_test n s2 \<and> (\<forall>x\<in>set es. \<not> in_region ?m x n)"
    using free_all_regions [of ?m s2 kernel_end es] map s2(1-4) m2 unfolding pages_def by auto
  have tp3: "total_pages s3 = pages" "bitmap s3 = kernel_end" "memory_size s3 = memory_size s2"
    using s3(3) by (simp_all add: pmm_frame_def s2)
  let ?hi = "KERNEL_START div PAGE_SIZE + (kernel_end - KERNEL_START + PAGE_SIZE - 1) div PAGE_SIZE +
    (bitmap_bytes pages + PAGE_SIZE - 1) div PAGE_SIZE"
  have hi: "unat ?hi = 256 + (unat kernel_end - 0x100000 + 4095) div 4096 + (unat (bitmap_bytes pages) + 4095) div 4096"
    using map P by (intro reserved_end) (simp_all add: memory_map_ok_def)
  have lo: "unat (KERNEL_START div PAGE_SIZE) = 256"
    by (simp add: KERNEL_START_def PAGE_SIZE_def)
  define s4 where "s4 = for_u64 (KERNEL_START div PAGE_SIZE) ?hi pmm_reserve s3"
  have s4: "pmm_ok s4" "pmm_frame s3 s4"
    "\<And>n. n < pages \<Longrightarrow> bitmap_test n s4 \<longleftrightarrow> bitmap_test n s3 \<or> reserved_pfn kernel_end pages n"
    using pmm_reserve_loop [OF s3(2), of "KERNEL_START div PAGE_SIZE" ?hi] lo hi
    by (auto simp: s4_def tp3 reserved_pfn_def)
  have sum: "pmm_sum_regions ?mm (mmap_entries ?mm) 0 s0 =
      Some (max_end ?m es 0, s0\<lparr>memory_size := memory_size s + sum_len ?m es\<rparr>)"
    using map pmm_sum_regions_spec [of s0 ?mm] by (simp add: memory_map_ok_def)
  have free: "pmm_free_regions ?mm (mmap_entries ?mm) ((pmm_fill_bitmap ((max_end ?m es 0 div PAGE_SIZE + 7) div 8)
      (s0\<lparr>memory_size := memory_size s + sum_len ?m es, total_pages := max_end ?m es 0 div PAGE_SIZE,
          bitmap := kernel_end\<rparr>))\<lparr>used_pages := max_end ?m es 0 div PAGE_SIZE\<rparr>) = Some s3"
    using s3(1) by (simp only: s2_def s1_def pages_def init_pages_def bitmap_bytes_def)
  have "?mm \<noteq> 0" using map by (simp add: memory_map_ok_def)
  then have run: "pmm_init kernel_end s = Some (pmm_report s4)"
    using sum free
    by (simp add: pmm_init_def multiboot2_get_mmap_def Let_def s0_def [symmetric] pmm_fill_bitmap_spec
        s4_def pages_def init_pages_def bitmap_bytes_def)
  have rep: "vga_frame s4 (pmm_report s4)" by (simp add: pmm_report_def Let_def)
  note rep = vga_frame_pmm [OF rep] vga_frame_mem8 [OF rep]
  have "pmm.more s0 = pmm.more s" using vga_frame_pmm [of s s0] by (simp add: s0_def)
  then have "pmm.more s2 = pmm.more s" by (simp add: s2_def pmm_fill_bitmap_spec s1_def)
  then have more: "pmm.more (pmm_report s4) = pmm.more s" using rep s4(2) s3(3) by (simp add: pmm_frame_def)
  show ?thesis
  proof (intro exI conjI allI impI)
    show "pmm_init kernel_end s = Some (pmm_report s4)" by (rule run)
    show "pmm_ok (pmm_report s4)" using s4(1) rep by (simp add: pmm_ok_def used_pfns_def)
    show "total_pages (pmm_report s4) = pages" "bitmap (pmm_report s4) = kernel_end"
      "memory_size (pmm_report s4) = memory_size s + sum_len ?m es"
      using rep s4(2) tp3 s2 by (simp_all add: pmm_frame_def)
    show "pmm.more (pmm_report s4) = pmm.more s" by (rule more)
    show "bitmap_test n (pmm_report s4) \<longleftrightarrow>
        reserved_pfn kernel_end pages n \<or> (\<forall>e\<in>set es. \<not> in_region ?m e n)" if "n < pages" for n
      using that rep s4(3) s3(4) full(2) by auto
    show "mem8 (pmm_report s4) a = ?m a" if "\<forall>j<bitmap_bytes pages. a \<noteq> kernel_end + j" for a
    proof -
      have "a \<notin> bitmap_cells s2" using that full(3) by auto
      moreover have "bitmap_cells s3 = bitmap_cells s2" using s3(3) by (rule pmm_frame_cells)
      ultimately show ?thesis using that rep s4(2) s3(3) s2(6) by (auto simp: pmm_frame_def)
    qed
  qed
qed

definition demo_pmm :: pmm where
  "demo_pmm = multiboot.extend (multiboot.truncate (demo_multiboot\<lparr>mmap_tag := 24\<rparr>))
     \<lparr>bitmap = 0, total_pages = 0, used_pages = 0, memory_size = 0\<rparr>"

lemma demo_pmm_fields [simp]: "mem8 demo_pmm = demo_info" "mmap_tag demo_pmm = 24"
  by (simp_all add: demo_pmm_def multiboot.defs demo_multiboot_def)

lemma demo_map_pages: "init_pages demo_info [40] = 272" "bitmap_bytes 272 = 34"
  by code_simp+

lemma demo_entry: "entry_addr demo_info 40 = 0" "entry_len demo_info 40 = 0x110000"
  "entry_available demo_info 40"
  by code_simp+

lemma demo_mmap_outside: "j < 64 \<Longrightarrow> 0x101000 + j \<notin> mmap_bytes 24 [40]"
proof -
  have "unat a < 64" if "a \<in> mmap_bytes 24 [40]" for a
  proof -
    have small: "unat (x + word_of_nat k :: u64) < 64" if "unat x + k < 64" for k x
      using that by (subst unat_add_exact) (simp_all add: unat_of_nat)
    show ?thesis using that by (auto simp: mmap_bytes_def intro!: small)
  qed
  moreover assume "j < 64"
  then have "64 \<le> unat (0x101000 + j)"
    by (subst unat_add_exact) (simp_all add: word_less_nat_alt)
  ultimately show ?thesis by (metis not_le)
qed

lemma demo_map_ok: "memory_map_ok demo_info 24 0x101000 [40]"
proof -
  have chain: "entry_chain (mmap_limit demo_info 24) (mmap_step demo_info 24) (mmap_entries 24) [40]"
    by code_simp
  have "0x101000 + j \<notin> mmap_bytes 24 [40]" if "j < 34" for j :: u64
    using that by (intro demo_mmap_outside) (simp add: word_less_nat_alt)
  with chain show ?thesis by (auto simp: memory_map_ok_def demo_map_pages demo_entry)
qed

text \<open>
  Property C7. On a usable memory map the initialisation returns with the invariant in force. A
  page frame below the highest available address is in use exactly if it holds the kernel image or
  the bitmap, or if no available region covers it; the memory outside the bitmap is untouched.
\<close>

theorem pmm_init_correct:
  assumes map: "memory_map_ok (mem8 s) (mmap_tag s) kernel_end es"
  defines "pages \<equiv> init_pages (mem8 s) es"
  shows "\<exists>t. pmm_init kernel_end s = Some t \<and> pmm_ok t \<and>
    total_pages t = pages \<and> bitmap t = kernel_end \<and> memory_size t = memory_size s + sum_len (mem8 s) es \<and>
    (\<forall>n<pages. bitmap_test n t \<longleftrightarrow>
       reserved_pfn kernel_end pages n \<or> (\<forall>e\<in>set es. \<not> in_region (mem8 s) e n)) \<and>
    (\<forall>a. (\<forall>j<bitmap_bytes pages. a \<noteq> kernel_end + j) \<longrightarrow> mem8 t a = mem8 s a)"
  unfolding pages_def using pmm_init_spec [OF map] by blast

theorem pmm_init_correct_witness:
  "\<exists>t. pmm_init 0x101000 demo_pmm = Some t \<and> pmm_ok t \<and> total_pages t = 272 \<and>
     \<not> bitmap_test 0 t \<and> bitmap_test 256 t \<and> bitmap_test 257 t \<and> \<not> bitmap_test 258 t"
proof -
  have "in_region demo_info 40 n \<longleftrightarrow> unat n < 272" for n
    by (simp add: in_region_def demo_entry)
  moreover have "reserved_pfn 0x101000 272 n \<longleftrightarrow> 256 \<le> unat n \<and> unat n < 258" for n
    by (simp add: reserved_pfn_def demo_map_pages)
  ultimately show ?thesis
    using pmm_init_correct [of demo_pmm "0x101000" "[40]"] demo_map_ok
    by (auto simp: demo_map_pages)
qed

lemma demo_pmm_init:
  "\<exists>t. pmm_init 0x101000 demo_pmm = Some t \<and> pmm_ok t \<and> total_pages t = 272 \<and>
     \<not> bitmap_test 0 t \<and> bitmap_test 256 t \<and> bitmap_test 257 t \<and> \<not> bitmap_test 258 t"
proof -
  have "in_region demo_info 40 n \<longleftrightarrow> unat n < 272" for n
    by (simp add: in_region_def demo_entry)
  moreover have "reserved_pfn 0x101000 272 n \<longleftrightarrow> 256 \<le> unat n \<and> unat n < 258" for n
    by (simp add: reserved_pfn_def demo_map_pages)
  ultimately show ?thesis
    using pmm_init_spec [of demo_pmm "0x101000" "[40]"] demo_map_ok
    by (auto simp: demo_map_pages)
qed

text \<open>
  After initialisation no frame that holds a byte of the kernel image, from 1 MiB up,
  or of the bitmap that follows it is free to be handed out.
\<close>

theorem pmm_init_protects_kernel:
  assumes "memory_map_ok (mem8 s) (mmap_tag s) kernel_end es"
    and "pmm_init kernel_end s = Some t"
    and "0x100000 \<le> a" and "a < unat kernel_end + unat (bitmap_bytes (init_pages (mem8 s) es))"
  shows "word_of_nat (a div 4096) \<notin> free_pfns t"
proof
  let ?p = "init_pages (mem8 s) es" and ?n = "word_of_nat (a div 4096) :: u64"
  assume free: "?n \<in> free_pfns t"
  from pmm_init_spec [OF assms(1)] assms(2) have t: "total_pages t = ?p"
    "\<And>n. n < ?p \<Longrightarrow> reserved_pfn kernel_end ?p n \<Longrightarrow> bitmap_test n t" by auto
  have ke: "0x100000 \<le> unat kernel_end" "unat kernel_end < 2 ^ 63"
    using assms(1) by (simp_all add: memory_map_ok_def)
  have "unat (bitmap_bytes ?p) \<le> 2 ^ 50"
    using init_pages_bound [of "mem8 s" es] by (simp add: unat_bitmap_bytes)
  then have "a div 4096 < 2 ^ LENGTH(64)" using assms(4) ke by simp
  then have n: "unat ?n = a div 4096" by (simp only: unat_of_nat mod_less)
  have "a < 0x100000 + (unat kernel_end - 0x100000) + unat (bitmap_bytes ?p)" using assms(4) ke by simp
  then have "a div 4096 < 256 + (unat kernel_end - 0x100000 + 4095) div 4096 + (unat (bitmap_bytes ?p) + 4095) div 4096"
    by linarith
  moreover have "256 \<le> a div 4096" using assms(3) by simp
  ultimately have "reserved_pfn kernel_end ?p ?n" by (simp only: reserved_pfn_def n)
  moreover have "?n < ?p" "\<not> bitmap_test ?n t" using free t(1) by (simp_all add: free_pfns_def)
  ultimately show False using t(2) by blast
qed

theorem pmm_init_protects_kernel_witness:
  "\<exists>t. pmm_init 0x101000 demo_pmm = Some t \<and> 256 \<notin> free_pfns t"
proof -
  obtain t where t: "pmm_init 0x101000 demo_pmm = Some t"
    using demo_pmm_init by blast
  then have "word_of_nat (0x100000 div 4096) \<notin> free_pfns t"
    using demo_map_ok by (intro pmm_init_protects_kernel [of demo_pmm "0x101000" "[40]"]) (simp_all add: demo_map_pages)
  with t show ?thesis by auto
qed

text \<open>
  Property C26. Allocation is first fit and exact: with a free page it returns the address of the
  lowest one, which alone becomes used, and counts it; without one it returns 0 and changes
  nothing. Only bitmap bytes and the counter are written.
\<close>

theorem pmm_alloc_lowest:
  "if free_pfns s = {} then pmm_alloc_page s = (0, s)
   else (\<exists>t. pmm_alloc_page s = (Min (free_pfns s) * PAGE_SIZE, t) \<and>
     free_pfns t = free_pfns s - {Min (free_pfns s)} \<and>
     used_pages t = used_pages s + 1 \<and> pmm_frame s t)"
  by (simp add: pmm_alloc_page_spec pmm_take_sets pmm_take_frame free_pfns_less Min_free_pfns)

text \<open>Any sequence of allocations and releases.\<close>

datatype pmm_op = Alloc | Free u64

fun pmm_step :: "pmm_op \<Rightarrow> 'a pmm_scheme \<Rightarrow> 'a pmm_scheme" where
  "pmm_step Alloc s = snd (pmm_alloc_page s)"
| "pmm_step (Free p) s = pmm_free_page p s"

definition pmm_run :: "pmm_op list \<Rightarrow> 'a pmm_scheme \<Rightarrow> 'a pmm_scheme" where
  "pmm_run ops s = fold pmm_step ops s"

lemma pmm_step_keeps:
  "pmm_ok s \<Longrightarrow> pmm_ok (pmm_step a s) \<and> pmm_frame s (pmm_step a s)"
  by (cases a) (simp_all add: pmm_alloc_page_ok pmm_free_page_ok pmm_alloc_page_frame pmm_free_page_frame)

lemma pmm_run_keeps: "pmm_ok s \<Longrightarrow> pmm_ok (pmm_run ops s) \<and> pmm_frame s (pmm_run ops s)"
proof (induction ops arbitrary: s)
  case Nil
  then show ?case by (simp add: pmm_run_def)
next
  case (Cons a ops)
  with pmm_step_keeps [OF Cons.prems, of a] Cons.IH [of "pmm_step a s"] show ?case
    by (auto simp: pmm_run_def intro: pmm_frame_trans)
qed

text \<open>
  Property C17. Whatever is allocated and released, with any addresses, the page counter keeps
  counting the set bits, the free and the used bytes reported add up to the total without
  overflow, and nothing outside the bitmap and the counter is written.
\<close>

theorem pmm_run_accounts:
  assumes "pmm_ok s"
  shows "pmm_ok (pmm_run ops s) \<and> pmm_frame s (pmm_run ops s) \<and>
    pmm_get_free_memory (pmm_run ops s) + pmm_get_used_memory (pmm_run ops s) = pmm_get_total_memory s \<and>
    (unat (total_pages s) < 2 ^ 52 \<longrightarrow>
      unat (pmm_get_free_memory (pmm_run ops s)) = 4096 * card (free_pfns (pmm_run ops s)))"
proof -
  let ?t = "pmm_run ops s"
  have t: "pmm_ok ?t" "pmm_frame s ?t" using pmm_run_keeps [OF assms] by blast+
  then have tp: "total_pages ?t = total_pages s" by (simp add: pmm_frame_def)
  have "used_pages ?t \<le> total_pages ?t"
    using pmm_ok_bounds(2) [OF t(1)] by (simp add: word_le_nat_alt)
  from unat_sub_exact [OF this] have free: "unat (total_pages ?t - used_pages ?t) = card (free_pfns ?t)"
    using pmm_ok_bounds(1) [OF t(1)] by linarith
  have "unat (pmm_get_free_memory ?t) = 4096 * card (free_pfns ?t)" if "unat (total_pages s) < 2 ^ 52"
    using that free pmm_ok_bounds(1) [OF t(1)] page_addr_unat [of "total_pages ?t - used_pages ?t"]
    by (simp add: pmm_get_free_memory_def tp)
  with t tp show ?thesis
    by (simp add: pmm_get_free_memory_def pmm_get_used_memory_def pmm_get_total_memory_def algebra_simps)
qed

text \<open>A pool of eight frames, bitmap \<open>0b10000101\<close>: frames 0, 2 and 7 in use.\<close>

definition demo_pool :: pmm where
  "demo_pool = demo_pmm\<lparr>mem8 := (\<lambda>_. 0)(0x2000 := 0x85), bitmap := 0x2000, total_pages := 8, used_pages := 3\<rparr>"

lemma below_8: "{n :: u64. n < 8} = {0, 1, 2, 3, 4, 5, 6, 7}"
  by (simp add: words_below lessThan_nat_numeral lessThan_Suc insert_commute)

lemma demo_pool_test: "n \<in> {0, 1, 2, 3, 4, 5, 6, 7} \<Longrightarrow> bitmap_test n demo_pool \<longleftrightarrow> n \<in> {0, 2, 7}"
  by (elim insertE emptyE) (simp_all add: bitmap_test_def bitmap_cell_def bitmap_mask_def demo_pool_def)

lemma filter_insert: "{n \<in> insert a A. P n} = (if P a then insert a {n \<in> A. P n} else {n \<in> A. P n})"
  by auto

lemma demo_pool_sets: "used_pfns demo_pool = {0, 2, 7}" "free_pfns demo_pool = {1, 3, 4, 5, 6}"
proof -
  have "total_pages demo_pool = 8" by (simp add: demo_pool_def)
  then have "used_pfns demo_pool = {n \<in> {n. n < 8}. bitmap_test n demo_pool}"
    "free_pfns demo_pool = {n \<in> {n. n < 8}. \<not> bitmap_test n demo_pool}"
    by (auto simp: used_pfns_def free_pfns_def)
  then show "used_pfns demo_pool = {0, 2, 7}" "free_pfns demo_pool = {1, 3, 4, 5, 6}"
    unfolding below_8 by (simp_all only: filter_insert) (simp_all add: demo_pool_test)
qed

lemma demo_pool_ok: "pmm_ok demo_pool"
  by (simp add: pmm_ok_def demo_pool_sets) (simp add: demo_pool_def)

lemma demo_pool_alloc: "pmm_alloc_page demo_pool = (0x1000, pmm_take 1 demo_pool)"
proof -
  have "Min (free_pfns demo_pool) = 1" by (rule Min_eqI) (auto simp: demo_pool_sets)
  then show ?thesis by (simp add: pmm_alloc_page_spec demo_pool_sets PAGE_SIZE_def)
qed

lemma demo_pool_alloc2: "pmm_alloc_page (pmm_take 1 demo_pool) = (0x3000, pmm_take 3 (pmm_take 1 demo_pool))"
proof -
  have f: "free_pfns (pmm_take 1 demo_pool) = {3, 4, 5, 6}"
    by (subst pmm_take_sets) (auto simp: demo_pool_sets)
  then have "Min (free_pfns (pmm_take 1 demo_pool)) = 3" by (intro Min_eqI) auto
  then show ?thesis by (simp add: pmm_alloc_page_spec f PAGE_SIZE_def)
qed

theorem pmm_run_accounts_witness:
  "pmm_ok (pmm_run [Alloc, Free 0x2000, Alloc] demo_pool)"
  using pmm_run_accounts [OF demo_pool_ok] by blast

text \<open>
  Pages allocated one after the other are pairwise distinct, page aligned, were free
  before, and are no longer free after: no page is handed out twice without a release in between.
\<close>

theorem pmm_alloc_pages_distinct:
  assumes "pmm_ok s" and "take_pages pmm_alloc_page n s = (ps, t)"
  shows "distinct ps \<and> set ps \<subseteq> free_pages s - {0} \<and> set ps \<inter> free_pages t = {} \<and>
    (\<forall>p\<in>set ps. 4096 dvd unat p)"
proof -
  have ps: "ps = fst (take_pages pmm_alloc_page n s)" and t: "t = snd (take_pages pmm_alloc_page n s)"
    using assms(2) by simp_all
  have "set ps \<subseteq> free_pages s - {0} \<and> distinct ps"
    unfolding ps by (rule pool.take_pages_fresh [OF assms(1)])
  moreover have "free_pages t - {0} = free_pages s - set ps - {0}"
    unfolding ps t by (rule pool.take_pages_avail [OF assms(1)])
  moreover have "\<forall>p\<in>set ps. 4096 dvd unat p"
    unfolding ps using pool.take_pages_aligned [OF assms(1)] by blast
  ultimately show ?thesis by blast
qed

theorem pmm_alloc_pages_distinct_witness:
  "\<exists>t. take_pages pmm_alloc_page 2 demo_pool = ([0x1000, 0x3000], t) \<and>
     {0x1000, 0x3000} \<inter> free_pages t = {}"
proof -
  have run: "take_pages pmm_alloc_page 2 demo_pool = ([0x1000, 0x3000], pmm_take 3 (pmm_take 1 demo_pool))"
    by (simp only: numeral_2_eq_2 take_pages.simps) (simp add: demo_pool_alloc demo_pool_alloc2)
  from pmm_alloc_pages_distinct [OF demo_pool_ok this] run show ?thesis by simp
qed

text \<open>
  Releasing the page just allocated restores the set of free pages and the counter.
\<close>

theorem pmm_alloc_free_roundtrip:
  assumes "pmm_ok s" and "pmm_alloc_page s = (p, t)" and "p \<noteq> 0"
  shows "free_pages (pmm_free_page p t) = free_pages s \<and> used_pages (pmm_free_page p t) = used_pages s"
proof
  show "free_pages (pmm_free_page p t) = free_pages s"
    using pool.alloc_release [OF assms(1)] assms(2,3) by simp
  have ok: "pmm_ok t" using pmm_alloc_page_ok [OF assms(1)] assms(2) by simp
  have ne: "free_pfns s \<noteq> {}" and p: "p = page_of (Min (free_pfns s))" and t: "t = pmm_take (Min (free_pfns s)) s"
    using assms(2,3) by (auto simp: pmm_alloc_page_spec page_of_def split: if_splits)
  from ne have "Min (free_pfns s) < total_pages t" "p div PAGE_SIZE = Min (free_pfns s)"
    using p t page_of_div [OF assms(1)] by (simp_all add: Min_free_pfns free_pfns_less)
  then show "used_pages (pmm_free_page p t) = used_pages s"
    by (simp add: pmm_free_page_spec used_pfns_def t)
qed

theorem pmm_alloc_free_roundtrip_witness:
  "used_pages (pmm_free_page 0x1000 (snd (pmm_alloc_page demo_pool))) = 3"
  using pmm_alloc_free_roundtrip [OF demo_pool_ok demo_pool_alloc]
  by (simp add: demo_pool_alloc) (simp add: demo_pool_def)

text \<open>
  Property C39. Frame 0 cannot be handed out: when it is free, allocation marks it used, counts it,
  and returns the value that means out of memory, however many other pages are free.
\<close>

theorem pmm_alloc_loses_page_zero:
  assumes "0 \<in> free_pfns s"
  shows "\<exists>t. pmm_alloc_page s = (0, t) \<and> used_pages t = used_pages s + 1 \<and> free_pfns t = free_pfns s - {0}"
proof -
  have "Min (free_pfns s) = 0"
    using assms by (intro Min_eqI) simp_all
  then show ?thesis
    using assms by (auto simp: pmm_alloc_page_spec pmm_take_sets)
qed

theorem pmm_alloc_loses_page_zero_witness:
  "\<exists>t u. pmm_init 0x101000 demo_pmm = Some t \<and> pmm_alloc_page t = (0, u) \<and> 258 \<in> free_pfns u"
proof -
  obtain t where t: "pmm_init 0x101000 demo_pmm = Some t" "total_pages t = 272" "\<not> bitmap_test 0 t"
    "\<not> bitmap_test 258 t"
    using demo_pmm_init by blast
  then have "0 \<in> free_pfns t" "258 \<in> free_pfns t" by (simp_all add: free_pfns_def)
  with pmm_alloc_loses_page_zero [OF this(1)] t(1) show ?thesis by force
qed

text \<open>
  The first frame of a region is taken to be available even when the region starts in its middle:
  the start is rounded down.
\<close>

lemma pmm_region_start_rounded_down:
  assumes "entry_available m e" and "4096 \<le> unat (entry_len m e)"
  shows "in_region m e (entry_addr m e div PAGE_SIZE)"
  using assms by (simp add: in_region_def unat_div_distrib) (simp add: PAGE_SIZE_def)

end
