(* ===== verification/Phys_Mem.thy ===== *)
theory Phys_Mem
  imports Multiboot2
begin

text \<open>
  64-bit stores into the byte memory, what a load sees after a store, and the geometry of 4 KB
  pages of 512 entries: distinct aligned entries do not overlap, and an entry lies in the page of
  its table.
\<close>

definition store64 :: "u64 \<Rightarrow> u64 \<Rightarrow> (u64 \<Rightarrow> u8) \<Rightarrow> u64 \<Rightarrow> u8" where
  "store64 a v m = fold (\<lambda>k m. m(a + word_of_nat k := ucast (drop_bit (8 * k) v))) [0..<8] m"

subsection \<open>Bits of a load\<close>

lemma bit_load_le:
  "bit (load_le n m a :: 'w::len word) k \<longleftrightarrow>
     k < LENGTH('w) \<and> k < 8 * n \<and> bit (m (a + word_of_nat (k div 8))) (k mod 8)"
proof (induction n arbitrary: k)
  case 0
  then show ?case by (simp add: load_le_def)
next
  case (Suc n)
  let ?b = "push_bit (8 * n) (ucast (m (a + word_of_nat n))) :: 'w word"
  have top: "bit ?b j \<longleftrightarrow> j < LENGTH('w) \<and> 8 * n \<le> j \<and> j < 8 * Suc n \<and>
      bit (m (a + word_of_nat (j div 8))) (j mod 8)" for j
  proof (cases "8 * n \<le> j \<and> j < 8 * Suc n")
    case True
    then have "j div 8 = n" "j mod 8 = j - 8 * n" by (auto simp: div_nat_eqI modulo_nat_def)
    with True show ?thesis by (auto simp: bit_push_bit_iff bit_unsigned_iff)
  next
    case False
    then show ?thesis
      by (auto simp: bit_push_bit_iff bit_unsigned_iff dest: bit_imp_le_length)
  qed
  have "load_le (Suc n) m a = (load_le n m a + ?b :: 'w word)"
    by (simp add: load_le_def)
  also have "\<dots> = load_le n m a OR ?b"
    by (rule disjunctive_add) (unfold Suc.IH top, linarith)
  finally show ?case by (auto simp: bit_or_iff Suc.IH top)
qed

lemma fold_store:
  fixes a b :: u64
  assumes "n \<le> 8"
  shows "fold (\<lambda>k m. m(a + word_of_nat k := f k)) [0..<n] m b =
    (if unat (b - a) < n then f (unat (b - a)) else m b)"
  using assms
proof (induction n)
  case 0
  then show ?case by simp
next
  case (Suc n)
  have un: "unat (word_of_nat n :: u64) = n" using Suc.prems by (simp add: unat_of_nat)
  have "b = a + word_of_nat n \<longleftrightarrow> b - a = word_of_nat n" by (auto simp: algebra_simps)
  also have "\<dots> \<longleftrightarrow> unat (b - a) = n" using un by (metis word_unat_eq_iff)
  finally show ?case using Suc by (auto simp: less_Suc_eq)
qed

lemma store64_byte:
  "store64 a v m b = (if unat (b - a) < 8 then ucast (drop_bit (8 * unat (b - a)) v) else m b)"
  unfolding store64_def by (rule fold_store) simp

lemma load_store_same [simp]: "load64 (store64 a v m) a = v"
proof (rule bit_word_eqI)
  fix k assume k: "k < LENGTH(64)"
  then have "k div 8 < 8" by simp
  then have "unat (word_of_nat (k div 8) :: u64) = k div 8" by (simp add: unat_of_nat)
  then show "bit (load64 (store64 a v m) a) k = bit v k"
    using k \<open>k div 8 < 8\<close> by (simp add: load64_def bit_load_le store64_byte bit_unsigned_iff bit_drop_bit_eq)
qed

lemma load64_cong: "(\<And>k. k < 8 \<Longrightarrow> m' (a + word_of_nat k) = m (a + word_of_nat k)) \<Longrightarrow> load64 m' a = load64 m a"
  unfolding load64_def load_le_def by (rule arg_cong [where f = sum_list]) simp

subsection \<open>Pages and their entries\<close>

definition page_bytes :: "u64 \<Rightarrow> u64 set" where
  "page_bytes p = {a. unat a div 4096 = unat p div 4096}"

definition pte_addr :: "u64 \<Rightarrow> u64 \<Rightarrow> u64" where
  "pte_addr t i = t + 8 * i"

lemma page_room: "4096 dvd unat (t :: u64) \<Longrightarrow> unat t + 4096 \<le> 2 ^ 64"
proof -
  assume "4096 dvd unat t"
  then obtain q where q: "unat t = 4096 * q" by (rule dvdE)
  have "unat t < 2 ^ 64" using unsigned_less [of t, where 'a = nat] by simp
  with q show ?thesis by simp
qed

lemma page_offset:
  assumes "4096 dvd unat t" and "n < 4096"
  shows "unat (t + word_of_nat n :: u64) = unat t + n"
proof -
  have "unat (word_of_nat n :: u64) = n" using assms(2) by (simp add: unat_of_nat)
  then show ?thesis using assms(2) page_room [OF assms(1)] by (subst unat_add_exact) simp_all
qed

lemma pte_byte:
  assumes "4096 dvd unat t" and "i < 512" and "k < 8"
  shows "unat (pte_addr t i + word_of_nat k) = unat t + 8 * unat i + k"
proof -
  have i: "unat i < 512" using assms(2) by (simp add: word_less_nat_alt)
  have "pte_addr t i + word_of_nat k = t + word_of_nat (8 * unat i + k)"
    by (simp add: pte_addr_def)
  then show ?thesis using page_offset [OF assms(1), of "8 * unat i + k"] i assms(3) by (simp only:)
qed

lemma pte_in_page:
  assumes "4096 dvd unat t" and "i < 512" and "k < 8"
  shows "pte_addr t i + word_of_nat k \<in> page_bytes t"
proof -
  obtain q where q: "unat t = 4096 * q" using assms(1) by (rule dvdE)
  have "unat i < 512" using assms(2) by (simp add: word_less_nat_alt)
  then have "8 * unat i + k < 4096" using assms(3) by simp
  then have "(4096 * q + (8 * unat i + k)) div 4096 = q" by (simp only: div_mult_self4)
  then show ?thesis using pte_byte [OF assms] q by (simp add: page_bytes_def add.assoc)
qed

lemma page_bytes_same:
  "4096 dvd unat p \<Longrightarrow> 4096 dvd unat q \<Longrightarrow> a \<in> page_bytes p \<Longrightarrow> a \<in> page_bytes q \<Longrightarrow> p = q"
  by (auto simp: page_bytes_def word_unat_eq_iff elim!: dvdE)

lemma load_page_cong:
  assumes "4096 dvd unat t" and "i < 512" and "\<And>a. a \<in> page_bytes t \<Longrightarrow> m' a = m a"
  shows "load64 m' (pte_addr t i) = load64 m (pte_addr t i)"
  using assms pte_in_page by (intro load64_cong) blast

lemma store_outside:
  assumes "4096 dvd unat t" and "i < 512" and "b \<notin> page_bytes t"
  shows "store64 (pte_addr t i) v m b = m b"
proof -
  have "b \<noteq> pte_addr t i + word_of_nat k" if "k < 8" for k
    using pte_in_page [OF assms(1,2) that] assms(3) by auto
  from this [of "unat (b - pte_addr t i)"] show ?thesis by (auto simp: store64_byte)
qed

lemma load_store_other:
  assumes "4096 dvd unat t" and "4096 dvd unat u" and "i < 512" and "j < 512" and "(t, i) \<noteq> (u, j)"
  shows "load64 (store64 (pte_addr t i) v m) (pte_addr u j) = load64 m (pte_addr u j)"
proof (rule load64_cong)
  fix k :: nat assume k: "k < 8"
  let ?b = "pte_addr u j + word_of_nat k"
  have "\<not> unat (?b - pte_addr t i) < 8"
  proof
    assume d: "unat (?b - pte_addr t i) < 8"
    let ?d = "unat (?b - pte_addr t i)"
    have eq: "?b = pte_addr t i + word_of_nat ?d" by simp
    then have "?b \<in> page_bytes t" "?b \<in> page_bytes u"
      using pte_in_page [OF assms(1,3) d] pte_in_page [OF assms(2,4) k] by simp_all
    then have tu: "t = u" using page_bytes_same assms(1,2) by blast
    have "unat ?b = unat t + 8 * unat i + ?d" using pte_byte [OF assms(1,3) d] eq by simp
    moreover have "unat ?b = unat u + 8 * unat j + k" using pte_byte [OF assms(2,4) k] .
    ultimately have "8 * unat i + ?d = 8 * unat j + k" using tu by simp
    then have "(8 * unat i + ?d) div 8 = (8 * unat j + k) div 8" by simp
    then have "unat i = unat j" using d k by simp
    then have "i = j" by (simp add: word_unat_eq_iff)
    with tu assms(5) show False by simp
  qed
  then show "store64 (pte_addr t i) v m ?b = m ?b" by (simp add: store64_byte)
qed

end
