(* ===== verification/Paging.thy ===== *)
theory Paging
  imports Pmm Phys_Mem
begin

text \<open>
  Four-level page tables (\<open>kernel/mm/paging.c\<close>, \<open>paging.h\<close>), kept in the byte memory where the
  code keeps them: a table is a 4 KB page of 512 little-endian entries. The code follows physical
  addresses as pointers, under the identity mapping of \<open>boot.asm\<close>.
\<close>

definition PAGE_PRESENT :: u64 where "PAGE_PRESENT = 1"
definition PAGE_WRITABLE :: u64 where "PAGE_WRITABLE = 2"
definition PAGE_USER :: u64 where "PAGE_USER = 4"

text \<open>\<open>cr3\<close> is the processor's register; \<open>kernel_pml4\<close> the kernel's copy of it.\<close>

record paging = pmm +
  cr3 :: u64
  kernel_pml4 :: u64

subsection \<open>Operations\<close>

definition pml4_index :: "u64 \<Rightarrow> u64" where "pml4_index virt = drop_bit 39 virt AND 0x1FF"
definition pdpt_index :: "u64 \<Rightarrow> u64" where "pdpt_index virt = drop_bit 30 virt AND 0x1FF"
definition pd_index :: "u64 \<Rightarrow> u64" where "pd_index virt = drop_bit 21 virt AND 0x1FF"
definition pt_index :: "u64 \<Rightarrow> u64" where "pt_index virt = drop_bit 12 virt AND 0x1FF"

definition read_entry :: "u64 \<Rightarrow> u64 \<Rightarrow> 'a machine_scheme \<Rightarrow> u64" where
  "read_entry table i s = load64 (mem8 s) (pte_addr table i)"

definition write_entry :: "u64 \<Rightarrow> u64 \<Rightarrow> u64 \<Rightarrow> 'a machine_scheme \<Rightarrow> 'a machine_scheme" where
  "write_entry table i v s = s\<lparr>mem8 := store64 (pte_addr table i) v (mem8 s)\<rparr>"

definition clear_table :: "u64 \<Rightarrow> 'a machine_scheme \<Rightarrow> 'a machine_scheme" where
  "clear_table table s = for_int 0 512 (\<lambda>i. write_entry table (word_of_nat i) 0) s"

text \<open>The address of the table an entry points to: \<open>entry & ~0xFFF\<close>.\<close>

definition entry_table :: "u64 \<Rightarrow> u64" where
  "entry_table e = e AND NOT 0xFFF"

definition get_or_create_table :: "u64 \<Rightarrow> u64 \<Rightarrow> u64 \<Rightarrow> 'a pmm_scheme \<Rightarrow> u64 \<times> 'a pmm_scheme" where
  "get_or_create_table parent i flags s =
     (let entry = read_entry parent i s
      in if entry AND PAGE_PRESENT \<noteq> 0 then (entry_table entry, s)
         else
           (let (table, s) = pmm_alloc_page s
            in if table = 0 then (0, s)
               else
                 (let s = clear_table table s;
                      s = write_entry parent i (table OR flags OR PAGE_PRESENT OR PAGE_WRITABLE) s
                  in (table, s))))"

text \<open>The digits that \<open>paging_init\<close> converts by hand.\<close>

definition paging_hex :: "u64 \<Rightarrow> string" where
  "paging_hex v = map (\<lambda>k.
     (let nibble = ucast (drop_bit ((15 - k) * 4) v AND 0xF) :: u8
      in if nibble < 10 then char_of (48 + unat nibble) else char_of (97 + unat nibble - 10))) [0..<16]"

definition paging_init :: "'a paging_scheme \<Rightarrow> 'a paging_scheme" where
  "paging_init s =
     (let s = vga_print (line ''[*] Initializing paging...'') VGA_COLOR_BROWN s;
          s = s\<lparr>kernel_pml4 := cr3 s\<rparr>;
          s = vga_print ''    Using boot page tables at 0x'' VGA_COLOR_WHITE s;
          s = vga_print (paging_hex (cr3 s)) VGA_COLOR_LIGHT_CYAN s;
          s = vga_print (line '''') VGA_COLOR_WHITE s;
          s = vga_print (line ''    Paging already enabled by bootloader'') VGA_COLOR_WHITE s;
          s = vga_print (line ''    First 2 MB identity mapped'') VGA_COLOR_WHITE s
      in vga_print (line ''[OK] Paging initialized!'') VGA_COLOR_LIGHT_GREEN s)"

definition paging_map_page :: "u64 \<Rightarrow> u64 \<Rightarrow> u64 \<Rightarrow> 'a paging_scheme \<Rightarrow> 'a paging_scheme" where
  "paging_map_page virt phys flags s =
     (let (pdpt, s) = get_or_create_table (kernel_pml4 s) (pml4_index virt) PAGE_USER s
      in if pdpt = 0 then s
         else (let (pd, s) = get_or_create_table pdpt (pdpt_index virt) PAGE_USER s
               in if pd = 0 then s
                  else (let (pt, s) = get_or_create_table pd (pd_index virt) PAGE_USER s
                        in if pt = 0 then s
                           else write_entry pt (pt_index virt) ((phys AND NOT 0xFFF) OR flags) s)))"

definition paging_unmap_page :: "u64 \<Rightarrow> 'a paging_scheme \<Rightarrow> 'a paging_scheme" where
  "paging_unmap_page virt s =
     (if read_entry (kernel_pml4 s) (pml4_index virt) s AND PAGE_PRESENT = 0 then s
      else (let pdpt = entry_table (read_entry (kernel_pml4 s) (pml4_index virt) s)
            in if read_entry pdpt (pdpt_index virt) s AND PAGE_PRESENT = 0 then s
               else (let pd = entry_table (read_entry pdpt (pdpt_index virt) s)
                     in if read_entry pd (pd_index virt) s AND PAGE_PRESENT = 0 then s
                        else (let pt = entry_table (read_entry pd (pd_index virt) s);
                                  s = write_entry pt (pt_index virt) 0 s
                              in emit (Invlpg virt) s))))"

definition paging_get_physical :: "u64 \<Rightarrow> 'a paging_scheme \<Rightarrow> u64" where
  "paging_get_physical virt s =
     (if read_entry (kernel_pml4 s) (pml4_index virt) s AND PAGE_PRESENT = 0 then 0
      else (let pdpt = entry_table (read_entry (kernel_pml4 s) (pml4_index virt) s)
            in if read_entry pdpt (pdpt_index virt) s AND PAGE_PRESENT = 0 then 0
               else (let pd = entry_table (read_entry pdpt (pdpt_index virt) s)
                     in if read_entry pd (pd_index virt) s AND PAGE_PRESENT = 0 then 0
                        else (let pt = entry_table (read_entry pd (pd_index virt) s)
                              in if read_entry pt (pt_index virt) s AND PAGE_PRESENT = 0 then 0
                                 else (read_entry pt (pt_index virt) s AND NOT 0xFFF) OR (virt AND 0xFFF)))))"

definition paging_switch_directory :: "u64 \<Rightarrow> 'a paging_scheme \<Rightarrow> 'a paging_scheme" where
  "paging_switch_directory pml4 s = emit (Load_cr3 pml4) (s\<lparr>kernel_pml4 := pml4, cr3 := pml4\<rparr>)"

definition paging_get_current_directory :: "'a paging_scheme \<Rightarrow> u64" where
  "paging_get_current_directory s = kernel_pml4 s"

definition paging_create_address_space :: "'a paging_scheme \<Rightarrow> u64 \<times> 'a paging_scheme" where
  "paging_create_address_space s =
     (let (pml4, s) = pmm_alloc_page s
      in if pml4 = 0 then (0, s)
         else (let s = clear_table pml4 s;
                   s = for_int 256 512 (\<lambda>i s.
                         write_entry pml4 (word_of_nat i) (read_entry (kernel_pml4 s) (word_of_nat i) s) s) s
               in (pml4, s)))"

subsection \<open>The page map\<close>

text \<open>
  The four indices of an address. \<open>subtable m t i\<close> is the table below entry \<open>i\<close> of \<open>t\<close>, if the
  entry is present and its address is not the null pointer; \<open>walk m t is\<close> follows a list of
  indices; \<open>translate m t is\<close> is the leaf entry on a path of four, 0 where a table is missing.
\<close>

definition path :: "u64 \<Rightarrow> u64 list" where
  "path virt = [pml4_index virt, pdpt_index virt, pd_index virt, pt_index virt]"

definition subtable :: "(u64 \<Rightarrow> u8) \<Rightarrow> u64 \<Rightarrow> u64 \<Rightarrow> u64 option" where
  "subtable m t i =
     (let e = load64 m (pte_addr t i)
      in if e AND PAGE_PRESENT = 0 \<or> entry_table e = 0 then None else Some (entry_table e))"

fun walk :: "(u64 \<Rightarrow> u8) \<Rightarrow> u64 \<Rightarrow> u64 list \<Rightarrow> u64 option" where
  "walk m t [] = Some t"
| "walk m t (i # is) = (case subtable m t i of None \<Rightarrow> None | Some u \<Rightarrow> walk m u is)"

definition translate :: "(u64 \<Rightarrow> u8) \<Rightarrow> u64 \<Rightarrow> u64 list \<Rightarrow> u64" where
  "translate m t is =
     (case walk m t (butlast is) of None \<Rightarrow> 0 | Some u \<Rightarrow> load64 m (pte_addr u (last is)))"

definition page_map :: "'a paging_scheme \<Rightarrow> u64 list \<Rightarrow> u64" where
  "page_map s is = translate (mem8 s) (kernel_pml4 s) is"

definition table_path :: "u64 list \<Rightarrow> bool" where
  "table_path is \<longleftrightarrow> length is \<le> 3 \<and> (\<forall>i\<in>set is. i < 512)"

definition leaf_path :: "u64 list \<Rightarrow> bool" where
  "leaf_path is \<longleftrightarrow> length is = 4 \<and> (\<forall>i\<in>set is. i < 512)"

text \<open>
  The invariant: the tables of the current address space form a tree of distinct pages, none of
  them free and none holding the allocator's bitmap, which does not reach into free pages either.
\<close>

definition table_page :: "'a pmm_scheme \<Rightarrow> u64 \<Rightarrow> bool" where
  "table_page s t \<longleftrightarrow> t \<noteq> 0 \<and> 4096 dvd unat t \<and> t \<notin> free_pages s \<and> page_bytes t \<inter> bitmap_cells s = {}"

definition paging_tree :: "'a pmm_scheme \<Rightarrow> u64 \<Rightarrow> bool" where
  "paging_tree s root \<longleftrightarrow>
     (\<forall>p t. table_path p \<longrightarrow> walk (mem8 s) root p = Some t \<longrightarrow> table_page s t) \<and>
     (\<forall>p q t. table_path p \<longrightarrow> table_path q \<longrightarrow> walk (mem8 s) root p = Some t \<longrightarrow>
        walk (mem8 s) root q = Some t \<longrightarrow> p = q)"

definition bitmap_apart :: "'a pmm_scheme \<Rightarrow> bool" where
  "bitmap_apart s \<longleftrightarrow> (\<forall>p\<in>free_pages s. page_bytes p \<inter> bitmap_cells s = {})"

definition paging_ok :: "'a paging_scheme \<Rightarrow> bool" where
  "paging_ok s \<longleftrightarrow> pmm_ok s \<and> bitmap_apart s \<and> paging_tree s (kernel_pml4 s)"

subsection \<open>Entries and indices\<close>

lemma and_1ff: "x AND 0x1FF < (512::u64)"
proof -
  have "x AND 0x1FF \<le> (0x1FF :: u64)" by (simp add: word_and_le1)
  then show ?thesis by (rule le_less_trans) simp
qed

lemma index_bounds [simp]: "pml4_index v < 512" "pdpt_index v < 512" "pd_index v < 512" "pt_index v < 512"
  by (simp_all add: pml4_index_def pdpt_index_def pd_index_def pt_index_def and_1ff)

lemma aligned_iff: "4096 dvd unat t \<longleftrightarrow> take_bit 12 t = 0" for t :: u64
proof -
  have "unat (take_bit 12 t) = unat t mod 4096"
    unfolding unsigned_take_bit_eq by (simp add: take_bit_eq_mod)
  then show ?thesis by (metis dvd_eq_mod_eq_0 unat_eq_zero)
qed

lemma entry_table_aligned [simp]: "4096 dvd unat (entry_table e)"
  unfolding aligned_iff
  by (rule bit_word_eqI)
    (auto simp: entry_table_def bit_take_bit_iff bit_and_iff bit_not_iff mask_eq_exp_minus_1 bit_mask_iff)

lemma entry_table_flags:
  assumes "4096 dvd unat t" and "fl AND NOT 0xFFF = 0"
  shows "entry_table (t OR fl) = t"
proof (rule bit_word_eqI)
  fix n assume n: "n < LENGTH(64)"
  have t: "bit t n \<Longrightarrow> \<not> n < 12"
    using assms(1) unfolding aligned_iff by (metis bit_take_bit_iff bit_0_eq bot_apply bot_bool_def)
  have m: "(0xFFF :: u64) = mask 12" by (simp add: mask_eq_exp_minus_1)
  have "\<not> bit (fl AND NOT 0xFFF) n" unfolding assms(2) by simp
  then show "bit (entry_table (t OR fl)) n = bit t n"
    using t n by (auto simp: entry_table_def m bit_and_iff bit_or_iff bit_not_iff bit_mask_iff)
qed

lemma new_entry:
  assumes "4096 dvd unat t"
  shows "entry_table (t OR PAGE_USER OR PAGE_PRESENT OR PAGE_WRITABLE) = t"
    "(t OR PAGE_USER OR PAGE_PRESENT OR PAGE_WRITABLE) AND PAGE_PRESENT \<noteq> 0"
proof -
  have "t OR PAGE_USER OR PAGE_PRESENT OR PAGE_WRITABLE = t OR 7"
    by (simp add: PAGE_USER_def PAGE_PRESENT_def PAGE_WRITABLE_def or.assoc)
  then show "entry_table (t OR PAGE_USER OR PAGE_PRESENT OR PAGE_WRITABLE) = t"
    using entry_table_flags [OF assms, of 7] by simp
  show "(t OR PAGE_USER OR PAGE_PRESENT OR PAGE_WRITABLE) AND PAGE_PRESENT \<noteq> 0"
    by (simp add: PAGE_PRESENT_def and_one_eq odd_iff_mod_2_eq_one [symmetric] bit_0 [symmetric] bit_or_iff)
qed

subsection \<open>Walks\<close>

lemma walk_snoc: "walk m t (p @ [i]) = (case walk m t p of None \<Rightarrow> None | Some u \<Rightarrow> subtable m u i)"
  by (induction p arbitrary: t) (auto split: option.splits)

lemma subtable_aligned: "subtable m t i = Some u \<Longrightarrow> 4096 dvd unat u \<and> u \<noteq> 0"
  by (auto simp: subtable_def Let_def split: if_splits)

lemma walk_prefix: "walk m t (p @ q) = Some u \<Longrightarrow> \<exists>v. walk m t p = Some v"
  by (induction p arbitrary: t) (auto split: option.splits)

lemma walk_append_None: "walk m t p = None \<Longrightarrow> walk m t (p @ q) = None"
  by (induction p arbitrary: t) (auto split: option.splits)

lemma table_path_snoc: "table_path (p @ [i]) \<longleftrightarrow> length p \<le> 2 \<and> table_path p \<and> i < 512"
  by (auto simp: table_path_def)

lemma leaf_path_snoc: "leaf_path (p @ [i]) \<longleftrightarrow> length p = 3 \<and> table_path p \<and> i < 512"
  by (auto simp: leaf_path_def table_path_def)

lemma leaf_path_cases: "leaf_path q \<Longrightarrow> (\<And>p i. q = p @ [i] \<Longrightarrow> length p = 3 \<Longrightarrow> table_path p \<Longrightarrow> i < 512 \<Longrightarrow> thesis) \<Longrightarrow> thesis"
  by (cases q rule: rev_cases) (auto simp: leaf_path_snoc, simp add: leaf_path_def)

lemma table_path_prefix: "table_path (p @ q) \<Longrightarrow> table_path p"
  by (auto simp: table_path_def)

lemma paging_treeD:
  assumes "paging_tree s root" and "table_path p" and "walk (mem8 s) root p = Some t"
  shows "t \<noteq> 0" "4096 dvd unat t" "t \<notin> free_pages s" "page_bytes t \<inter> bitmap_cells s = {}"
  using assms by (auto simp: paging_tree_def table_page_def)

lemma paging_tree_inj:
  "paging_tree s root \<Longrightarrow> table_path p \<Longrightarrow> table_path q \<Longrightarrow> walk (mem8 s) root p = Some t \<Longrightarrow>
    walk (mem8 s) root q = Some t \<Longrightarrow> p = q"
  by (auto simp: paging_tree_def)

text \<open>A walk reads only the tables above its end.\<close>

lemma walk_cong:
  assumes "\<And>p u j. table_path (p @ [j]) \<Longrightarrow> walk m root p = Some u \<Longrightarrow>
      load64 m' (pte_addr u j) = load64 m (pte_addr u j)"
    and "table_path q"
  shows "walk m' root q = walk m root q"
  using assms(2)
proof (induction q rule: rev_induct)
  case Nil
  then show ?case by simp
next
  case (snoc j q)
  then have "walk m' root q = walk m root q" by (simp add: table_path_snoc)
  then show ?case
    using assms(1) [OF snoc.prems] by (auto simp: walk_snoc subtable_def split: option.splits)
qed

text \<open>Null entries: present, but pointing to address 0. \<open>blocked\<close>: one lies on the way.\<close>

definition null_entry :: "(u64 \<Rightarrow> u8) \<Rightarrow> u64 \<Rightarrow> u64 list \<Rightarrow> u64 \<Rightarrow> bool" where
  "null_entry m root p j =
     (case walk m root p of None \<Rightarrow> False
      | Some u \<Rightarrow> load64 m (pte_addr u j) AND PAGE_PRESENT \<noteq> 0 \<and> entry_table (load64 m (pte_addr u j)) = 0)"

definition blocked :: "u64 \<Rightarrow> 'a paging_scheme \<Rightarrow> bool" where
  "blocked virt s \<longleftrightarrow> (\<exists>k\<in>{0, 1, 2 :: nat}.
     null_entry (mem8 s) (kernel_pml4 s) (take k (path virt)) (path virt ! k))"

subsection \<open>Updates of the memory alone\<close>

text \<open>Nothing the allocator keeps depends on memory outside its bitmap.\<close>

lemma pmm_mem_cong:
  assumes "\<And>a. a \<in> bitmap_cells s \<Longrightarrow> m a = mem8 s a"
  shows "bitmap_cells (s\<lparr>mem8 := m\<rparr>) = bitmap_cells s"
    "free_pages (s\<lparr>mem8 := m\<rparr>) = free_pages s" "pmm_ok (s\<lparr>mem8 := m\<rparr>) = pmm_ok s"
proof -
  show c: "bitmap_cells (s\<lparr>mem8 := m\<rparr>) = bitmap_cells s" by (rule bitmap_cells_cong) simp_all
  have test: "bitmap_test n (s\<lparr>mem8 := m\<rparr>) = bitmap_test n s" if "n < total_pages s" for n
    using assms that by (simp add: bitmap_test_def bitmap_cells_def bitmap_cell_def)
  have "free_pfns (s\<lparr>mem8 := m\<rparr>) = free_pfns s" "used_pfns (s\<lparr>mem8 := m\<rparr>) = used_pfns s"
    using test by (auto simp: free_pfns_def used_pfns_def)
  then show "free_pages (s\<lparr>mem8 := m\<rparr>) = free_pages s" "pmm_ok (s\<lparr>mem8 := m\<rparr>) = pmm_ok s"
    by (simp_all add: free_pages_def pmm_ok_def)
qed

lemma clear_table_spec:
  assumes "4096 dvd unat t"
  shows "clear_table t s = s\<lparr>mem8 := mem8 (clear_table t s)\<rparr>"
    "\<And>i. i < 512 \<Longrightarrow> load64 (mem8 (clear_table t s)) (pte_addr t i) = 0"
    "\<And>a. a \<notin> page_bytes t \<Longrightarrow> mem8 (clear_table t s) a = mem8 s a"
proof -
  let ?P = "\<lambda>k u. \<exists>m. u = s\<lparr>mem8 := m\<rparr> \<and>
    (\<forall>i. unat i < k \<longrightarrow> load64 m (pte_addr t i) = 0) \<and> (\<forall>a. a \<notin> page_bytes t \<longrightarrow> m a = mem8 s a)"
  have "?P 512 (clear_table t s)"
    unfolding clear_table_def
  proof (rule for_int_rule [where P = ?P])
    fix k u assume k: "k < 512" and "?P k u"
    then obtain m where IH: "u = s\<lparr>mem8 := m\<rparr>" "\<forall>i. unat i < k \<longrightarrow> load64 m (pte_addr t i) = 0"
      "\<forall>a. a \<notin> page_bytes t \<longrightarrow> m a = mem8 s a" by blast
    let ?k = "word_of_nat k :: u64"
    have un: "unat ?k = k" using k by (simp add: unat_of_nat)
    then have k': "?k < 512" using k by (simp add: word_less_nat_alt)
    have "load64 (store64 (pte_addr t ?k) 0 m) (pte_addr t i) = 0" if "unat i < Suc k" for i
    proof (cases "i = ?k")
      case False
      with that un have "unat i < k" by (metis less_Suc_eq word_unat_eq_iff)
      moreover have "i < 512" using that k by (simp add: word_less_nat_alt)
      ultimately show ?thesis
        using IH k' False by (subst load_store_other [OF assms assms]) auto
    qed simp
    then show "?P (Suc k) (write_entry t ?k 0 u)"
      using IH store_outside [OF assms k']
      by (intro exI [of _ "store64 (pte_addr t ?k) 0 m"]) (simp add: write_entry_def)
  qed (auto intro: exI [of _ "mem8 s"])
  then show "clear_table t s = s\<lparr>mem8 := mem8 (clear_table t s)\<rparr>"
    "\<And>i. i < 512 \<Longrightarrow> load64 (mem8 (clear_table t s)) (pte_addr t i) = 0"
    "\<And>a. a \<notin> page_bytes t \<Longrightarrow> mem8 (clear_table t s) a = mem8 s a"
    by (auto simp: word_less_nat_alt)
qed

text \<open>
  A step of the page-table code that keeps the page map: only memory and the page counter change,
  the tables that were there stay where they were, at most \<open>n\<close> pages are taken.
\<close>

definition tree_step :: "nat \<Rightarrow> u64 \<Rightarrow> 'a pmm_scheme \<Rightarrow> 'a pmm_scheme \<Rightarrow> bool" where
  "tree_step n root s t \<longleftrightarrow> pmm_ok t \<and> bitmap_apart t \<and> paging_tree t root \<and>
     t = s\<lparr>mem8 := mem8 t, used_pages := used_pages t\<rparr> \<and>
     (\<forall>q. leaf_path q \<longrightarrow> translate (mem8 t) root q = translate (mem8 s) root q) \<and>
     (\<forall>q j. table_path (q @ [j]) \<longrightarrow> null_entry (mem8 t) root q j = null_entry (mem8 s) root q j) \<and>
     (\<forall>q u. table_path q \<longrightarrow> walk (mem8 s) root q = Some u \<longrightarrow> walk (mem8 t) root q = Some u) \<and>
     free_pages t \<subseteq> free_pages s \<and> card (free_pages s) \<le> card (free_pages t) + n"

lemma tree_step_refl:
  "pmm_ok s \<Longrightarrow> bitmap_apart s \<Longrightarrow> paging_tree s root \<Longrightarrow> tree_step n root s s"
  by (simp add: tree_step_def)

text \<open>Memory that agrees on every table of the tree.\<close>

lemma tree_step_same_tables:
  assumes "paging_tree s root" and "pmm_ok t" and "bitmap_apart t"
    and "t = s\<lparr>mem8 := mem8 t, used_pages := used_pages t\<rparr>"
    and "free_pages t \<subseteq> free_pages s" and "card (free_pages s) \<le> card (free_pages t) + n"
    and same: "\<And>p u a. table_path p \<Longrightarrow> walk (mem8 s) root p = Some u \<Longrightarrow> a \<in> page_bytes u \<Longrightarrow> mem8 t a = mem8 s a"
  shows "tree_step n root s t"
proof -
  have cells: "bitmap_cells t = bitmap_cells s" by (subst assms(4)) (simp add: bitmap_cells_def bitmap_cell_def)
  have load: "load64 (mem8 t) (pte_addr u j) = load64 (mem8 s) (pte_addr u j)"
    if "table_path p" "walk (mem8 s) root p = Some u" "j < 512" for p u j
    using load_page_cong [OF paging_treeD(2) [OF assms(1) that(1,2)] that(3)] same [OF that(1,2)] by blast
  have walk: "walk (mem8 t) root q = walk (mem8 s) root q" if "table_path q" for q
    using that by (intro walk_cong) (auto simp: table_path_snoc load)
  have "translate (mem8 t) root q = translate (mem8 s) root q" if "leaf_path q" for q
    using that by (elim leaf_path_cases) (auto simp: translate_def walk load split: option.splits)
  moreover have "null_entry (mem8 t) root q j = null_entry (mem8 s) root q j" if "table_path (q @ [j])" for q j
    using that by (auto simp: null_entry_def table_path_snoc walk load split: option.splits)
  moreover have "paging_tree t root"
    using assms(1,5) walk by (auto simp: paging_tree_def table_page_def cells)
  ultimately show ?thesis
    using assms walk by (auto simp: tree_step_def)
qed

subsection \<open>Hanging a new table below an empty entry\<close>

lemma translate_snoc:
  "translate m t (p @ [j]) = (case walk m t p of None \<Rightarrow> 0 | Some u \<Rightarrow> load64 m (pte_addr u j))"
  by (cases "walk m t p") (simp_all add: translate_def)

text \<open>
  \<open>hung m m' root p i tb\<close>: going from \<open>m\<close> to \<open>m'\<close> puts the zeroed table \<open>tb\<close> below the empty
  entry \<open>i\<close> of the table at \<open>p\<close>, which no other path reaches, and changes no other entry.
\<close>

definition hung :: "(u64 \<Rightarrow> u8) \<Rightarrow> (u64 \<Rightarrow> u8) \<Rightarrow> u64 \<Rightarrow> u64 list \<Rightarrow> u64 \<Rightarrow> u64 \<Rightarrow> bool" where
  "hung m m' root p i tb \<longleftrightarrow> table_path (p @ [i]) \<and> (\<exists>u. walk m root p = Some u \<and>
     load64 m (pte_addr u i) AND PAGE_PRESENT = 0 \<and> subtable m' u i = Some tb \<and>
     (\<forall>j<512. load64 m' (pte_addr tb j) = 0) \<and>
     (\<forall>q. table_path q \<longrightarrow> walk m root q = Some u \<longrightarrow> q = p) \<and>
     (\<forall>q v j. table_path q \<longrightarrow> walk m root q = Some v \<longrightarrow> j < 512 \<longrightarrow> (v, j) \<noteq> (u, i) \<longrightarrow>
        load64 m' (pte_addr v j) = load64 m (pte_addr v j)))"

lemma hung_table:
  assumes "hung m m' root p i tb"
  obtains u where "walk m root p = Some u" "load64 m (pte_addr u i) AND PAGE_PRESENT = 0"
    "subtable m' u i = Some tb" "table_path p" "i < 512"
  using assms unfolding hung_def table_path_snoc by blast

lemma hung_below: "hung m m' root p i tb \<Longrightarrow> walk m root (p @ [i]) = None"
  by (erule hung_table) (simp add: walk_snoc subtable_def)

lemma hung_entry:
  assumes "hung m m' root p i tb" and "table_path q" and "walk m root q = Some v" and "j < 512" and "q @ [j] \<noteq> p @ [i]"
  shows "load64 m' (pte_addr v j) = load64 m (pte_addr v j)"
proof -
  from assms(1) obtain u where u: "\<And>q. table_path q \<Longrightarrow> walk m root q = Some u \<Longrightarrow> q = p"
    "\<And>q v j. table_path q \<Longrightarrow> walk m root q = Some v \<Longrightarrow> j < 512 \<Longrightarrow> (v, j) \<noteq> (u, i) \<Longrightarrow>
        load64 m' (pte_addr v j) = load64 m (pte_addr v j)"
    unfolding hung_def by blast
  have "(v, j) \<noteq> (u, i)" using u(1) [OF assms(2)] assms(3,5) by auto
  with u(2) assms(2-4) show ?thesis by blast
qed

lemma hung_zero: "hung m m' root p i tb \<Longrightarrow> j < 512 \<Longrightarrow> load64 m' (pte_addr tb j) = 0"
  by (auto simp: hung_def)

lemma hung_walk:
  assumes H: "hung m m' root p i tb" and "table_path q"
  shows "walk m' root q = (if q = p @ [i] then Some tb else walk m root q)"
  using assms(2)
proof (induction q rule: rev_induct)
  case Nil
  then show ?case by simp
next
  case (snoc j q)
  then have q: "table_path q" "j < 512" by (simp_all add: table_path_snoc)
  note IH = snoc.IH [OF q(1)]
  consider "q = p @ [i]" | "q @ [j] = p @ [i]" | "q \<noteq> p @ [i]" "q @ [j] \<noteq> p @ [i]" by blast
  then show ?case
  proof cases
    case 1
    then have "walk m root (q @ [j]) = None" using hung_below [OF H] by (simp only: walk_snoc) simp
    moreover have "walk m' root (q @ [j]) = None"
      using IH 1 hung_zero [OF H q(2)] by (simp only: walk_snoc) (simp add: subtable_def)
    ultimately show ?thesis using 1 by simp
  next
    case 2
    then have qj: "q = p" "j = i" by simp_all
    obtain u where u: "walk m root p = Some u" "subtable m' u i = Some tb" using H by (rule hung_table)
    have "walk m' root p = Some u" using IH u(1) unfolding qj by simp
    then show ?thesis unfolding qj walk_snoc by (simp add: u(2))
  next
    case 3
    then have "(q @ [j] = p @ [i]) = False" by simp
    moreover have "walk m' root q = walk m root q" using IH 3 by simp
    ultimately show ?thesis using hung_entry [OF H q(1) _ q(2) 3(2)]
      by (cases "walk m root q") (simp_all only: walk_snoc, simp_all add: subtable_def)
  qed
qed

lemma hung_translate:
  assumes H: "hung m m' root p i tb" and "leaf_path q"
  shows "translate m' root q = translate m root q"
proof -
  from assms(2) obtain r j where q: "q = r @ [j]" "length r = 3" "table_path r" "j < 512" by (elim leaf_path_cases)
  have "length (p @ [i]) \<le> 3" using H by (simp add: hung_def table_path_def)
  then have "r @ [j] \<noteq> p @ [i]" using q(2) by auto
  then show ?thesis
    unfolding q(1) translate_snoc hung_walk [OF H q(3)]
    using hung_entry [OF H q(3) _ q(4)] hung_zero [OF H q(4)] hung_below [OF H]
    by (auto split: option.splits)
qed

lemma hung_null:
  assumes H: "hung m m' root p i tb" and "table_path (q @ [j])"
  shows "null_entry m' root q j = null_entry m root q j"
proof -
  have q: "table_path q" "j < 512" using assms(2) by (simp_all add: table_path_snoc)
  show ?thesis
  proof (cases "q @ [j] = p @ [i]")
    case True
    then show ?thesis
      using hung_walk [OF H q(1)] H by (auto simp: null_entry_def hung_def subtable_def Let_def split: if_splits)
  next
    case False
    then show ?thesis
      unfolding null_entry_def hung_walk [OF H q(1)]
      using hung_entry [OF H q(1) _ q(2)] hung_zero [OF H q(2)] hung_below [OF H] by (auto split: option.splits)
  qed
qed

text \<open>The code's steps do hang a table: the new page was free, so it is no page of the tree.\<close>

definition hang_table :: "u64 \<Rightarrow> u64 \<Rightarrow> u64 \<Rightarrow> 'a machine_scheme \<Rightarrow> 'a machine_scheme" where
  "hang_table u i tb s = write_entry u i (tb OR PAGE_USER OR PAGE_PRESENT OR PAGE_WRITABLE) (clear_table tb s)"

lemma hang_table_mem:
  assumes "4096 dvd unat u" and "i < 512" and "4096 dvd unat tb"
  shows "hang_table u i tb s = s\<lparr>mem8 := mem8 (hang_table u i tb s)\<rparr>"
    "\<And>a. a \<notin> page_bytes u \<Longrightarrow> a \<notin> page_bytes tb \<Longrightarrow> mem8 (hang_table u i tb s) a = mem8 s a"
proof -
  note cl = clear_table_spec [OF assms(3), where s = s]
  obtain m where "clear_table tb s = s\<lparr>mem8 := m\<rparr>" using cl(1) by blast
  then show "hang_table u i tb s = s\<lparr>mem8 := mem8 (hang_table u i tb s)\<rparr>"
    by (simp add: hang_table_def write_entry_def)
  show "mem8 (hang_table u i tb s) a = mem8 s a" if "a \<notin> page_bytes u" "a \<notin> page_bytes tb" for a
    using that cl(3) store_outside [OF assms(1,2)] by (simp add: hang_table_def write_entry_def)
qed

lemma hang_table_loads:
  assumes "4096 dvd unat u" and "i < 512" and "4096 dvd unat tb" and "tb \<noteq> u" and "tb \<noteq> 0"
  shows "subtable (mem8 (hang_table u i tb s)) u i = Some tb"
    "\<And>j. j < 512 \<Longrightarrow> load64 (mem8 (hang_table u i tb s)) (pte_addr tb j) = 0"
    "\<And>v j. 4096 dvd unat v \<Longrightarrow> v \<noteq> tb \<Longrightarrow> j < 512 \<Longrightarrow> (v, j) \<noteq> (u, i) \<Longrightarrow>
      load64 (mem8 (hang_table u i tb s)) (pte_addr v j) = load64 (mem8 s) (pte_addr v j)"
proof -
  note cl = clear_table_spec [OF assms(3), where s = s]
  show "subtable (mem8 (hang_table u i tb s)) u i = Some tb"
    using new_entry [OF assms(3)] assms(5) by (simp add: hang_table_def write_entry_def subtable_def)
  show "load64 (mem8 (hang_table u i tb s)) (pte_addr tb j) = 0" if "j < 512" for j
    using that cl(2) assms by (simp add: hang_table_def write_entry_def load_store_other)
  show "load64 (mem8 (hang_table u i tb s)) (pte_addr v j) = load64 (mem8 s) (pte_addr v j)"
    if v: "4096 dvd unat v" "v \<noteq> tb" "j < 512" "(v, j) \<noteq> (u, i)" for v j
  proof -
    have "load64 (mem8 (hang_table u i tb s)) (pte_addr v j) = load64 (mem8 (clear_table tb s)) (pte_addr v j)"
      using v assms(1,2) by (auto simp: hang_table_def write_entry_def intro!: load_store_other)
    also have "\<dots> = load64 (mem8 s) (pte_addr v j)"
    proof (rule load_page_cong [OF v(1,3)])
      fix a assume "a \<in> page_bytes v"
      then have "a \<notin> page_bytes tb" using page_bytes_same [OF assms(3) v(1)] v(2) by blast
      then show "mem8 (clear_table tb s) a = mem8 s a" by (rule cl(3))
    qed
    finally show ?thesis .
  qed
qed

lemma new_table_hung:
  assumes "paging_tree s root" and "pmm_frame s s1"
    and "table_path (p @ [i])" and "walk (mem8 s) root p = Some u"
    and "load64 (mem8 s) (pte_addr u i) AND PAGE_PRESENT = 0"
    and "tb \<in> free_pages s" and "tb \<noteq> 0" and "4096 dvd unat tb"
  shows "hung (mem8 s) (mem8 (hang_table u i tb s1)) root p i tb"
proof -
  note D = paging_treeD [OF assms(1)]
  have p: "table_path p" "i < 512" using assms(3) by (simp_all add: table_path_snoc)
  have ne: "v \<noteq> tb" if "table_path q" "walk (mem8 s) root q = Some v" for q v
    using D(3) [OF that] assms(6) by auto
  note loads = hang_table_loads [OF D(2) [OF p(1) assms(4)] p(2) assms(8) ne [OF p(1) assms(4), symmetric] assms(7), where s = s1]
  have "load64 (mem8 (hang_table u i tb s1)) (pte_addr v j) = load64 (mem8 s) (pte_addr v j)"
    if "table_path q" "walk (mem8 s) root q = Some v" "j < 512" "(v, j) \<noteq> (u, i)" for q v j
  proof -
    have "a \<notin> bitmap_cells s" if "a \<in> page_bytes v" for a
      using that D(4) \<open>table_path q\<close> \<open>walk (mem8 s) root q = Some v\<close> by blast
    then have "load64 (mem8 s1) (pte_addr v j) = load64 (mem8 s) (pte_addr v j)"
      using assms(2) by (intro load_page_cong D(2) [OF that(1,2)] that(3)) (simp add: pmm_frame_def)
    then show ?thesis using loads(3) [OF D(2) [OF that(1,2)] ne [OF that(1,2)] that(3,4)] by simp
  qed
  then show ?thesis
    unfolding hung_def using assms(3-5) loads(1,2) paging_tree_inj [OF assms(1) _ p(1) _ assms(4)] by blast
qed

lemma new_table_step:
  assumes ok: "pmm_ok s" "bitmap_apart s" "paging_tree s root"
    and pi: "table_path (p @ [i])" "walk (mem8 s) root p = Some u"
    and absent: "load64 (mem8 s) (pte_addr u i) AND PAGE_PRESENT = 0"
    and tb: "pmm_alloc_page s = (tb, s1)" "tb \<noteq> 0"
  shows "tree_step 1 root s (hang_table u i tb s1)"
    "walk (mem8 (hang_table u i tb s1)) root (p @ [i]) = Some tb"
proof -
  let ?t = "hang_table u i tb s1"
  note D = paging_treeD [OF ok(3)] and inj = paging_tree_inj [OF ok(3)]
  have p: "table_path p" "i < 512" using pi(1) by (simp_all add: table_path_snoc)
  have fr: "pmm_frame s s1" using pmm_alloc_page_frame [of s] tb by simp
  have tbf: "tb \<in> free_pages s" using pool.alloc_in [OF ok(1)] tb by simp
  have tba: "4096 dvd unat tb" using pool.avail_aligned [OF ok(1) tbf] .
  have tbc: "page_bytes tb \<inter> bitmap_cells s = {}" using ok(2) tbf by (simp add: bitmap_apart_def)
  have s1: "pmm_ok s1" "free_pages s1 = free_pages s - {tb}" "bitmap_cells s1 = bitmap_cells s"
    using pool.alloc_inv [OF ok(1)] pool.alloc_avail [OF ok(1)] pmm_frame_cells [OF fr] tb by simp_all
  note mem = hang_table_mem [OF D(2) [OF p(1) pi(2)] p(2) tba, where s = s1]
  have "mem8 ?t a = mem8 s1 a" if "a \<in> bitmap_cells s1" for a
    using that D(4) [OF p(1) pi(2)] tbc s1(3) by (intro mem(2)) auto
  note cong = pmm_mem_cong [OF this]
  have pool_t: "pmm_ok ?t" "free_pages ?t = free_pages s - {tb}" "bitmap_cells ?t = bitmap_cells s"
    using cong s1 mem(1) by metis+
  have rec: "?t = s\<lparr>mem8 := mem8 ?t, used_pages := used_pages ?t\<rparr>"
  proof -
    obtain m n where s1m: "s1 = s\<lparr>mem8 := m, used_pages := n\<rparr>" using pmm_frame_record [OF fr] by blast
    obtain m' where "?t = s1\<lparr>mem8 := m'\<rparr>" using mem(1) by blast
    then show ?thesis by (simp add: s1m)
  qed
  note H = new_table_hung [OF ok(3) fr pi absent tbf tb(2) tba]
  note walk = hung_walk [OF H]
  show "walk (mem8 ?t) root (p @ [i]) = Some tb" using walk [OF pi(1)] by simp
  have ne: "v \<noteq> tb" if "table_path q" "walk (mem8 s) root q = Some v" for q v
    using D(3) [OF that] tbf by auto
  have "paging_tree ?t root"
    unfolding paging_tree_def
  proof (intro conjI allI impI)
    fix q v assume "table_path q" "walk (mem8 ?t) root q = Some v"
    then show "table_page ?t v"
      using walk D tb(2) tba tbc by (fastforce simp: table_page_def pool_t split: if_splits)
  next
    fix q r v assume "table_path q" "table_path r" "walk (mem8 ?t) root q = Some v" "walk (mem8 ?t) root r = Some v"
    then show "q = r" using walk [of q] walk [of r] inj ne by (metis option.inject)
  qed
  moreover have "bitmap_apart ?t" using ok(2) by (simp add: bitmap_apart_def pool_t)
  moreover have "card (free_pages s) \<le> card (free_pages ?t) + 1"
    unfolding pool_t(2) using tbf card_Suc_Diff1 [of "free_pages s" tb] by (simp add: free_pages_def)
  ultimately show "tree_step 1 root s ?t"
    unfolding tree_step_def
    using pool_t rec walk hung_below [OF H] hung_translate [OF H] hung_null [OF H] by auto
qed

lemma tree_stepD:
  assumes "tree_step n root s t"
  shows "pmm_ok t" "bitmap_apart t" "paging_tree t root"
    "\<And>q u. table_path q \<Longrightarrow> walk (mem8 s) root q = Some u \<Longrightarrow> walk (mem8 t) root q = Some u"
    "\<And>q. leaf_path q \<Longrightarrow> translate (mem8 t) root q = translate (mem8 s) root q"
    "\<And>q j. table_path (q @ [j]) \<Longrightarrow> null_entry (mem8 t) root q j = null_entry (mem8 s) root q j"
    "t = s\<lparr>mem8 := mem8 t, used_pages := used_pages t\<rparr>"
    "free_pages t \<subseteq> free_pages s" "card (free_pages s) \<le> card (free_pages t) + n"
  using assms by (simp_all add: tree_step_def)

lemma tree_step_trans:
  assumes "tree_step n root s t" and "tree_step k root t u"
  shows "tree_step (n + k) root s u"
proof -
  obtain m a where "t = s\<lparr>mem8 := m, used_pages := a\<rparr>" using tree_stepD(7) [OF assms(1)] by blast
  moreover obtain m' a' where "u = t\<lparr>mem8 := m', used_pages := a'\<rparr>" using tree_stepD(7) [OF assms(2)] by blast
  ultimately have "u = s\<lparr>mem8 := mem8 u, used_pages := used_pages u\<rparr>" by simp
  then show ?thesis using assms by (auto simp: tree_step_def)
qed

lemma alloc_step:
  assumes "pmm_ok s" and "bitmap_apart s" and "paging_tree s root" and "pmm_alloc_page s = (p, s')"
  shows "tree_step 1 root s s'"
proof (rule tree_step_same_tables [OF assms(3)])
  have fr: "pmm_frame s s'" using pmm_alloc_page_frame [of s] assms(4) by simp
  show "pmm_ok s'" using pool.alloc_inv [OF assms(1)] assms(4) by simp
  have free: "free_pages s' = free_pages s - {p}" using pool.alloc_avail [OF assms(1)] assms(4) by simp
  then show "free_pages s' \<subseteq> free_pages s" by auto
  show "card (free_pages s) \<le> card (free_pages s') + 1"
    using free card_Suc_Diff1 [of "free_pages s" p] by (cases "p \<in> free_pages s") (simp_all add: free_pages_def)
  show "bitmap_apart s'" using assms(2) pmm_frame_cells [OF fr] free by (auto simp: bitmap_apart_def)
  show "s' = s\<lparr>mem8 := mem8 s', used_pages := used_pages s'\<rparr>" using fr by (rule pmm_frame_record)
  fix q v a assume "table_path q" "walk (mem8 s) root q = Some v" "a \<in> page_bytes v"
  then have "a \<notin> bitmap_cells s" using paging_treeD(4) [OF assms(3)] by blast
  then show "mem8 s' a = mem8 s a" using fr by (simp add: pmm_frame_def)
qed

lemma get_or_create_step:
  assumes "pmm_ok s" "bitmap_apart s" "paging_tree s root"
    and "table_path (p @ [i])" "walk (mem8 s) root p = Some u"
    and g: "get_or_create_table u i PAGE_USER s = (t, s')"
  shows "tree_step 1 root s s'"
    "t \<noteq> 0 \<Longrightarrow> walk (mem8 s') root (p @ [i]) = Some t"
    "t = 0 \<Longrightarrow> null_entry (mem8 s) root p i \<or> 0 \<in> free_pages s \<or> free_pages s = {}"
    "null_entry (mem8 s) root p i \<Longrightarrow> t = 0"
proof -
  let ?e = "load64 (mem8 s) (pte_addr u i)"
  have cases: "?e AND PAGE_PRESENT \<noteq> 0 \<and> t = entry_table ?e \<and> s' = s \<or>
    ?e AND PAGE_PRESENT = 0 \<and> t = 0 \<and> pmm_alloc_page s = (0, s') \<or>
    ?e AND PAGE_PRESENT = 0 \<and> t \<noteq> 0 \<and> (\<exists>s1. pmm_alloc_page s = (t, s1) \<and> s' = hang_table u i t s1)"
    using g by (auto simp: get_or_create_table_def read_entry_def hang_table_def Let_def split: if_splits prod.splits)
  then show "tree_step 1 root s s'"
  proof (elim disjE conjE exE)
    assume a: "pmm_alloc_page s = (0, s')"
    show ?thesis by (rule alloc_step [OF assms(1-3) a])
  next
    assume "s' = s"
    then show ?thesis using tree_step_refl [OF assms(1-3)] by simp
  next
    fix s1 assume a: "?e AND PAGE_PRESENT = 0" "t \<noteq> 0" "pmm_alloc_page s = (t, s1)" "s' = hang_table u i t s1"
    show ?thesis unfolding a(4) by (rule new_table_step(1) [OF assms(1-5) a(1,3,2)])
  qed
  show "walk (mem8 s') root (p @ [i]) = Some t" if "t \<noteq> 0"
    using cases
  proof (elim disjE conjE exE)
    assume "?e AND PAGE_PRESENT \<noteq> 0" "t = entry_table ?e" "s' = s"
    then show ?thesis using that assms(5) by (simp add: walk_snoc subtable_def)
  next
    assume "t = 0" then show ?thesis using that by simp
  next
    fix s1 assume a: "?e AND PAGE_PRESENT = 0" "t \<noteq> 0" "pmm_alloc_page s = (t, s1)" "s' = hang_table u i t s1"
    show ?thesis unfolding a(4) by (rule new_table_step(2) [OF assms(1-5) a(1,3,2)])
  qed
  show "null_entry (mem8 s) root p i \<or> 0 \<in> free_pages s \<or> free_pages s = {}" if "t = 0"
    using cases that assms(5) pool.alloc_fail [OF assms(1)] by (auto simp: null_entry_def)
  show "t = 0" if "null_entry (mem8 s) root p i"
    using cases that assms(5) by (auto simp: null_entry_def)
qed

text \<open>Writing a leaf entry changes that leaf only.\<close>

lemma leaf_write:
  assumes ok: "pmm_ok s" "bitmap_apart s" "paging_tree s root"
    and p: "table_path p" "length p = 3" "walk (mem8 s) root p = Some pt" "j < 512"
  shows "pmm_ok (write_entry pt j v s)" "bitmap_apart (write_entry pt j v s)"
    "paging_tree (write_entry pt j v s) root"
    "\<And>q. leaf_path q \<Longrightarrow> translate (mem8 (write_entry pt j v s)) root q =
      (if q = p @ [j] then v else translate (mem8 s) root q)"
    "\<And>q k. table_path (q @ [k]) \<Longrightarrow>
      null_entry (mem8 (write_entry pt j v s)) root q k = null_entry (mem8 s) root q k"
    "\<And>q. table_path q \<Longrightarrow> walk (mem8 (write_entry pt j v s)) root q = walk (mem8 s) root q"
proof -
  let ?t = "write_entry pt j v s"
  note D = paging_treeD [OF ok(3)]
  note pt = D [OF p(1,3)]
  have "mem8 ?t a = mem8 s a" if "a \<in> bitmap_cells s" for a
    using that pt(4) store_outside [OF pt(2) p(4)] by (auto simp: write_entry_def)
  note cong = pmm_mem_cong [OF this]
  have t: "?t = s\<lparr>mem8 := mem8 ?t\<rparr>" by (simp add: write_entry_def)
  have pool: "pmm_ok ?t" "free_pages ?t = free_pages s" "bitmap_cells ?t = bitmap_cells s"
    using cong ok(1) t by metis+
  then show "pmm_ok ?t" "bitmap_apart ?t" using ok(2) by (simp_all add: bitmap_apart_def)
  have load: "load64 (mem8 ?t) (pte_addr u k) = (if q = p \<and> k = j then v else load64 (mem8 s) (pte_addr u k))"
    if "table_path q" "walk (mem8 s) root q = Some u" "k < 512" for q u k
  proof (cases "q = p \<and> k = j")
    case True
    then show ?thesis using that p(3) by (simp add: write_entry_def)
  next
    case False
    then have "(pt, j) \<noteq> (u, k)" using paging_tree_inj [OF ok(3) that(1) p(1) that(2)] p(3) by auto
    then have "load64 (mem8 ?t) (pte_addr u k) = load64 (mem8 s) (pte_addr u k)"
      using pt(2) D(2) [OF that(1,2)] p(4) that(3) by (simp add: write_entry_def load_store_other)
    then show ?thesis using False by (simp only: if_False)
  qed
  show walk: "walk (mem8 ?t) root q = walk (mem8 s) root q" if "table_path q" for q
    using that p(2) by (intro walk_cong) (auto simp: table_path_snoc load)
  show "null_entry (mem8 ?t) root q k = null_entry (mem8 s) root q k" if "table_path (q @ [k])" for q k
    using that p(2) by (auto simp: null_entry_def table_path_snoc walk load split: option.splits if_splits)
  show "translate (mem8 ?t) root q = (if q = p @ [j] then v else translate (mem8 s) root q)" if "leaf_path q" for q
    using that p(3) by (elim leaf_path_cases) (auto simp: translate_snoc walk load split: option.splits)
  show "paging_tree ?t root"
    using ok(3) walk pool by (auto simp: paging_tree_def table_page_def)
qed

subsection \<open>The operations on the page map\<close>

lemma path_parts:
  "leaf_path (path v)" "table_path []" "table_path [pml4_index v]" "table_path [pml4_index v, pdpt_index v]"
  "table_path [pml4_index v, pdpt_index v, pd_index v]"
  by (simp_all add: leaf_path_def table_path_def path_def)

lemma blocked_iff:
  "blocked v s \<longleftrightarrow> null_entry (mem8 s) (kernel_pml4 s) [] (pml4_index v) \<or>
     null_entry (mem8 s) (kernel_pml4 s) [pml4_index v] (pdpt_index v) \<or>
     null_entry (mem8 s) (kernel_pml4 s) [pml4_index v, pdpt_index v] (pd_index v)"
  by (auto simp: blocked_def path_def)

text \<open>Every other field of the state is left alone by a step.\<close>

lemma tree_step_root: "tree_step n root s t \<Longrightarrow> kernel_pml4 t = kernel_pml4 s"
  by (drule tree_stepD(7)) (erule ssubst, simp)

definition only_memory :: "'a paging_scheme \<Rightarrow> 'a paging_scheme \<Rightarrow> bool" where
  "only_memory s t \<longleftrightarrow> t = s\<lparr>mem8 := mem8 t, used_pages := used_pages t\<rparr>"

lemma paging_map_page_cases:
  assumes ok: "paging_ok s"
  shows "\<exists>u. tree_step 3 (kernel_pml4 s) s u \<and>
    (paging_map_page virt phys flags s = u \<and>
       (blocked virt s \<or> 0 \<in> free_pages s \<or> card (free_pages s) < 3) \<or>
     \<not> blocked virt s \<and> (\<exists>pt. walk (mem8 u) (kernel_pml4 s) [pml4_index virt, pdpt_index virt, pd_index virt] = Some pt \<and>
       paging_map_page virt phys flags s = write_entry pt (pt_index virt) ((phys AND NOT 0xFFF) OR flags) u))"
proof -
  let ?root = "kernel_pml4 s"
  let ?i = "pml4_index virt" and ?j = "pdpt_index virt" and ?k = "pd_index virt"
  have s: "pmm_ok s" "bitmap_apart s" "paging_tree s ?root" using ok by (simp_all add: paging_ok_def)
  note paths = path_parts
  obtain t1 s1 where g1: "get_or_create_table ?root ?i PAGE_USER s = (t1, s1)" by fastforce
  note G1 = get_or_create_step [OF s _ _ g1, of "[]"]
  have st1: "tree_step 1 ?root s s1" using G1(1) paths by simp
  have null: "blocked virt s = (null_entry (mem8 s) ?root [] ?i \<or> null_entry (mem8 s1) ?root [?i] ?j \<or>
      null_entry (mem8 s1) ?root [?i, ?j] ?k)"
    using tree_stepD(6) [OF st1, of "[?i]" ?j] tree_stepD(6) [OF st1, of "[?i, ?j]" ?k] paths by (simp add: blocked_iff)
  show ?thesis
  proof (cases "t1 = 0")
    case True
    moreover have "tree_step 3 ?root s s1" using st1 by (simp add: tree_step_def)
    ultimately show ?thesis
      using G1(3) paths null by (intro exI [of _ s1]) (auto simp: paging_map_page_def g1)
  next
    case t1: False
    have w1: "walk (mem8 s1) ?root [?i] = Some t1" using G1(2) t1 paths by simp
    have n1: "\<not> null_entry (mem8 s) ?root [] ?i" using G1(4) t1 paths by auto
    obtain t2 s2 where g2: "get_or_create_table t1 ?j PAGE_USER s1 = (t2, s2)" by fastforce
    note G2 = get_or_create_step [OF tree_stepD(1-3) [OF st1] _ w1 g2]
    have st2: "tree_step 2 ?root s s2" using tree_step_trans [OF st1 G2(1)] paths by (simp add: numeral_2_eq_2)
    have null2: "null_entry (mem8 s2) ?root [?i, ?j] ?k = null_entry (mem8 s1) ?root [?i, ?j] ?k"
      using tree_stepD(6) [OF G2(1), of "[?i, ?j]" ?k] paths by simp
    have f1: "0 \<in> free_pages s1 \<or> free_pages s1 = {} \<Longrightarrow> 0 \<in> free_pages s \<or> card (free_pages s) < 3"
      using tree_stepD(8,9) [OF st1] by auto
    show ?thesis
    proof (cases "t2 = 0")
      case True
      moreover have "tree_step 3 ?root s s2" using st2 by (simp add: tree_step_def)
      ultimately show ?thesis
        using G2(3) paths null f1 t1 by (intro exI [of _ s2]) (auto simp: paging_map_page_def g1 g2)
    next
      case t2: False
      have w2: "walk (mem8 s2) ?root [?i, ?j] = Some t2" using G2(2) t2 paths by simp
      have n2: "\<not> null_entry (mem8 s1) ?root [?i] ?j" using G2(4) t2 paths by auto
      obtain t3 s3 where g3: "get_or_create_table t2 ?k PAGE_USER s2 = (t3, s3)" by fastforce
      note G3 = get_or_create_step [OF tree_stepD(1-3) [OF st2] _ w2 g3]
      have st3: "tree_step 3 ?root s s3" using tree_step_trans [OF st2 G3(1)] paths by simp
      have f2: "0 \<in> free_pages s2 \<or> free_pages s2 = {} \<Longrightarrow> 0 \<in> free_pages s \<or> card (free_pages s) < 3"
        using tree_stepD(8,9) [OF st2] by auto
      have res: "paging_map_page virt phys flags s =
        (if t3 = 0 then s3 else write_entry t3 (pt_index virt) ((phys AND NOT 0xFFF) OR flags) s3)"
        using t1 t2 by (simp add: paging_map_page_def g1 g2 g3)
      show ?thesis
        using G3(2-4) paths null null2 n1 n2 f2 st3 res by (intro exI [of _ s3]) (cases "t3 = 0"; auto)
    qed
  qed
qed

lemma map_page_spec:
  assumes "paging_ok s"
  shows "\<exists>done. (\<forall>q. leaf_path q \<longrightarrow> page_map (paging_map_page virt phys flags s) q =
       (if done \<and> q = path virt then (phys AND NOT 0xFFF) OR flags else page_map s q)) \<and>
     (\<not> blocked virt s \<and> 0 \<notin> free_pages s \<and> 3 \<le> card (free_pages s) \<longrightarrow> done) \<and>
     paging_ok (paging_map_page virt phys flags s) \<and> only_memory s (paging_map_page virt phys flags s) \<and>
     (\<forall>w. blocked w (paging_map_page virt phys flags s) = blocked w s)"
proof -
  let ?root = "kernel_pml4 s" and ?t = "paging_map_page virt phys flags s"
  note paths = path_parts
  obtain u where u: "tree_step 3 ?root s u"
    and c: "?t = u \<and> (blocked virt s \<or> 0 \<in> free_pages s \<or> card (free_pages s) < 3) \<or>
     \<not> blocked virt s \<and> (\<exists>pt. walk (mem8 u) ?root [pml4_index virt, pdpt_index virt, pd_index virt] = Some pt \<and>
       ?t = write_entry pt (pt_index virt) ((phys AND NOT 0xFFF) OR flags) u)"
    using paging_map_page_cases [OF assms] by blast
  note U = tree_stepD [OF u]
  have ru: "kernel_pml4 u = ?root" using tree_step_root [OF u] .
  from c consider (unchanged) "?t = u" "blocked virt s \<or> 0 \<in> free_pages s \<or> card (free_pages s) < 3"
    | (written) pt where "walk (mem8 u) ?root [pml4_index virt, pdpt_index virt, pd_index virt] = Some pt"
        "?t = write_entry pt (pt_index virt) ((phys AND NOT 0xFFF) OR flags) u" by blast
  then show ?thesis
  proof cases
    case unchanged
    note t = unchanged(1) and no = unchanged(2)
    show ?thesis
      using no U ru paths
      by (intro exI [of _ False]) (auto simp: t page_map_def paging_ok_def only_memory_def blocked_iff)
  next
    case written
    note w = written(1) and t = written(2)
    note W = leaf_write [OF U(1-3) paths(5) _ w index_bounds(4)]
    obtain m n where um: "u = s\<lparr>mem8 := m, used_pages := n\<rparr>" using U(7) by blast
    have "only_memory s ?t" by (simp add: only_memory_def t write_entry_def um)
    moreover have "kernel_pml4 ?t = ?root" by (simp add: t write_entry_def ru)
    ultimately show ?thesis
      using W U ru paths
      by (intro exI [of _ True]) (simp add: page_map_def paging_ok_def blocked_iff t path_def)
  qed
qed

lemma page_map_path:
  "page_map s (path v) =
     (case walk (mem8 s) (kernel_pml4 s) [pml4_index v, pdpt_index v, pd_index v] of None \<Rightarrow> 0
      | Some pt \<Rightarrow> read_entry pt (pt_index v) s)"
  using translate_snoc [of "mem8 s" "kernel_pml4 s" "[pml4_index v, pdpt_index v, pd_index v]" "pt_index v"]
  by (simp only: page_map_def path_def read_entry_def append.simps)

lemma not_blocked_walk:
  assumes "\<not> blocked v s"
  shows "walk (mem8 s) (kernel_pml4 s) [pml4_index v, pdpt_index v, pd_index v] =
    (let e1 = read_entry (kernel_pml4 s) (pml4_index v) s; t1 = entry_table e1;
         e2 = read_entry t1 (pdpt_index v) s; t2 = entry_table e2;
         e3 = read_entry t2 (pd_index v) s
     in if e1 AND PAGE_PRESENT = 0 \<or> e2 AND PAGE_PRESENT = 0 \<or> e3 AND PAGE_PRESENT = 0 then None
        else Some (entry_table e3))"
  using assms unfolding blocked_iff
  by (auto simp: null_entry_def subtable_def read_entry_def Let_def split: option.splits if_splits)

text \<open>
  The address that the leaf entry of \<open>v\<close>'s page gives, 0 without one: what \<open>paging_get_physical\<close>
  computes unless a null entry is in the way.
\<close>

lemma get_physical_page_map:
  assumes "\<not> blocked v s"
  shows "paging_get_physical v s =
    (if page_map s (path v) AND PAGE_PRESENT = 0 then 0
     else (page_map s (path v) AND NOT 0xFFF) OR (v AND 0xFFF))"
  unfolding page_map_path not_blocked_walk [OF assms] paging_get_physical_def Let_def by simp

lemma unmap_page_map:
  assumes "\<not> blocked v s"
  shows "paging_unmap_page v s =
    (case walk (mem8 s) (kernel_pml4 s) [pml4_index v, pdpt_index v, pd_index v] of None \<Rightarrow> s
     | Some pt \<Rightarrow> emit (Invlpg v) (write_entry pt (pt_index v) 0 s))"
  unfolding not_blocked_walk [OF assms] paging_unmap_page_def Let_def by simp

lemma path_eq_iff: "path v = path w \<longleftrightarrow> (\<forall>n. 12 \<le> n \<longrightarrow> n < 48 \<longrightarrow> bit v n = bit w n)"
proof -
  have m: "(0x1FF :: u64) = mask 9" by (simp add: mask_eq_exp_minus_1)
  have idx: "drop_bit k v AND 0x1FF = drop_bit k w AND 0x1FF \<longleftrightarrow>
      (\<forall>n. k \<le> n \<longrightarrow> n < k + 9 \<longrightarrow> bit v n = bit w n)" if "k + 9 \<le> 64" for k
    unfolding m
  proof safe
    fix n assume e: "drop_bit k v AND mask 9 = drop_bit k w AND mask 9" and n: "k \<le> n" "n < k + 9"
    have "bit (drop_bit k v AND mask 9) (n - k) = bit (drop_bit k w AND mask 9) (n - k)" by (simp only: e)
    then show "bit v n \<Longrightarrow> bit w n" "bit w n \<Longrightarrow> bit v n"
      using n that by (auto simp: bit_and_iff bit_drop_bit_eq bit_mask_iff)
  next
    assume "\<forall>n. k \<le> n \<longrightarrow> n < k + 9 \<longrightarrow> bit v n = bit w n"
    then show "drop_bit k v AND mask 9 = drop_bit k w AND mask 9"
      by (intro bit_word_eqI) (auto simp: bit_and_iff bit_drop_bit_eq bit_mask_iff)
  qed
  let ?eq = "\<lambda>n. bit v n = bit w n"
  have "(\<forall>n. 12 \<le> n \<longrightarrow> n < 48 \<longrightarrow> ?eq n) \<longleftrightarrow> (\<forall>n. 39 \<le> n \<longrightarrow> n < 39 + 9 \<longrightarrow> ?eq n) \<and>
      (\<forall>n. 30 \<le> n \<longrightarrow> n < 30 + 9 \<longrightarrow> ?eq n) \<and> (\<forall>n. 21 \<le> n \<longrightarrow> n < 21 + 9 \<longrightarrow> ?eq n) \<and>
      (\<forall>n. 12 \<le> n \<longrightarrow> n < 12 + 9 \<longrightarrow> ?eq n)" (is "_ \<longleftrightarrow> ?parts")
  proof
    assume p: ?parts
    have "?eq n" if n: "12 \<le> n" "n < 48" for n
    proof -
      consider "n < 12 + 9" | "21 \<le> n" "n < 21 + 9" | "30 \<le> n" "n < 30 + 9" | "39 \<le> n" "n < 39 + 9"
        using n by linarith
      then show ?thesis using p n by cases blast+
    qed
    then show "\<forall>n. 12 \<le> n \<longrightarrow> n < 48 \<longrightarrow> ?eq n" by blast
  qed simp
  then show ?thesis
    unfolding path_def list.inject pml4_index_def pdpt_index_def pd_index_def pt_index_def
    using idx [of 39] idx [of 30] idx [of 21] idx [of 12] by simp
qed

text \<open>Port and control instructions do not matter to the allocator or the tables.\<close>

lemma paging_emit [simp]:
  "pmm_ok (emit e s) = pmm_ok s" "free_pages (emit e s) = free_pages s"
  "bitmap_cells (emit e s) = bitmap_cells s"
  by (simp_all add: emit_def pmm_ok_def free_pages_def free_pfns_def used_pfns_def bitmap_test_def
      bitmap_cell_def bitmap_cells_def)

lemma paging_ok_emit [simp]: "paging_ok (emit e s) = paging_ok s" "blocked v (emit e s) = blocked v s"
  "page_map (emit e s) = page_map s"
  by (simp_all add: paging_ok_def paging_tree_def table_page_def bitmap_apart_def blocked_def page_map_def fun_eq_iff)
    (simp_all add: emit_def)

subsection \<open>Mapping and looking up\<close>

text \<open>A pool of eight frames with the bitmap in frame 2 and an empty root table in frame 7.\<close>

definition demo_paging :: paging where
  "demo_paging = pmm.extend demo_pool \<lparr>cr3 = 0x7000, kernel_pml4 = 0x7000\<rparr>"

lemma demo_paging_fields [simp]:
  "mem8 demo_paging = (\<lambda>_. 0)(0x2000 := 0x85)" "kernel_pml4 demo_paging = 0x7000"
  "bitmap demo_paging = 0x2000" "total_pages demo_paging = 8" "used_pages demo_paging = 3"
  by (simp_all add: demo_paging_def pmm.defs demo_pool_def)

lemma demo_paging_pool:
  "free_pages demo_paging = {0x1000, 0x3000, 0x4000, 0x5000, 0x6000}" "pmm_ok demo_paging"
  "bitmap_cells demo_paging = {0x2000}"
proof -
  have "bitmap_test n demo_paging = bitmap_test n demo_pool" for n
    by (simp add: bitmap_test_def bitmap_cell_def demo_pool_def)
  then have "free_pfns demo_paging = free_pfns demo_pool" "used_pfns demo_paging = used_pfns demo_pool"
    by (simp_all add: free_pfns_def used_pfns_def demo_pool_def)
  then show "free_pages demo_paging = {0x1000, 0x3000, 0x4000, 0x5000, 0x6000}" "pmm_ok demo_paging"
    by (simp_all add: free_pages_def demo_pool_sets page_of_def PAGE_SIZE_def pmm_ok_def)
  have "bitmap_cells demo_paging = (\<lambda>n. 0x2000 + n div 8) ` {0, 1, 2, 3, 4, 5, 6, 7}"
    by (simp add: bitmap_cells_def bitmap_cell_def below_8)
  then show "bitmap_cells demo_paging = {0x2000}" by simp
qed

lemma demo_paging_empty: "i < 512 \<Longrightarrow> load64 ((\<lambda>_. 0)(0x2000 := 0x85)) (pte_addr 0x7000 i) = 0"
proof -
  assume i: "i < 512"
  have al: "4096 dvd unat (0x7000 :: u64)" by simp
  have "(0x2000 :: u64) \<notin> page_bytes 0x7000" by (simp add: page_bytes_def)
  then have "load64 ((\<lambda>_. 0)(0x2000 := 0x85)) (pte_addr 0x7000 i) = load64 (\<lambda>_. 0) (pte_addr 0x7000 i)"
    by (intro load_page_cong [OF al i]) auto
  then show ?thesis by (simp add: load64_def load_le_def)
qed

lemma demo_paging_walk:
  assumes "table_path p"
  shows "walk ((\<lambda>_. 0)(0x2000 := 0x85)) 0x7000 p = (if p = [] then Some 0x7000 else None)"
proof (cases p)
  case (Cons i q)
  then show ?thesis using assms by (simp add: table_path_def subtable_def demo_paging_empty)
qed simp

lemma demo_paging_ok: "paging_ok demo_paging" "\<not> blocked v demo_paging"
proof -
  have "paging_tree demo_paging 0x7000"
    by (auto simp: paging_tree_def demo_paging_walk table_page_def demo_paging_pool page_bytes_def split: if_splits)
  moreover have "bitmap_apart demo_paging"
    by (simp add: bitmap_apart_def demo_paging_pool page_bytes_def)
  ultimately show "paging_ok demo_paging" by (simp add: paging_ok_def demo_paging_pool)
  show "\<not> blocked v demo_paging"
    using path_parts by (auto simp: blocked_iff null_entry_def demo_paging_walk demo_paging_empty subtable_def split: option.splits)
qed

text \<open>
  Property C4. \<open>paging_map_page\<close> is an update of the page map at the page of the given address:
  afterwards either that one leaf holds the frame address with the flags and every other leaf is
  what it was, or no leaf changed at all. It does succeed when three pages are free (page 0 not
  among them) and no present entry on the way points to address 0. The tables stay a tree of
  distinct pages owned by nobody else, and only memory and the allocator's counter change.
\<close>

theorem paging_map_page_refines:
  assumes "paging_ok s"
  shows "\<exists>done. (\<forall>q. leaf_path q \<longrightarrow> page_map (paging_map_page virt phys flags s) q =
       (if done \<and> q = path virt then (phys AND NOT 0xFFF) OR flags else page_map s q)) \<and>
     (\<not> blocked virt s \<and> 0 \<notin> free_pages s \<and> 3 \<le> card (free_pages s) \<longrightarrow> done) \<and>
     paging_ok (paging_map_page virt phys flags s) \<and> only_memory s (paging_map_page virt phys flags s) \<and>
     (\<forall>w. blocked w (paging_map_page virt phys flags s) = blocked w s)"
  using assms by (rule map_page_spec)

theorem paging_map_page_refines_witness:
  "\<exists>done. (\<forall>q. leaf_path q \<longrightarrow> page_map (paging_map_page 0xDEADB000 0x5000 3 demo_paging) q =
       (if done \<and> q = path 0xDEADB000 then (0x5000 AND NOT 0xFFF) OR 3 else page_map demo_paging q)) \<and> done"
  using paging_map_page_refines [OF demo_paging_ok(1), of "0xDEADB000" "0x5000" 3] demo_paging_ok(2) [of "0xDEADB000"]
  by (elim exE conjE) (auto simp: demo_paging_pool)

text \<open>
  Property C12. After mapping a page with the present flag and only flag bits in the low twelve,
  every address of that page resolves to the given frame at its own offset, and every address of
  another page resolves to what it resolved to before.
\<close>

theorem paging_map_then_get:
  assumes "paging_ok s" and "\<not> blocked virt s" and "0 \<notin> free_pages s" and "3 \<le> card (free_pages s)"
    and "flags AND PAGE_PRESENT \<noteq> 0" and "flags AND NOT 0xFFF = 0" and "\<not> blocked w s"
  shows "paging_get_physical w (paging_map_page virt phys flags s) =
    (if path w = path virt then (phys AND NOT 0xFFF) OR (w AND 0xFFF) else paging_get_physical w s)"
proof -
  let ?t = "paging_map_page virt phys flags s" and ?e = "(phys AND NOT 0xFFF) OR flags"
  obtain ok where d: "\<forall>q. leaf_path q \<longrightarrow> page_map ?t q = (if ok \<and> q = path virt then ?e else page_map s q)"
      "\<not> blocked virt s \<and> 0 \<notin> free_pages s \<and> 3 \<le> card (free_pages s) \<longrightarrow> ok"
      "\<forall>w. blocked w ?t = blocked w s"
    using map_page_spec [OF assms(1), of virt phys flags] by (elim exE conjE) rule
  have map: "page_map ?t (path w) = (if path w = path virt then ?e else page_map s (path w))"
    and nb: "\<not> blocked w ?t"
    using d(1) d(2,3) assms(2-4,7) path_parts(1) by simp_all
  have "?e AND PAGE_PRESENT \<noteq> 0"
    using assms(5) by (simp add: PAGE_PRESENT_def and_one_eq odd_iff_mod_2_eq_one [symmetric] bit_0 [symmetric] bit_or_iff)
  moreover have "?e AND NOT 0xFFF = phys AND NOT 0xFFF"
    using entry_table_flags [OF entry_table_aligned assms(6), of phys] by (simp only: entry_table_def)
  ultimately show ?thesis
    unfolding get_physical_page_map [OF nb] get_physical_page_map [OF assms(7)] map by simp
qed

theorem paging_map_then_get_witness:
  "paging_get_physical 0xDEADBEEF (paging_map_page 0xDEADB000 0x5000 3 demo_paging) = 0x5EEF"
  using paging_map_then_get [OF demo_paging_ok(1) demo_paging_ok(2), of 3 "0xDEADBEEF" "0xDEADB000" "0x5000"]
    demo_paging_ok(2)
  by (simp add: demo_paging_pool PAGE_PRESENT_def path_def pml4_index_def pdpt_index_def pd_index_def pt_index_def)

text \<open>
  Property C27. Unmapping clears the leaf of the address's page and no other, keeps the tables, and
  invalidates the translation of exactly that address when there was a table for it; afterwards the
  address does not resolve.
\<close>

theorem paging_unmap_clears:
  assumes "paging_ok s" and "\<not> blocked virt s"
  shows "paging_ok (paging_unmap_page virt s) \<and>
    (\<forall>q. leaf_path q \<longrightarrow> page_map (paging_unmap_page virt s) q = (if q = path virt then 0 else page_map s q)) \<and>
    paging_get_physical virt (paging_unmap_page virt s) = 0 \<and>
    hw_trace (paging_unmap_page virt s) = hw_trace s @
      (if walk (mem8 s) (kernel_pml4 s) [pml4_index virt, pdpt_index virt, pd_index virt] = None then [] else [Invlpg virt])"
proof (cases "walk (mem8 s) (kernel_pml4 s) [pml4_index virt, pdpt_index virt, pd_index virt]")
  case None
  then have "paging_unmap_page virt s = s" using unmap_page_map [OF assms(2)] by simp
  moreover have "page_map s (path virt) = 0" using None by (simp add: page_map_path del: walk.simps)
  ultimately show ?thesis
    using assms None get_physical_page_map [OF assms(2)] by (simp del: walk.simps)
next
  case (Some pt)
  let ?u = "write_entry pt (pt_index virt) 0 s"
  have t: "paging_unmap_page virt s = emit (Invlpg virt) ?u"
    using unmap_page_map [OF assms(2)] Some by simp
  have s: "pmm_ok s" "bitmap_apart s" "paging_tree s (kernel_pml4 s)" using assms(1) by (simp_all add: paging_ok_def)
  note W = leaf_write [OF s path_parts(5) _ Some index_bounds(4) [of virt], where v = 0]
  have root: "kernel_pml4 ?u = kernel_pml4 s" by (simp add: write_entry_def)
  have map: "page_map (paging_unmap_page virt s) q = (if q = path virt then 0 else page_map s q)" if "leaf_path q" for q
    using W(4) [of q] that unfolding t paging_ok_emit unfolding page_map_def root by (simp add: path_def)
  have nb: "\<not> blocked virt (paging_unmap_page virt s)"
    using assms(2) W(5) path_parts unfolding t paging_ok_emit unfolding blocked_iff root by simp
  have "paging_ok (paging_unmap_page virt s)"
    using W unfolding t paging_ok_emit unfolding paging_ok_def root by simp
  then show ?thesis
    using map [OF path_parts(1)] map get_physical_page_map [OF nb] Some
    by (simp add: t del: walk.simps) (simp add: emit_def write_entry_def)
qed

theorem paging_unmap_clears_witness:
  "paging_get_physical 0xDEADBEEF (paging_unmap_page 0xDEADBEEF (paging_map_page 0xDEADB000 0x5000 3 demo_paging)) = 0"
proof -
  let ?s = "paging_map_page 0xDEADB000 0x5000 3 demo_paging"
  have "paging_ok ?s" "\<not> blocked 0xDEADBEEF ?s"
    using map_page_spec [OF demo_paging_ok(1)] demo_paging_ok(2) by blast+
  from paging_unmap_clears [OF this] show ?thesis by blast
qed

subsection \<open>Address spaces\<close>

text \<open>The copy loop, on a cleared table other than the current root.\<close>

definition copy_top_half :: "u64 \<Rightarrow> 'a paging_scheme \<Rightarrow> 'a paging_scheme" where
  "copy_top_half pml4 s = for_int 256 512 (\<lambda>i s.
     write_entry pml4 (word_of_nat i) (read_entry (kernel_pml4 s) (word_of_nat i) s) s) s"

lemma copy_top_half_spec:
  assumes "4096 dvd unat new" and "4096 dvd unat (kernel_pml4 s)" and "new \<noteq> kernel_pml4 s"
  shows "\<exists>m. copy_top_half new s = s\<lparr>mem8 := m\<rparr> \<and>
    (\<forall>i<512. load64 m (pte_addr new i) =
       load64 (mem8 s) (pte_addr (if 256 \<le> unat i then kernel_pml4 s else new) i)) \<and>
    (\<forall>a. a \<notin> page_bytes new \<longrightarrow> m a = mem8 s a)"
proof -
  let ?root = "kernel_pml4 s"
  let ?P = "\<lambda>k u. \<exists>m. u = s\<lparr>mem8 := m\<rparr> \<and>
    (\<forall>i<512. load64 m (pte_addr new i) =
       load64 (mem8 s) (pte_addr (if 256 \<le> unat i \<and> unat i < k then ?root else new) i)) \<and>
    (\<forall>a. a \<notin> page_bytes new \<longrightarrow> m a = mem8 s a)"
  have "?P 512 (copy_top_half new s)"
    unfolding copy_top_half_def
  proof (rule for_int_rule [where P = ?P])
    show "?P 256 s" by (intro exI [of _ "mem8 s"]) auto
    fix k u assume k: "256 \<le> k" "k < 512" and "?P k u"
    then obtain m where m: "u = s\<lparr>mem8 := m\<rparr>" "\<And>i. i < 512 \<Longrightarrow> load64 m (pte_addr new i) =
       load64 (mem8 s) (pte_addr (if 256 \<le> unat i \<and> unat i < k then ?root else new) i)"
      "\<And>a. a \<notin> page_bytes new \<Longrightarrow> m a = mem8 s a" by blast
    let ?k = "word_of_nat k :: u64"
    have un: "unat ?k = k" using k by (simp add: unat_of_nat)
    then have k': "?k < 512" using k by (simp add: word_less_nat_alt)
    have root: "load64 m (pte_addr ?root ?k) = load64 (mem8 s) (pte_addr ?root ?k)"
      using page_bytes_same [OF assms(1,2)] assms(3) m(3) by (intro load_page_cong [OF assms(2) k']) blast
    let ?m = "store64 (pte_addr new ?k) (load64 m (pte_addr ?root ?k)) m"
    have "load64 ?m (pte_addr new i) =
       load64 (mem8 s) (pte_addr (if 256 \<le> unat i \<and> unat i < Suc k then ?root else new) i)" if "i < 512" for i
    proof (cases "i = ?k")
      case True
      then show ?thesis using un k root by simp
    next
      case False
      then have "unat i \<noteq> k" using un by (metis word_unat_eq_iff)
      then have "(256 \<le> unat i \<and> unat i < Suc k) = (256 \<le> unat i \<and> unat i < k)" by auto
      then show ?thesis using m(2) [OF that] False k' that
        by (simp only: load_store_other [OF assms(1) assms(1) k' that] prod.inject simp_thms)
    qed
    then show "?P (Suc k) (write_entry new ?k (read_entry (kernel_pml4 u) ?k u) u)"
      using m(3) store_outside [OF assms(1) k']
      by (intro exI [of _ ?m]) (simp add: m(1) write_entry_def read_entry_def)
  qed simp
  then show ?thesis by (auto simp: word_less_nat_alt)
qed

text \<open>The space that results: fresh root, old tables, their upper half.\<close>

lemma new_space_walk:
  assumes "\<forall>i<512. load64 m (pte_addr new i) = (if 256 \<le> unat i then load64 m (pte_addr root i) else 0)"
    and "table_path p"
  shows "walk m new p = (case p of [] \<Rightarrow> Some new | i # q \<Rightarrow> if i < 256 then None else walk m root p)"
proof (cases p)
  case (Cons i q)
  then have "i < 512" using assms(2) by (simp add: table_path_def)
  moreover have "(256 \<le> unat i) = (\<not> i < 256)" by (simp add: word_less_nat_alt not_less)
  ultimately have "subtable m new i = (if i < 256 then None else subtable m root i)"
    using assms(1) by (simp add: subtable_def)
  then show ?thesis using Cons by simp
qed simp

lemma same_tables_walk:
  assumes "paging_tree s root" and "table_path q"
    and same: "\<And>p u a. table_path p \<Longrightarrow> walk (mem8 s) root p = Some u \<Longrightarrow> a \<in> page_bytes u \<Longrightarrow> m a = mem8 s a"
  shows "walk m root q = walk (mem8 s) root q"
proof (rule walk_cong [OF _ assms(2)])
  fix p u j assume "table_path (p @ [j])" "walk (mem8 s) root p = Some u"
  then show "load64 m (pte_addr u j) = load64 (mem8 s) (pte_addr u j)"
    using paging_treeD(2) [OF assms(1)] same by (intro load_page_cong) (auto simp: table_path_snoc)
qed

lemma create_address_space_step:
  assumes ok: "paging_ok s" and alloc: "pmm_alloc_page s = (new, s1)" "new \<noteq> 0"
  shows "\<exists>t. paging_create_address_space s = (new, t) \<and> tree_step 1 (kernel_pml4 s) s t \<and>
    new \<in> free_pages s \<and> new \<notin> free_pages t \<and> table_page t new \<and>
    (\<forall>q. table_path q \<longrightarrow> walk (mem8 t) (kernel_pml4 s) q \<noteq> Some new) \<and>
    (\<forall>i<512. load64 (mem8 t) (pte_addr new i) =
       (if 256 \<le> unat i then load64 (mem8 t) (pte_addr (kernel_pml4 s) i) else 0))"
proof -
  let ?root = "kernel_pml4 s"
  have s: "pmm_ok s" "bitmap_apart s" "paging_tree s ?root" using ok by (simp_all add: paging_ok_def)
  have st1: "tree_step 1 ?root s s1" by (rule alloc_step [OF s alloc(1)])
  note S1 = tree_stepD [OF st1]
  have new: "new \<in> free_pages s" using pool.alloc_in [OF s(1)] alloc by simp
  have newf: "free_pages s1 = free_pages s - {new}" using pool.alloc_avail [OF s(1)] alloc(1) by simp
  have na: "4096 dvd unat new" using pool.avail_aligned [OF s(1) new] .
  have cells: "bitmap_cells s1 = bitmap_cells s"
    using pmm_frame_cells [of s s1] pmm_alloc_page_frame [of s] alloc(1) by simp
  have napart: "page_bytes new \<inter> bitmap_cells s1 = {}" using s(2) new cells by (simp add: bitmap_apart_def)
  have root1: "kernel_pml4 s1 = ?root" by (rule tree_step_root [OF st1])
  have rt: "table_page s1 ?root" using paging_treeD [OF S1(3) path_parts(2), of ?root] by (simp add: table_page_def)
  note cl = clear_table_spec [OF na, where s = s1]
  obtain m2 where m2: "clear_table new s1 = s1\<lparr>mem8 := m2\<rparr>" using cl(1) by blast
  have fr: "pmm_frame s s1" using pmm_alloc_page_frame [of s] alloc by simp
  have "walk (mem8 s1) ?root q = walk (mem8 s) ?root q" if "table_path q" for q
    using paging_treeD(4) [OF s(3)] fr by (intro same_tables_walk [OF s(3) that]) (auto simp: pmm_frame_def)
  then have ne: "v \<noteq> new" if "table_path q" "walk (mem8 s1) ?root q = Some v" for q v
    using paging_treeD(3) [OF s(3) that(1), of v] new that by auto
  obtain m where m: "copy_top_half new (clear_table new s1) = s1\<lparr>mem8 := m\<rparr>"
    "\<And>i. i < 512 \<Longrightarrow> load64 m (pte_addr new i) = load64 m2 (pte_addr (if 256 \<le> unat i then ?root else new) i)"
    "\<And>a. a \<notin> page_bytes new \<Longrightarrow> m a = m2 a"
    using copy_top_half_spec [OF na, of "clear_table new s1"] rt ne [OF path_parts(2)]
    by (auto simp: m2 root1 table_page_def)
  have out: "m a = mem8 s1 a" if "a \<notin> page_bytes new" for a
    using that m(3) cl(3) by (simp add: m2)
  let ?t = "s1\<lparr>mem8 := m\<rparr>"
  have eq: "paging_create_address_space s = (new, ?t)"
    using alloc m(1) by (simp add: paging_create_address_space_def copy_top_half_def)
  note cong = pmm_mem_cong [of s1 m]
  have c: "bitmap_cells ?t = bitmap_cells s1" "free_pages ?t = free_pages s1" "pmm_ok ?t = pmm_ok s1"
    using cong out napart by blast+
  have same: "mem8 ?t a = mem8 s1 a" if "table_path q" "walk (mem8 s1) ?root q = Some v" "a \<in> page_bytes v" for q v a
    using out page_bytes_same [OF na paging_treeD(2) [OF S1(3) that(1,2)] _ that(3)] ne [OF that(1,2)] by auto
  have st2: "tree_step 0 ?root s1 ?t"
    using c S1(1,2) same by (intro tree_step_same_tables [OF S1(3)]) (simp_all add: bitmap_apart_def)
  have "walk (mem8 ?t) ?root q \<noteq> Some new" if "table_path q" for q
  proof -
    have "walk (mem8 ?t) ?root q = walk (mem8 s1) ?root q"
      using same by (intro same_tables_walk [OF S1(3) that])
    then show ?thesis using ne [OF that] by auto
  qed
  moreover
  have "load64 m (pte_addr new i) = (if 256 \<le> unat i then load64 m (pte_addr ?root i) else 0)" if "i < 512" for i
  proof (cases "256 \<le> unat i")
    case True
    have "load64 m (pte_addr ?root i) = load64 m2 (pte_addr ?root i)"
      using rt page_bytes_same [OF na _ _] ne [OF path_parts(2), of ?root] m(3)
      by (intro load_page_cong that) (auto simp: table_page_def)
    then show ?thesis using True m(2) [OF that] by simp
  next
    case False
    then show ?thesis using m(2) [OF that] cl(2) [OF that] by (simp add: m2)
  qed
  moreover have "table_page ?t new" using alloc(2) na napart c newf by (simp add: table_page_def)
  ultimately show ?thesis
    using eq tree_step_trans [OF st1 st2] new c newf by auto
qed

lemma new_space_tree:
  assumes tree: "paging_tree t root" and new: "table_page t new"
    and fresh: "\<forall>q. table_path q \<longrightarrow> walk (mem8 t) root q \<noteq> Some new"
    and loads: "\<forall>i<512. load64 (mem8 t) (pte_addr new i) =
      (if 256 \<le> unat i then load64 (mem8 t) (pte_addr root i) else 0)"
  shows "paging_tree t new"
    "\<And>q. leaf_path q \<Longrightarrow> translate (mem8 t) new q = (if hd q < 256 then 0 else translate (mem8 t) root q)"
proof -
  note w = new_space_walk [OF loads]
  have w': "walk (mem8 t) new q = Some v \<Longrightarrow> q = [] \<and> v = new \<or> q \<noteq> [] \<and> walk (mem8 t) root q = Some v"
    if "table_path q" for q v
    using w [OF that] by (auto split: list.splits if_splits)
  show "paging_tree t new"
    unfolding paging_tree_def
  proof (intro conjI allI impI)
    fix q v assume "table_path q" "walk (mem8 t) new q = Some v"
    then show "table_page t v" using w' [of q v] new paging_treeD [OF tree, of q v] by (auto simp: table_page_def)
  next
    fix q r v assume q: "table_path q" "walk (mem8 t) new q = Some v" and r: "table_path r" "walk (mem8 t) new r = Some v"
    show "q = r"
      using w' [OF q] w' [OF r] fresh q r paging_tree_inj [OF tree q(1) r(1)] by auto
  qed
  show "translate (mem8 t) new q = (if hd q < 256 then 0 else translate (mem8 t) root q)" if "leaf_path q" for q
  proof -
    from that obtain p j where q: "q = p @ [j]" "length p = 3" "table_path p" by (elim leaf_path_cases)
    then obtain i r where p: "p = i # r" by (cases p) auto
    have "walk (mem8 t) new p = (if i < 256 then None else walk (mem8 t) root p)" using w [OF q(3)] p by simp
    then show ?thesis unfolding q(1) translate_snoc by (simp add: p)
  qed
qed

text \<open>
  Property C21. A new address space is a fresh page whose upper half (entries 256 to 511) maps
  exactly what the current space maps there and whose lower half maps nothing; creating it leaves
  the current page map as it was, and after switching to it the invariant holds, the processor's
  root register and the kernel's copy agree, and the page map is the new one. Without a page to
  take, the result is the null pointer.
\<close>

theorem paging_address_space:
  assumes "paging_ok s" and "paging_create_address_space s = (new, t)"
  shows "paging_ok t \<and> (\<forall>q. leaf_path q \<longrightarrow> page_map t q = page_map s q) \<and>
    (if new = 0 then 0 \<in> free_pages s \<or> free_pages s = {}
     else new \<in> free_pages s \<and> new \<notin> free_pages t \<and>
       (let u = paging_switch_directory new t
        in paging_ok u \<and> cr3 u = new \<and> paging_get_current_directory u = new \<and>
           (\<forall>q. leaf_path q \<longrightarrow> page_map u q = (if hd q < 256 then 0 else page_map s q))))"
proof -
  have s: "pmm_ok s" "bitmap_apart s" "paging_tree s (kernel_pml4 s)" using assms(1) by (simp_all add: paging_ok_def)
  show ?thesis
  proof (cases "fst (pmm_alloc_page s) = 0")
    case True
    then have t: "new = 0" "pmm_alloc_page s = (0, t)"
      using assms(2) by (auto simp: paging_create_address_space_def split: prod.splits if_splits)
    note st = alloc_step [OF s t(2)]
    show ?thesis
      using tree_stepD [OF st] tree_step_root [OF st] pool.alloc_fail [OF s(1)] t
      by (simp add: paging_ok_def page_map_def)
  next
    case False
    then obtain s1 where al: "pmm_alloc_page s = (new, s1)" "new \<noteq> 0"
      using assms(2) by (auto simp: paging_create_address_space_def Let_def split: prod.splits if_splits)
    have st: "tree_step 1 (kernel_pml4 s) s t"
      and new: "new \<in> free_pages s" "new \<notin> free_pages t" "table_page t new"
        "\<forall>q. table_path q \<longrightarrow> walk (mem8 t) (kernel_pml4 s) q \<noteq> Some new"
      and loads: "\<forall>i<512. load64 (mem8 t) (pte_addr new i) =
       (if 256 \<le> unat i then load64 (mem8 t) (pte_addr (kernel_pml4 s) i) else 0)"
      using create_address_space_step [OF assms(1) al] assms(2) by auto
    note T = tree_stepD [OF st] and r = tree_step_root [OF st]
    note N = new_space_tree [OF T(3) new(3) new(4) loads]
    have sw: "pmm_ok (paging_switch_directory new t) = pmm_ok t"
      "free_pages (paging_switch_directory new t) = free_pages t"
      "bitmap_cells (paging_switch_directory new t) = bitmap_cells t"
      "mem8 (paging_switch_directory new t) = mem8 t" "kernel_pml4 (paging_switch_directory new t) = new"
      "cr3 (paging_switch_directory new t) = new"
      by (simp_all add: paging_switch_directory_def pmm_ok_def free_pages_def free_pfns_def used_pfns_def
          bitmap_test_def bitmap_cell_def bitmap_cells_def) (simp_all add: emit_def)
    have "paging_ok (paging_switch_directory new t)"
      using T N(1) new(4)
      by (simp add: paging_ok_def bitmap_apart_def paging_tree_def table_page_def sw)
    then show ?thesis
      using T N(2) new al(2) r
      by (auto simp: paging_ok_def page_map_def paging_get_current_directory_def sw Let_def)
  qed
qed

theorem paging_address_space_witness:
  "\<exists>new t. paging_create_address_space demo_paging = (new, t) \<and> new \<noteq> 0 \<and> paging_ok (paging_switch_directory new t)"
proof -
  obtain new t where nt: "paging_create_address_space demo_paging = (new, t)" by fastforce
  from paging_address_space [OF demo_paging_ok(1) nt] nt show ?thesis
    by (cases "new = 0") (auto simp: demo_paging_pool Let_def)
qed

subsection \<open>Initialisation\<close>

lemma paging_hex_eq: "paging_hex v = hex_string v"
proof -
  have digit: "(let nibble = ucast n :: u8 in if nibble < 10 then char_of (48 + unat nibble)
      else char_of (97 + unat nibble - 10)) = hex_digits ! unat n" if "unat n < 16" for n :: u64
  proof -
    have "list_all (\<lambda>k. (if (word_of_nat k :: u8) < 10 then char_of (48 + unat (word_of_nat k :: u8))
        else char_of (97 + unat (word_of_nat k :: u8) - 10)) = hex_digits ! k) [0..<16]" by code_simp
    from this [unfolded list_all_iff, THEN bspec, of "unat n"] that
    have "(if (word_of_nat (unat n) :: u8) < 10 then char_of (48 + unat (word_of_nat (unat n) :: u8))
        else char_of (97 + unat (word_of_nat (unat n) :: u8) - 10)) = hex_digits ! unat n" by auto
    then show ?thesis by (simp only: of_nat_unat Let_def)
  qed
  have "unat (drop_bit ((15 - k) * 4) v AND 0xF) < 16" for k by (simp add: unat_nibble)
  then show ?thesis
    unfolding paging_hex_def hex_string_def using digit by (intro map_cong refl) blast
qed

text \<open>
  \<open>paging_init\<close> adopts the page tables the processor is using: the kernel's root is
  the root register, whose sixteen hexadecimal digits (the same as \<open>vga_print_hex\<close> prints) it
  reports; neither the register nor memory changes.
\<close>

theorem paging_init_adopts:
  "kernel_pml4 (paging_init s) = cr3 s \<and> cr3 (paging_init s) = cr3 s \<and> mem8 (paging_init s) = mem8 s \<and>
   hw_trace (paging_init s) = hw_trace s \<and> hex_value (paging_hex (cr3 s)) = unat (cr3 s) \<and>
   paging_hex (cr3 s) = hex_string (cr3 s)"
proof -
  have p: "kernel_pml4 (vga_print cs c t) = kernel_pml4 t" "cr3 (vga_print cs c t) = cr3 t"
    for cs c and t :: "'a paging_scheme"
    by (rule vga_frame_field [OF vga_print_frame]; simp)+
  show ?thesis
    by (simp add: paging_init_def Let_def p paging_hex_eq hex_value_hex_string)
qed

subsection \<open>The boot mapping\<close>

text \<open>
  The tables of \<open>boot.asm\<close>: one entry at each of the two upper levels, and at the third a 2 MB
  page at physical address 0, which is a leaf, not a table.
\<close>

definition boot_tables :: "u64 \<Rightarrow> u64 \<Rightarrow> 'a paging_scheme \<Rightarrow> bool" where
  "boot_tables pdpt pd s \<longleftrightarrow> pdpt \<noteq> 0 \<and> 4096 dvd unat pdpt \<and> pd \<noteq> 0 \<and> 4096 dvd unat pd \<and>
     read_entry (kernel_pml4 s) 0 s = pdpt OR 3 \<and> read_entry pdpt 0 s = pd OR 3 \<and> read_entry pd 0 s = 0x83"

lemma low_indices:
  assumes "unat v < 2 ^ 21"
  shows "pml4_index v = 0" "pdpt_index v = 0" "pd_index v = 0"
proof -
  have "drop_bit k v = 0" if "21 \<le> k" for k
  proof -
    have "unat v < 2 ^ k" using assms that by (meson less_le_trans one_le_numeral power_increasing)
    then have "drop_bit k (take_bit LENGTH(64) (unat v)) = 0"
      using unsigned_less [of v, where 'a = nat] by (simp add: drop_bit_eq_div take_bit_eq_mod)
    then have "unat (drop_bit k v) = 0" by (simp only: unsigned_drop_bit_eq)
    then show ?thesis by (simp only: unat_eq_0)
  qed
  then show "pml4_index v = 0" "pdpt_index v = 0" "pd_index v = 0"
    by (simp_all add: pml4_index_def pdpt_index_def pd_index_def)
qed

text \<open>
  In the first 2 MB, which the boot code maps with one large page, the paging code
  takes that leaf for a table at address 0: mapping a page there silently does nothing, the
  translation of an address is read from low physical memory, and unmapping a page overwrites
  eight bytes of low physical memory.
\<close>

theorem paging_boot_region:
  assumes "boot_tables pdpt pd s" and "unat v < 2 ^ 21"
  shows "paging_map_page v phys flags s = s \<and>
    paging_get_physical v s = (let e = load64 (mem8 s) (8 * pt_index v)
      in if e AND PAGE_PRESENT = 0 then 0 else (e AND NOT 0xFFF) OR (v AND 0xFFF)) \<and>
    paging_unmap_page v s = emit (Invlpg v) (s\<lparr>mem8 := store64 (8 * pt_index v) 0 (mem8 s)\<rparr>)"
proof -
  have e: "entry_table (pdpt OR 3) = pdpt" "entry_table (pd OR 3) = pd" "entry_table 0x83 = 0"
    using assms(1) entry_table_flags [of pdpt 3] entry_table_flags [of pd 3] entry_table_flags [of 0 "0x83"]
    by (simp_all add: boot_tables_def)
  have p: "(pdpt OR 3) AND PAGE_PRESENT \<noteq> 0" "(pd OR 3) AND PAGE_PRESENT \<noteq> 0" "(0x83 :: u64) AND PAGE_PRESENT \<noteq> 0"
    by (simp_all add: PAGE_PRESENT_def and_one_eq odd_iff_mod_2_eq_one [symmetric] bit_0 [symmetric] bit_or_iff)
  note b = assms(1) [unfolded boot_tables_def]
  note i = low_indices [OF assms(2)]
  have "paging_map_page v phys flags s = s"
    using b p e by (simp add: paging_map_page_def get_or_create_table_def i)
  moreover have "paging_get_physical v s = (let e = load64 (mem8 s) (8 * pt_index v)
      in if e AND PAGE_PRESENT = 0 then 0 else (e AND NOT 0xFFF) OR (v AND 0xFFF))"
    using b p e by (simp add: paging_get_physical_def i Let_def) (simp add: read_entry_def pte_addr_def)
  moreover have "paging_unmap_page v s = emit (Invlpg v) (s\<lparr>mem8 := store64 (8 * pt_index v) 0 (mem8 s)\<rparr>)"
    using b p e by (simp add: paging_unmap_page_def i Let_def write_entry_def) (simp add: pte_addr_def)
  ultimately show ?thesis by blast
qed

text \<open>The boot tables at 1 MB, as the linker could place them.\<close>

definition demo_boot :: paging where
  "demo_boot = demo_paging\<lparr>kernel_pml4 := 0x101000, cr3 := 0x101000, mem8 :=
     store64 (pte_addr 0x101000 0) (0x102000 OR 3) (store64 (pte_addr 0x102000 0) (0x103000 OR 3)
       (store64 (pte_addr 0x103000 0) 0x83 (\<lambda>_. 0)))\<rparr>"

theorem paging_boot_region_witness:
  "paging_get_physical 0x5000 demo_boot = 0 \<and> paging_map_page 0x5000 0x5000 3 demo_boot = demo_boot"
proof -
  have loads: "load64 (mem8 demo_boot) (pte_addr 0x101000 0) = 0x102000 OR 3"
    "load64 (mem8 demo_boot) (pte_addr 0x102000 0) = 0x103000 OR 3"
    "load64 (mem8 demo_boot) (pte_addr 0x103000 0) = 0x83"
    "load64 (mem8 demo_boot) (pte_addr 0 5) = 0"
    unfolding demo_boot_def by (simp_all add: load_store_other) (simp add: load64_def load_le_def)
  then have "boot_tables 0x102000 0x103000 demo_boot"
    by (simp add: boot_tables_def read_entry_def) (simp add: demo_boot_def)
  moreover have "pt_index 0x5000 = 5" by (simp add: pt_index_def)
  ultimately show ?thesis
    using paging_boot_region [of "0x102000" "0x103000" demo_boot "0x5000"] loads(4)
    by (simp add: pte_addr_def)
qed

end
