(* ===== verification/Heap_Blocks.thy ===== *)
theory Heap_Blocks
  imports Phys_Mem
begin

text \<open>
  The kernel heap as a list of blocks: the 32-byte headers of \<open>kheap.c\<close> in the byte memory, the
  predicate that a run of blocks lies at an address, doubly linked and without gaps, and what
  allocation and release do to the list of sizes and flags. Nothing here depends on the
  allocator's code: it is the abstract side of the refinement in \<open>Kheap\<close>.
\<close>

text \<open>The bytes from an address up; ranges here never pass the end of the address space.\<close>

definition bytes_at :: "u64 \<Rightarrow> nat \<Rightarrow> u64 set" where
  "bytes_at a n = {x. unat a \<le> unat x \<and> unat x < unat a + n}"

subsection \<open>Headers in memory\<close>

text \<open>
  \<open>struct block_header\<close>: \<open>size\<close> at offset 0, \<open>is_free\<close> at 8, \<open>next\<close> at 16, \<open>prev\<close> at 24,
  32 bytes in all.
\<close>

record block_header_t =
  blk_size :: u64
  blk_free :: bool
  blk_next :: u64
  blk_prev :: u64

definition read_header :: "(u64 \<Rightarrow> u8) \<Rightarrow> u64 \<Rightarrow> block_header_t" where
  "read_header m b = \<lparr>blk_size = load64 m b, blk_free = (m (b + 8) \<noteq> 0),
     blk_next = load64 m (b + 16), blk_prev = load64 m (b + 24)\<rparr>"

definition put_size :: "u64 \<Rightarrow> u64 \<Rightarrow> (u64 \<Rightarrow> u8) \<Rightarrow> u64 \<Rightarrow> u8" where
  "put_size b v m = store64 b v m"

definition put_free :: "u64 \<Rightarrow> bool \<Rightarrow> (u64 \<Rightarrow> u8) \<Rightarrow> u64 \<Rightarrow> u8" where
  "put_free b f m = m(b + 8 := if f then 1 else 0)"

definition put_next :: "u64 \<Rightarrow> u64 \<Rightarrow> (u64 \<Rightarrow> u8) \<Rightarrow> u64 \<Rightarrow> u8" where
  "put_next b v m = store64 (b + 16) v m"

definition put_prev :: "u64 \<Rightarrow> u64 \<Rightarrow> (u64 \<Rightarrow> u8) \<Rightarrow> u64 \<Rightarrow> u8" where
  "put_prev b v m = store64 (b + 24) v m"

lemmas put_defs = put_size_def put_free_def put_next_def put_prev_def

lemma load_store_apart:
  fixes a b :: u64
  assumes "8 \<le> unat (b - a)" and "8 \<le> unat (a - b)"
  shows "load64 (store64 a v m) b = load64 m b"
proof (rule load64_cong)
  fix k :: nat assume k: "k < 8"
  have "unat (a - b) + unat (b - a) = 2 ^ 64"
  proof -
    let ?x = "unat (a - b)" and ?y = "unat (b - a)"
    have "unat ((a - b) + (b - a)) = (?x + ?y) mod 2 ^ LENGTH(64)" by (rule unat_word_ariths)
    then have "(?x + ?y) mod 2 ^ 64 = 0" by simp
    then obtain q where q: "?x + ?y = 2 ^ 64 * q" by (auto simp: mod_eq_0_iff_dvd elim: dvdE)
    have "?x < 2 ^ 64" "?y < 2 ^ 64"
      using unsigned_less [of "a - b", where 'a = nat] unsigned_less [of "b - a", where 'a = nat] by simp_all
    with q assms have "0 < q" "q < 2" by (auto intro: gr0I)
    with q show ?thesis by simp
  qed
  with assms k have "unat (b - a) + unat (word_of_nat k :: u64) < 2 ^ LENGTH(64)"
    by (simp add: unat_of_nat)
  from unat_add_exact [OF this] have "\<not> unat (b + word_of_nat k - a) < 8"
    using assms(1) by (simp add: algebra_simps)
  then show "store64 a v m (b + word_of_nat k) = m (b + word_of_nat k)"
    by (simp add: store64_byte)
qed

lemma load_other_byte:
  fixes a b :: u64
  assumes "8 \<le> unat (b - a)"
  shows "load64 (m(b := v)) a = load64 m a"
proof (rule load64_cong)
  fix k :: nat assume k: "k < 8"
  have "a + word_of_nat k \<noteq> b"
  proof
    assume "a + word_of_nat k = b"
    then have "b - a = word_of_nat k" by (metis add_diff_cancel_left')
    with k assms show False by (simp add: unat_of_nat)
  qed
  then show "(m(b := v)) (a + word_of_nat k) = m (a + word_of_nat k)" by simp
qed

lemma read_header_put [simp]:
  "read_header (put_size b v m) b = (read_header m b)\<lparr>blk_size := v\<rparr>"
  "read_header (put_free b f m) b = (read_header m b)\<lparr>blk_free := f\<rparr>"
  "read_header (put_next b v m) b = (read_header m b)\<lparr>blk_next := v\<rparr>"
  "read_header (put_prev b v m) b = (read_header m b)\<lparr>blk_prev := v\<rparr>"
  by (simp_all add: read_header_def put_defs load_store_apart load_other_byte store64_byte)

lemma bytes_at_word: "x \<in> bytes_at a n \<Longrightarrow> \<exists>k<n. x = a + word_of_nat k"
proof -
  assume "x \<in> bytes_at a n"
  then have "unat a \<le> unat x" "unat x - unat a < n" by (auto simp: bytes_at_def)
  then have "x = a + word_of_nat (unat x - unat a)" by (simp add: of_nat_diff)
  with \<open>unat x - unat a < n\<close> show ?thesis by blast
qed

lemma bytes_atI: "unat a + n \<le> 2 ^ 64 \<Longrightarrow> k < n \<Longrightarrow> a + word_of_nat k \<in> bytes_at a n"
  for a :: u64
proof -
  assume *: "unat a + n \<le> 2 ^ 64" "k < n"
  then have k: "unat (word_of_nat k :: u64) = k" by (simp add: unat_of_nat)
  with * have "unat (a + word_of_nat k) = unat a + k" by (subst unat_add_exact) simp_all
  with * show ?thesis by (simp add: bytes_at_def)
qed

text \<open>A store touches its own bytes only.\<close>

lemma store64_outside: "unat a + 8 \<le> 2 ^ 64 \<Longrightarrow> x \<notin> bytes_at a 8 \<Longrightarrow> store64 a v m x = m x"
  using bytes_atI [of a 8 "unat (x - a)"] by (auto simp: store64_byte)

lemma unat_plus_num:
  fixes b :: u64
  shows "unat b + k \<le> 2 ^ 64 \<Longrightarrow> j < k \<Longrightarrow> unat (b + word_of_nat j) = unat b + j"
  using bytes_atI [of b k j] by (subst unat_add_exact) (simp_all add: unat_of_nat)

lemma put_outside:
  assumes "unat b + 32 \<le> 2 ^ 64" and "x \<notin> bytes_at b 32"
  shows "put_size b v m x = m x" "put_free b f m x = m x" "put_next b v m x = m x" "put_prev b v m x = m x"
proof -
  have u: "unat (b + 8) = unat b + 8" "unat (b + 16) = unat b + 16" "unat (b + 24) = unat b + 24"
    using unat_plus_num [OF assms(1), of 8] unat_plus_num [OF assms(1), of 16]
      unat_plus_num [OF assms(1), of 24] by simp_all
  have sub: "bytes_at (b + 8) 8 \<subseteq> bytes_at b 32" "bytes_at (b + 16) 8 \<subseteq> bytes_at b 32"
    "bytes_at (b + 24) 8 \<subseteq> bytes_at b 32" "bytes_at b 8 \<subseteq> bytes_at b 32" "b + 8 \<in> bytes_at b 32"
    by (auto simp: bytes_at_def u)
  show "put_free b f m x = m x" using sub(5) assms(2) by (auto simp: put_free_def)
  show "put_size b v m x = m x" unfolding put_size_def
    by (rule store64_outside) (use sub(4) assms in auto)
  show "put_next b v m x = m x" unfolding put_next_def
    by (rule store64_outside) (use sub(2) assms u in auto)
  show "put_prev b v m x = m x" unfolding put_prev_def
    by (rule store64_outside) (use sub(3) assms u in auto)
qed

lemma read_header_cong:
  assumes "\<And>x. x \<in> bytes_at a 32 \<Longrightarrow> m' x = m x" and "unat a + 32 \<le> 2 ^ 64"
  shows "read_header m' a = read_header m a"
proof -
  have b: "m' (a + word_of_nat k) = m (a + word_of_nat k)" if "k < 32" for k
    using bytes_atI [OF assms(2) that] assms(1) by blast
  have "load64 m' (a + word_of_nat j) = load64 m (a + word_of_nat j)" if "j + 8 \<le> 32" for j
    by (rule load64_cong) (use b [of "j + _"] that in \<open>simp add: add.assoc\<close>)
  from this [of 0] this [of 16] this [of 24] b [of 8] show ?thesis by (simp add: read_header_def)
qed

lemma bytes_at_apart:
  "unat a + i \<le> unat b \<or> unat b + j \<le> unat a \<Longrightarrow> bytes_at a i \<inter> bytes_at b j = {}"
  by (auto simp: bytes_at_def)

lemma read_header_other:
  assumes "unat a + 32 \<le> 2 ^ 64" and "unat b + 32 \<le> 2 ^ 64"
    and "unat a + 32 \<le> unat b \<or> unat b + 32 \<le> unat a"
  shows "read_header (put_size b v m) a = read_header m a"
    "read_header (put_free b f m) a = read_header m a"
    "read_header (put_next b v m) a = read_header m a"
    "read_header (put_prev b v m) a = read_header m a"
  using bytes_at_apart [OF assms(3)]
  by (auto intro!: read_header_cong [OF _ assms(1)] put_outside [OF assms(2)])

subsection \<open>A run of blocks\<close>

type_synonym block = "u64 \<times> bool"

definition extent :: "block list \<Rightarrow> nat" where
  "extent bs = sum_list (map (\<lambda>b. 32 + unat (fst b)) bs)"

lemma extent_simps [simp]:
  "extent [] = 0"
  "extent (b # bs) = 32 + unat (fst b) + extent bs"
  "extent (as @ bs) = extent as + extent bs"
  by (simp_all add: extent_def)

definition addr_after :: "u64 \<Rightarrow> block list \<Rightarrow> u64" where
  "addr_after a bs = a + word_of_nat (extent bs)"

lemma addr_after_simps [simp]:
  "addr_after a [] = a"
  "addr_after a (b # bs) = addr_after (a + 32 + fst b) bs"
  "addr_after a (as @ bs) = addr_after (addr_after a as) bs"
  by (simp_all add: addr_after_def add.assoc)

fun last_addr :: "u64 \<Rightarrow> u64 \<Rightarrow> block list \<Rightarrow> u64" where
  "last_addr p a [] = p"
| "last_addr p a (b # bs) = last_addr a (a + 32 + fst b) bs"

lemma last_addr_snoc [simp]: "last_addr p a (bs @ [b]) = addr_after a bs"
  by (induction bs arbitrary: p a) simp_all

fun blocks_at :: "(u64 \<Rightarrow> u8) \<Rightarrow> u64 \<Rightarrow> u64 \<Rightarrow> block list \<Rightarrow> u64 \<Rightarrow> bool" where
  "blocks_at m p a [] nx = True"
| "blocks_at m p a ((n, f) # bs) nx =
     (read_header m a = \<lparr>blk_size = n, blk_free = f,
        blk_next = (if bs = [] then nx else a + 32 + n), blk_prev = p\<rparr> \<and>
      blocks_at m a (a + 32 + n) bs nx)"

lemma blocks_at_append [simp]:
  "blocks_at m p a (as @ bs) nx \<longleftrightarrow>
     blocks_at m p a as (if bs = [] then nx else addr_after a as) \<and>
     blocks_at m (last_addr p a as) (addr_after a as) bs nx"
  by (induction m p a as nx rule: blocks_at.induct) auto

lemma unat_step:
  "unat a + extent ((n, f) # bs) \<le> 2 ^ 64 \<Longrightarrow> bs \<noteq> [] \<Longrightarrow> unat (a + 32 + n) = unat a + 32 + unat n"
proof -
  assume *: "unat a + extent ((n, f) # bs) \<le> 2 ^ 64" "bs \<noteq> []"
  then have "0 < extent bs" by (cases bs) auto
  with * have "32 + unat n < 2 ^ 64" "unat a + (32 + unat n) < 2 ^ 64" by simp_all
  then have "unat (32 + n) = 32 + unat n" by (subst unat_add_exact) simp_all
  then show ?thesis using \<open>unat a + (32 + unat n) < 2 ^ 64\<close>
    by (simp only: add.assoc) (subst unat_add_exact, simp_all)
qed

lemma addr_after_unat:
  "unat a + extent as < 2 ^ 64 \<Longrightarrow> unat (addr_after a as) = unat a + extent as"
  unfolding addr_after_def by (subst unat_add_exact) (simp_all add: unat_of_nat)

text \<open>A run of blocks is read from its own bytes.\<close>

lemma blocks_at_cong:
  assumes "\<And>x. x \<in> bytes_at a (extent bs) \<Longrightarrow> m' x = m x" and "unat a + extent bs \<le> 2 ^ 64"
  shows "blocks_at m' p a bs nx = blocks_at m p a bs nx"
  using assms
proof (induction bs arbitrary: p a)
  case Nil
  then show ?case by simp
next
  case (Cons b bs)
  obtain n f where b: "b = (n, f)" by (cases b)
  have "read_header m' a = read_header m a"
    by (rule read_header_cong) (use Cons.prems in \<open>auto simp: bytes_at_def\<close>)
  moreover have "blocks_at m' a (a + 32 + n) bs nx = blocks_at m a (a + 32 + n) bs nx"
  proof (cases "bs = []")
    case False
    have u: "unat (a + 32 + n) = unat a + 32 + unat n"
      using unat_step [OF _ False] Cons.prems(2) b by simp
    show ?thesis
      by (rule Cons.IH) (use Cons.prems u b in \<open>auto simp: bytes_at_def\<close>)
  qed simp
  ultimately show ?case by (simp add: b)
qed

subsection \<open>Allocation and release on the list\<close>

text \<open>The first free block that is large enough, with the blocks before and after it.\<close>

fun bl_fit :: "u64 \<Rightarrow> block list \<Rightarrow> (block list \<times> u64 \<times> block list) option" where
  "bl_fit n [] = None"
| "bl_fit n ((k, f) # bs) =
     (if f \<and> n \<le> k then Some ([], k, bs)
      else map_option (\<lambda>(xs, j, ys). ((k, f) # xs, j, ys)) (bl_fit n bs))"

text \<open>
  A block of size \<open>k\<close> of which \<open>n\<close> bytes are taken: the rest becomes a free block if it has room
  for a header and 16 bytes.
\<close>

definition bl_cut :: "u64 \<Rightarrow> u64 \<Rightarrow> block list" where
  "bl_cut n k = (if unat n + 48 \<le> unat k then [(n, False), (k - n - 32, True)] else [(k, False)])"

text \<open>Releasing the block of size \<open>n\<close> between \<open>xs\<close> and \<open>ys\<close>, merged with its free neighbours.\<close>

fun bl_absorb :: "u64 \<Rightarrow> block list \<Rightarrow> block list" where
  "bl_absorb n ((k, True) # ys) = (n + 32 + k, True) # ys"
| "bl_absorb n ys = (n, True) # ys"

definition bl_free :: "block list \<Rightarrow> u64 \<Rightarrow> block list \<Rightarrow> block list" where
  "bl_free xs n ys =
     (if xs \<noteq> [] \<and> snd (last xs)
      then butlast xs @ (fst (last xs) + 32 + fst (hd (bl_absorb n ys)), True) # tl (bl_absorb n ys)
      else xs @ bl_absorb n ys)"

lemma bl_fit_Some:
  "bl_fit n bs = Some (xs, k, ys) \<Longrightarrow>
    bs = xs @ (k, True) # ys \<and> n \<le> k \<and> (\<forall>(j, f)\<in>set xs. \<not> (f \<and> n \<le> j))"
  by (induction n bs arbitrary: xs rule: bl_fit.induct) (auto split: if_splits)

lemma bl_fit_None: "bl_fit n bs = None \<longleftrightarrow> (\<forall>(j, f)\<in>set bs. \<not> (f \<and> n \<le> j))"
  by (induction n bs rule: bl_fit.induct) auto

lemma bl_cut_extent: "n \<le> k \<Longrightarrow> extent (bl_cut n k) = 32 + unat k"
  by (auto simp: bl_cut_def unat_sub_exact word_le_nat_alt)

text \<open>The pointers handed out: each used block answers for the bytes after its header.\<close>

fun live :: "u64 \<Rightarrow> block list \<Rightarrow> u64 \<Rightarrow> u64 option" where
  "live a [] = Map.empty"
| "live a ((n, f) # bs) = (if f then live (a + 32 + n) bs else (live (a + 32 + n) bs)(a + 32 \<mapsto> n))"

lemma live_append [simp]: "live a (xs @ ys) = live (addr_after a xs) ys ++ live a xs"
  by (induction a xs rule: live.induct) (auto simp: map_add_def fun_eq_iff)

lemma live_split:
  "live a bs p = Some n \<Longrightarrow> \<exists>xs ys. bs = xs @ (n, False) # ys \<and> p = addr_after a xs + 32"
proof (induction a bs rule: live.induct)
  case (2 a k f bs)
  show ?case
  proof (cases "\<not> f \<and> p = a + 32")
    case True
    with "2.prems" show ?thesis by (intro exI [of _ "[]"] exI [of _ bs]) simp
  next
    case False
    with "2.prems" have "live (a + 32 + k) bs p = Some n" by (auto split: if_splits)
    then obtain xs ys where "bs = xs @ (n, False) # ys" "p = addr_after (a + 32 + k) xs + 32"
      using "2.IH" by (cases f) blast+
    then show ?thesis by (intro exI [of _ "(k, f) # xs"] exI [of _ ys]) simp
  qed
qed simp

lemma addr_after_middle:
  assumes "unat a + extent (xs @ (n, f) # ys) < 2 ^ 64"
  shows "unat (addr_after a xs) = unat a + extent xs"
    "unat (addr_after a xs + 32) = unat a + extent xs + 32"
    "unat (addr_after a xs + 32 + n) = unat a + extent xs + 32 + unat n"
proof -
  show b: "unat (addr_after a xs) = unat a + extent xs"
    using assms by (intro addr_after_unat) simp
  show c: "unat (addr_after a xs + 32) = unat a + extent xs + 32"
    using assms b by (subst unat_add_exact) simp_all
  show "unat (addr_after a xs + 32 + n) = unat a + extent xs + 32 + unat n"
    using assms c by (subst unat_add_exact) simp_all
qed

lemma live_bounds:
  assumes "live a bs p = Some n" and "unat a + extent bs < 2 ^ 64"
  shows "unat a + 32 \<le> unat p" "unat p + unat n \<le> unat a + extent bs"
proof -
  obtain xs ys where bs: "bs = xs @ (n, False) # ys" "p = addr_after a xs + 32"
    using live_split [OF assms(1)] by blast
  then have "unat p = unat a + extent xs + 32" using addr_after_middle(2) assms(2) by blast
  then show "unat a + 32 \<le> unat p" "unat p + unat n \<le> unat a + extent bs" by (simp_all add: bs(1))
qed

lemma live_outside:
  assumes "unat a + extent bs < 2 ^ 64" and "unat p < unat a + 32 \<or> unat a + extent bs < unat p"
  shows "live a bs p = None"
  using live_bounds [OF _ assms(1)] assms(2) by (cases "live a bs p") fastforce+

lemma live_middle:
  assumes "unat a + extent (xs @ (n, f) # ys) < 2 ^ 64"
  shows "live a (xs @ (n, f) # ys) (addr_after a xs + 32) = (if f then None else Some n)"
proof -
  let ?b = "addr_after a xs"
  note u = addr_after_middle [OF assms]
  have "live a xs (?b + 32) = None"
    by (rule live_outside) (use assms in \<open>simp_all add: u(2)\<close>)
  moreover have "live (?b + 32 + n) ys (?b + 32) = None"
    by (rule live_outside) (use assms in \<open>simp_all only: u(2,3), simp_all\<close>)
  ultimately show ?thesis by (simp add: map_add_def)
qed

text \<open>Two pointers never share a byte.\<close>

lemma live_apart:
  assumes "live a bs p = Some n" and "live a bs q = Some k" and "p \<noteq> q"
    and "unat a + extent bs < 2 ^ 64"
  shows "unat p + unat n + 32 \<le> unat q \<or> unat q + unat k + 32 \<le> unat p"
proof -
  obtain xs ys where x: "bs = xs @ (n, False) # ys" "p = addr_after a xs + 32"
    using live_split [OF assms(1)] by blast
  let ?b = "addr_after a xs"
  note u = addr_after_middle [OF assms(4) [unfolded x(1)]]
  have "live a xs q = Some k \<or> live (?b + 32 + n) ys q = Some k"
    using assms(2,3) x by (auto simp: map_add_def split: option.splits if_splits)
  then show ?thesis
  proof
    assume q: "live a xs q = Some k"
    have "unat q + unat k \<le> unat a + extent xs"
      by (rule live_bounds(2) [OF q]) (use assms(4) x(1) in simp)
    then show ?thesis using u(2) x(2) by simp
  next
    assume q: "live (?b + 32 + n) ys q = Some k"
    have "unat (?b + 32 + n) + 32 \<le> unat q"
      by (rule live_bounds(1) [OF q]) (use assms(4) x(1) in \<open>simp only: u(3), simp\<close>)
    then show ?thesis using u(2,3) x(2) by simp
  qed
qed

lemma live_cut:
  assumes "unat a + extent (xs @ (k, True) # ys) < 2 ^ 64" and "n \<le> k"
  shows "live a (xs @ bl_cut n k @ ys) =
    (live a (xs @ (k, True) # ys))(addr_after a xs + 32 \<mapsto> fst (hd (bl_cut n k)))"
proof -
  let ?b = "addr_after a xs"
  have "live a xs (?b + 32) = None"
    by (rule live_outside) (use assms addr_after_middle [OF assms(1)] in simp_all)
  moreover have "live ?b (bl_cut n k @ ys) = (live (?b + 32 + k) ys)(?b + 32 \<mapsto> fst (hd (bl_cut n k)))"
    by (simp add: bl_cut_def algebra_simps)
  ultimately show ?thesis by (auto simp: map_add_def fun_eq_iff)
qed

lemma live_free:
  assumes "unat a + extent (xs @ (n, False) # ys) < 2 ^ 64"
  shows "live a (bl_free xs n ys) = (live a (xs @ (n, False) # ys))(addr_after a xs + 32 := None)"
proof -
  let ?b = "addr_after a xs"
  have absorb: "live ?b (bl_absorb n ys) = live ?b ((n, True) # ys)"
    by (induction n ys rule: bl_absorb.induct) (simp_all add: algebra_simps)
  have "live a (bl_free xs n ys) = live a (xs @ bl_absorb n ys)"
  proof (cases "xs \<noteq> [] \<and> snd (last xs)")
    case True
    then obtain zs k where xs: "xs = zs @ [(k, True)]" by (metis append_butlast_last_id prod.collapse)
    have "live c ((k + 32 + fst (hd (bl_absorb n ys)), True) # tl (bl_absorb n ys)) =
      live (c + 32 + k) (bl_absorb n ys)" for c
      by (induction n ys rule: bl_absorb.induct) (simp_all add: algebra_simps)
    then show ?thesis by (simp add: bl_free_def xs)
  qed (auto simp: bl_free_def)
  also have "\<dots> = live a (xs @ (n, True) # ys)" by (simp add: absorb)
  also have "\<dots> = (live a (xs @ (n, False) # ys))(?b + 32 := None)"
  proof (rule ext)
    fix p
    show "live a (xs @ (n, True) # ys) p = ((live a (xs @ (n, False) # ys))(?b + 32 := None)) p"
      using live_middle [of a xs n True ys] assms by (auto simp: map_add_def split: option.splits)
  qed
  finally show ?thesis .
qed

text \<open>Extents and alignment are kept.\<close>

definition aligned8 :: "block list \<Rightarrow> bool" where
  "aligned8 bs \<longleftrightarrow> (\<forall>b\<in>set bs. 8 dvd unat (fst b))"

lemma aligned8_simps [simp]:
  "aligned8 []" "aligned8 (b # bs) \<longleftrightarrow> 8 dvd unat (fst b) \<and> aligned8 bs"
  "aligned8 (as @ bs) \<longleftrightarrow> aligned8 as \<and> aligned8 bs"
  by (auto simp: aligned8_def)

lemma aligned8_extent: "aligned8 bs \<Longrightarrow> 8 dvd extent bs"
  by (induction bs) auto

lemma merge_size:
  fixes n k :: u64
  assumes "32 + unat n + 32 + unat k < 2 ^ 64"
  shows "unat (n + 32 + k) = unat n + 32 + unat k"
proof -
  have "unat (n + 32) = unat n + 32" using assms by (subst unat_add_exact) simp_all
  then show ?thesis using assms by (subst unat_add_exact) simp_all
qed

lemma bl_absorb_extent:
  assumes "extent ((n, f) # ys) < 2 ^ 64"
  shows "extent (bl_absorb n ys) = 32 + unat n + extent ys"
  using assms by (induction n ys rule: bl_absorb.induct) (simp_all add: merge_size)

lemma bl_absorb_aligned:
  assumes "extent ((n, f) # ys) < 2 ^ 64" and "8 dvd unat n" and "aligned8 ys"
  shows "aligned8 (bl_absorb n ys)"
  using assms by (induction n ys rule: bl_absorb.induct) (simp_all add: merge_size)

lemma bl_absorb_Cons: "bl_absorb n ys = (fst (hd (bl_absorb n ys)), True) # tl (bl_absorb n ys)"
  by (induction n ys rule: bl_absorb.induct) simp_all

lemma bl_free_extent_aligned:
  assumes "extent (xs @ (n, False) # ys) < 2 ^ 64"
  shows "extent (bl_free xs n ys) = extent (xs @ (n, False) # ys)"
    and "aligned8 (xs @ (n, False) # ys) \<Longrightarrow> aligned8 (bl_free xs n ys)"
proof -
  obtain j zs where z: "bl_absorb n ys = (j, True) # zs" using bl_absorb_Cons by blast
  have e: "32 + unat j + extent zs = 32 + unat n + extent ys"
    using bl_absorb_extent [of n False ys] assms by (simp add: z)
  have al: "8 dvd unat j \<and> aligned8 zs" if "aligned8 (xs @ (n, False) # ys)"
    using bl_absorb_aligned [of n False ys] assms that by (simp add: z)
  have "extent (bl_free xs n ys) = extent (xs @ (n, False) # ys) \<and>
    (aligned8 (xs @ (n, False) # ys) \<longrightarrow> aligned8 (bl_free xs n ys))"
  proof (cases "xs \<noteq> [] \<and> snd (last xs)")
    case True
    then obtain ws k where xs: "xs = ws @ [(k, True)]" by (metis append_butlast_last_id prod.collapse)
    have "unat (k + 32 + j) = unat k + 32 + unat j"
      by (rule merge_size) (use assms e in \<open>simp add: xs\<close>)
    then show ?thesis using e al by (auto simp: bl_free_def xs z)
  next
    case False
    then have "bl_free xs n ys = xs @ (j, True) # zs" by (auto simp: bl_free_def z)
    then show ?thesis using e al by auto
  qed
  then show "extent (bl_free xs n ys) = extent (xs @ (n, False) # ys)"
    and "aligned8 (xs @ (n, False) # ys) \<Longrightarrow> aligned8 (bl_free xs n ys)" by blast+
qed

lemma bl_cut_aligned:
  "n \<le> k \<Longrightarrow> 8 dvd unat n \<Longrightarrow> 8 dvd unat k \<Longrightarrow> aligned8 (bl_cut n k)"
proof -
  assume *: "n \<le> k" "8 dvd unat n" "8 dvd unat k"
  show ?thesis
  proof (cases "unat n + 48 \<le> unat k")
    case True
    have "unat (k - n) = unat k - unat n" by (rule unat_sub_exact [OF *(1)])
    moreover from this True have "unat (k - n - 32) = unat (k - n) - 32"
      by (subst unat_sub_exact) (simp_all add: word_le_nat_alt)
    ultimately show ?thesis using * True by (simp add: bl_cut_def dvd_diff_nat)
  qed (use * in \<open>simp add: bl_cut_def\<close>)
qed

subsection \<open>Writes to the headers of a run\<close>

lemma blocks_at_put:
  assumes "unat b + 32 \<le> 2 ^ 64" and "unat a + extent bs \<le> 2 ^ 64"
    and "unat a + extent bs \<le> unat b \<or> unat b + 32 \<le> unat a"
  shows "blocks_at (put_size b v m) p a bs nx = blocks_at m p a bs nx"
    "blocks_at (put_free b f m) p a bs nx = blocks_at m p a bs nx"
    "blocks_at (put_next b v m) p a bs nx = blocks_at m p a bs nx"
    "blocks_at (put_prev b v m) p a bs nx = blocks_at m p a bs nx"
  using bytes_at_apart [OF assms(3)]
  by (auto intro!: blocks_at_cong [OF _ assms(2)] put_outside [OF assms(1)])

text \<open>The first block of a run gets another predecessor.\<close>

lemma blocks_at_put_prev:
  assumes "blocks_at m p a bs nx" and "unat a + extent bs \<le> 2 ^ 64"
  shows "blocks_at (put_prev a q m) q a bs nx"
proof (cases bs)
  case (Cons b cs)
  obtain n f where b: "b = (n, f)" by (cases b)
  have "blocks_at (put_prev a q m) a (a + 32 + n) cs nx = blocks_at m a (a + 32 + n) cs nx"
  proof (cases "cs = []")
    case False
    from unat_step [OF assms(2) [unfolded Cons b] False] assms(2) b Cons show ?thesis
      by (intro blocks_at_put) simp_all
  qed simp
  then show ?thesis using assms(1) b Cons by simp
qed simp

text \<open>What is known about a block in the middle, and its neighbours.\<close>

lemma blocks_at_middle:
  assumes "blocks_at m p a (xs @ (n, f) # ys) nx"
  shows "read_header m (addr_after a xs) = \<lparr>blk_size = n, blk_free = f,
      blk_next = (if ys = [] then nx else addr_after a xs + 32 + n), blk_prev = last_addr p a xs\<rparr>"
  using assms by simp

text \<open>Replacing the middle of a run when the memory elsewhere stays the same.\<close>

lemma blocks_at_prefix:
  assumes "blocks_at m p a xs nx" and "unat a + extent xs \<le> 2 ^ 64"
    and "\<And>x. unat a \<le> unat x \<Longrightarrow> unat x < unat a + extent xs \<Longrightarrow> m' x = m x"
  shows "blocks_at m' p a xs nx"
  using blocks_at_cong [of a xs m' m p nx] assms by (auto simp: bytes_at_def)

end
