(* ===== verification/Allocator.thy ===== *)
theory Allocator
  imports Heap_Blocks
begin

text \<open>
  The contract of the kernel heap, as the process code relies on it: \<open>live s p\<close> is the size of
  the block that pointer \<open>p\<close> answers for, \<open>ready n s\<close> is what an allocation of \<open>n\<close> bytes needs
  from the pages below the heap. A null result leaves the heap as it is.
\<close>

locale heap_allocator =
  fixes malloc :: "u64 \<Rightarrow> 's \<Rightarrow> (u64 \<times> 's) option"
    and release :: "u64 \<Rightarrow> 's \<Rightarrow> 's"
    and live :: "'s \<Rightarrow> u64 \<Rightarrow> u64 option"
    and byte :: "'s \<Rightarrow> u64 \<Rightarrow> u8"
    and inv :: "'s \<Rightarrow> bool"
    and ready :: "u64 \<Rightarrow> 's \<Rightarrow> bool"
  assumes malloc_returns: "inv s \<Longrightarrow> ready n s \<Longrightarrow> \<exists>p t. malloc n s = Some (p, t)"
    and malloc_inv: "inv s \<Longrightarrow> ready n s \<Longrightarrow> malloc n s = Some (p, t) \<Longrightarrow> inv t"
    and malloc_null: "inv s \<Longrightarrow> ready n s \<Longrightarrow> malloc n s = Some (0, t) \<Longrightarrow> live t = live s"
    and malloc_new: "inv s \<Longrightarrow> ready n s \<Longrightarrow> malloc n s = Some (p, t) \<Longrightarrow> p \<noteq> 0 \<Longrightarrow>
          live s p = None \<and> (\<exists>k\<ge>n. live t = (live s)(p \<mapsto> k))"
    and malloc_byte: "inv s \<Longrightarrow> ready n s \<Longrightarrow> malloc n s = Some (p, t) \<Longrightarrow>
          live s q = Some k \<Longrightarrow> x \<in> bytes_at q (unat k) \<Longrightarrow> byte t x = byte s x"
    and release_inv: "inv s \<Longrightarrow> live s p \<noteq> None \<Longrightarrow> inv (release p s)"
    and release_live: "inv s \<Longrightarrow> live s p \<noteq> None \<Longrightarrow> live (release p s) = (live s)(p := None)"
    and release_byte: "inv s \<Longrightarrow> live s p \<noteq> None \<Longrightarrow> q \<noteq> p \<Longrightarrow>
          live s q = Some k \<Longrightarrow> x \<in> bytes_at q (unat k) \<Longrightarrow> byte (release p s) x = byte s x"
    and live_disjoint: "inv s \<Longrightarrow> live s p = Some j \<Longrightarrow> live s q = Some k \<Longrightarrow> p \<noteq> q \<Longrightarrow>
          bytes_at p (unat j) \<inter> bytes_at q (unat k) = {}"
begin

text \<open>A new block shares no byte with a block that was live before, and is as large as asked for.\<close>

lemma malloc_apart:
  assumes "inv s" and "ready n s" and "malloc n s = Some (p, t)" and "p \<noteq> 0"
    and "live s q = Some k"
  shows "live t q = Some k" "bytes_at p (unat n) \<inter> bytes_at q (unat k) = {}"
proof -
  obtain j where j: "n \<le> j" "live t = (live s)(p \<mapsto> j)" "live s p = None"
    using malloc_new [OF assms(1-4)] by blast
  then have "p \<noteq> q" using assms(5) by auto
  then show q: "live t q = Some k" using j assms(5) by simp
  have "bytes_at p (unat j) \<inter> bytes_at q (unat k) = {}"
    using live_disjoint [OF malloc_inv [OF assms(1-3)] _ q \<open>p \<noteq> q\<close>] j(2) by simp
  then show "bytes_at p (unat n) \<inter> bytes_at q (unat k) = {}"
    using j(1) by (auto simp: bytes_at_def word_le_nat_alt)
qed

text \<open>Allocating and releasing at once leaves the live blocks as they were.\<close>

lemma malloc_release:
  assumes "inv s" and "ready n s" and "malloc n s = Some (p, t)" and "p \<noteq> 0"
  shows "live (release p t) = live s"
proof -
  obtain j where j: "live t = (live s)(p \<mapsto> j)" "live s p = None"
    using malloc_new [OF assms] by blast
  then show ?thesis
    using release_live [OF malloc_inv [OF assms(1-3)], of p] by (auto simp: fun_eq_iff)
qed

end

end
