(* ===== verification/Kheap.thy ===== *)
theory Kheap
  imports Paging Allocator
begin

text \<open>
  The kernel heap (\<open>kernel/mm/kheap.c\<close>): a first-fit allocator over a doubly linked list of
  blocks whose headers are in the byte memory. A walk along the list follows pointers found in
  memory, so it is partial: \<open>None\<close> means that it does not end.
\<close>

definition HEAP_EXPAND_SIZE :: u64 where "HEAP_EXPAND_SIZE = 4 * 4096"
definition MIN_BLOCK_SIZE :: u64 where "MIN_BLOCK_SIZE = 16"
definition BLOCK_HEADER_SIZE :: u64 where "BLOCK_HEADER_SIZE = 32"

record kheap = paging +
  heap_start :: u64
  total_heap_size :: u64
  used_heap_size :: u64

definition KHEAP_PRINT :: "string \<Rightarrow> 'a vga_scheme \<Rightarrow> 'a vga_scheme" where
  "KHEAP_PRINT str s = vga_print str VGA_COLOR_WHITE s"

definition align_up :: "u64 \<Rightarrow> u64 \<Rightarrow> u64" where
  "align_up sz alignment = (sz + alignment - 1) AND NOT (alignment - 1)"

subsection \<open>Growing the heap\<close>

text \<open>The page loop: \<open>None\<close> when a page is missing, otherwise the first page.\<close>

function expand_pages :: "u64 \<Rightarrow> u64 \<Rightarrow> u64 \<Rightarrow> 'a pmm_scheme \<Rightarrow> u64 option \<times> 'a pmm_scheme" where
  "expand_pages i num_pages new_mem s =
     (if i < num_pages then
        (let (page, s) = pmm_alloc_page s
         in if page = 0 then (None, KHEAP_PRINT (line ''[KHEAP] Failed to allocate page for heap expansion'') s)
            else expand_pages (i + 1) num_pages (if i = 0 then page else new_mem) s)
      else (Some new_mem, s))"
  by pat_completeness auto
termination
  by (relation "measure (\<lambda>(i, n, mem, s). unat n - unat i)")
    (auto simp: unat_Suc_below word_less_nat_alt)

declare expand_pages.simps [simp del]

partial_function (option) last_block :: "u64 \<Rightarrow> (u64 \<Rightarrow> u8) \<Rightarrow> u64 option" where
  "last_block current m =
     (if blk_next (read_header m current) \<noteq> 0 then last_block (blk_next (read_header m current)) m
      else Some current)"

definition expand_heap :: "u64 \<Rightarrow> 'a kheap_scheme \<Rightarrow> (u64 \<times> 'a kheap_scheme) option" where
  "expand_heap min_size s =
     (let expand_size = (if HEAP_EXPAND_SIZE < min_size then align_up min_size 4096 else HEAP_EXPAND_SIZE);
          num_pages = expand_size div 4096;
          (r, s) = expand_pages 0 num_pages 0 s
      in case r of None \<Rightarrow> Some (0, s)
         | Some new_mem \<Rightarrow>
             if new_mem = 0 then Some (0, s)
             else
               (let m = mem8 s;
                    m = put_size new_mem (expand_size - BLOCK_HEADER_SIZE) m;
                    m = put_free new_mem True m;
                    m = put_next new_mem 0 m;
                    m = put_prev new_mem 0 m;
                    s = s\<lparr>mem8 := m, total_heap_size := total_heap_size s + expand_size\<rparr>
                in if heap_start s = 0 then Some (new_mem, s\<lparr>heap_start := new_mem\<rparr>)
                   else (case last_block (heap_start s) (mem8 s) of None \<Rightarrow> None
                     | Some current \<Rightarrow>
                         Some (new_mem, s\<lparr>mem8 := put_prev new_mem current (put_next current new_mem (mem8 s))\<rparr>))))"

subsection \<open>Splitting and merging\<close>

definition split_block :: "u64 \<Rightarrow> u64 \<Rightarrow> 'a kheap_scheme \<Rightarrow> 'a kheap_scheme" where
  "split_block block sz s =
     (let m = mem8 s;
          original_size = blk_size (read_header m block)
      in if sz + BLOCK_HEADER_SIZE + MIN_BLOCK_SIZE \<le> original_size then
           (let m = put_size block sz m;
                new_block = block + BLOCK_HEADER_SIZE + sz;
                m = put_size new_block (original_size - sz - BLOCK_HEADER_SIZE) m;
                m = put_free new_block True m;
                m = put_next new_block (blk_next (read_header m block)) m;
                m = put_prev new_block block m;
                m = (if blk_next (read_header m block) \<noteq> 0
                     then put_prev (blk_next (read_header m block)) new_block m else m);
                m = put_next block new_block m
            in s\<lparr>mem8 := m\<rparr>)
         else s)"

definition coalesce_next :: "u64 \<Rightarrow> (u64 \<Rightarrow> u8) \<Rightarrow> u64 \<Rightarrow> u8" where
  "coalesce_next block m =
     (let nx = blk_next (read_header m block)
      in if nx \<noteq> 0 \<and> blk_free (read_header m nx) then
           (let m = put_size block (blk_size (read_header m block) +
                      (BLOCK_HEADER_SIZE + blk_size (read_header m nx))) m;
                m = put_next block (blk_next (read_header m (blk_next (read_header m block)))) m
            in if blk_next (read_header m block) \<noteq> 0
               then put_prev (blk_next (read_header m block)) block m else m)
         else m)"

definition coalesce_prev :: "u64 \<Rightarrow> (u64 \<Rightarrow> u8) \<Rightarrow> u64 \<Rightarrow> u8" where
  "coalesce_prev block m =
     (let pv = blk_prev (read_header m block)
      in if pv \<noteq> 0 \<and> blk_free (read_header m pv) then
           (let m = put_size pv (blk_size (read_header m pv) +
                      (BLOCK_HEADER_SIZE + blk_size (read_header m block))) m;
                m = put_next (blk_prev (read_header m block)) (blk_next (read_header m block)) m
            in if blk_next (read_header m block) \<noteq> 0
               then put_prev (blk_next (read_header m block)) (blk_prev (read_header m block)) m else m)
         else m)"

definition coalesce_blocks :: "u64 \<Rightarrow> 'a kheap_scheme \<Rightarrow> 'a kheap_scheme" where
  "coalesce_blocks block s = s\<lparr>mem8 := coalesce_prev block (coalesce_next block (mem8 s))\<rparr>"

subsection \<open>The interface\<close>

definition kheap_init :: "'a kheap_scheme \<Rightarrow> 'a kheap_scheme option" where
  "kheap_init s =
     (let s = KHEAP_PRINT (line ''[KHEAP] Initializing kernel heap...'') s
      in case expand_heap HEAP_EXPAND_SIZE s of None \<Rightarrow> None
         | Some (start, s) \<Rightarrow>
             (let s = s\<lparr>heap_start := start\<rparr>
              in if heap_start s = 0 then Some (KHEAP_PRINT (line ''[KHEAP] Failed to initialize heap!'') s)
                 else
                   (let s = KHEAP_PRINT ''[KHEAP] Heap initialized with '' s;
                        s = vga_print_hex (total_heap_size s) s
                    in Some (KHEAP_PRINT (line '' bytes'') s))))"

text \<open>The walk of \<open>kmalloc\<close>: the first free block that is large enough, 0 at the end.\<close>

partial_function (option) find_fit :: "u64 \<Rightarrow> u64 \<Rightarrow> (u64 \<Rightarrow> u8) \<Rightarrow> u64 option" where
  "find_fit current sz m =
     (if current = 0 then Some 0
      else if blk_free (read_header m current) \<and> sz \<le> blk_size (read_header m current) then Some current
      else find_fit (blk_next (read_header m current)) sz m)"

definition take_block :: "u64 \<Rightarrow> u64 \<Rightarrow> 'a kheap_scheme \<Rightarrow> u64 \<times> 'a kheap_scheme" where
  "take_block block sz s =
     (let s = split_block block sz s;
          s = s\<lparr>mem8 := put_free block False (mem8 s)\<rparr>;
          s = s\<lparr>used_heap_size := used_heap_size s + (sz + BLOCK_HEADER_SIZE)\<rparr>
      in (block + BLOCK_HEADER_SIZE, s))"

definition kmalloc :: "u64 \<Rightarrow> 'a kheap_scheme \<Rightarrow> (u64 \<times> 'a kheap_scheme) option" where
  "kmalloc sz s =
     (if sz = 0 then Some (0, s)
      else
        (let sz = align_up sz 8
         in case find_fit (heap_start s) sz (mem8 s) of None \<Rightarrow> None
            | Some current \<Rightarrow>
                if current \<noteq> 0 then Some (take_block current sz s)
                else (case expand_heap (sz + BLOCK_HEADER_SIZE) s of None \<Rightarrow> None
                  | Some (new_block, s) \<Rightarrow>
                      if new_block = 0 then Some (0, KHEAP_PRINT (line ''[KHEAP] kmalloc failed: out of memory'') s)
                      else Some (take_block new_block sz s))))"

text \<open>The aligned address is computed and not used.\<close>

definition kmalloc_aligned :: "u64 \<Rightarrow> u64 \<Rightarrow> 'a kheap_scheme \<Rightarrow> (u64 \<times> 'a kheap_scheme) option" where
  "kmalloc_aligned sz alignment s =
     (if alignment = 0 \<or> alignment AND (alignment - 1) \<noteq> 0 then Some (0, s)
      else kmalloc (sz + alignment + BLOCK_HEADER_SIZE) s)"

definition kfree :: "u64 \<Rightarrow> 'a kheap_scheme \<Rightarrow> 'a kheap_scheme" where
  "kfree ptr s =
     (if ptr = 0 then s
      else
        (let block = ptr - BLOCK_HEADER_SIZE
         in if blk_free (read_header (mem8 s) block)
            then KHEAP_PRINT (line ''[KHEAP] Warning: Double free detected!'') s
            else
              (let s = s\<lparr>mem8 := put_free block True (mem8 s)\<rparr>;
                   s = s\<lparr>used_heap_size := used_heap_size s -
                         (blk_size (read_header (mem8 s) block) + BLOCK_HEADER_SIZE)\<rparr>
               in coalesce_blocks block s)))"

partial_function (option) count_blocks ::
  "u64 \<Rightarrow> u64 \<Rightarrow> u64 \<Rightarrow> (u64 \<Rightarrow> u8) \<Rightarrow> (u64 \<times> u64) option" where
  "count_blocks current free_blocks used_blocks m =
     (if current = 0 then Some (free_blocks, used_blocks)
      else if blk_free (read_header m current)
      then count_blocks (blk_next (read_header m current)) (free_blocks + 1) used_blocks m
      else count_blocks (blk_next (read_header m current)) free_blocks (used_blocks + 1) m)"

definition kheap_print_stats :: "'a kheap_scheme \<Rightarrow> 'a kheap_scheme option" where
  "kheap_print_stats s =
     (let s = KHEAP_PRINT (line ''[KHEAP] Heap Statistics:'') s;
          s = KHEAP_PRINT ''  Total heap size: '' s;
          s = vga_print_hex (total_heap_size s) s;
          s = KHEAP_PRINT (line '' bytes'') s;
          s = KHEAP_PRINT ''  Used heap size:  '' s;
          s = vga_print_hex (used_heap_size s) s;
          s = KHEAP_PRINT (line '' bytes'') s;
          s = KHEAP_PRINT ''  Free heap size:  '' s;
          s = vga_print_hex (total_heap_size s - used_heap_size s) s;
          s = KHEAP_PRINT (line '' bytes'') s
      in case count_blocks (heap_start s) 0 0 (mem8 s) of None \<Rightarrow> None
         | Some (free_blocks, used_blocks) \<Rightarrow>
             (let s = KHEAP_PRINT ''  Free blocks: '' s;
                  s = vga_print_hex free_blocks s;
                  s = KHEAP_PRINT (line '''') s;
                  s = KHEAP_PRINT ''  Used blocks: '' s;
                  s = vga_print_hex used_blocks s
              in Some (KHEAP_PRINT (line '''') s)))"

subsection \<open>Splitting, on the list of blocks\<close>

lemma cut_condition:
  assumes "unat b + 32 + unat k < 2 ^ 64" and "4096 \<le> unat b" and "n \<le> k"
  shows "n + BLOCK_HEADER_SIZE + MIN_BLOCK_SIZE \<le> k \<longleftrightarrow> unat n + 48 \<le> unat k"
proof -
  have "unat n + 48 < 2 ^ 64" using assms by (simp add: word_le_nat_alt)
  then have "unat (n + 48) = unat n + 48" by (subst unat_add_exact) simp_all
  then show ?thesis by (simp add: BLOCK_HEADER_SIZE_def MIN_BLOCK_SIZE_def word_le_nat_alt add.assoc)
qed

text \<open>
  The live blocks other than the one at \<open>addr_after a xs\<close> keep clear of its bytes and of the
  header that follows it.
\<close>

lemma live_clear:
  assumes "live a (xs @ (n, f) # ys) q = Some j" and "q \<noteq> addr_after a xs + 32"
    and "unat a + extent (xs @ (n, f) # ys) < 2 ^ 64" and "x \<in> bytes_at q (unat j)"
  shows "unat x < unat a + extent xs \<or>
    unat a + extent xs + 32 + unat n + (if ys = [] then 0 else 32) \<le> unat x"
proof -
  let ?b = "addr_after a xs"
  note u = addr_after_middle [OF assms(3)]
  have "live a xs q = Some j \<or> live (?b + 32 + n) ys q = Some j"
    using assms(1,2) by (auto simp: map_add_def split: option.splits if_splits)
  then show ?thesis
  proof
    assume q: "live a xs q = Some j"
    have "unat q + unat j \<le> unat a + extent xs"
      by (rule live_bounds(2) [OF q]) (use assms(3) in simp)
    then show ?thesis using assms(4) by (auto simp: bytes_at_def)
  next
    assume q: "live (?b + 32 + n) ys q = Some j"
    have "unat (?b + 32 + n) + 32 \<le> unat q"
      by (rule live_bounds(1) [OF q]) (use assms(3) in \<open>simp only: u(3), simp\<close>)
    then show ?thesis using u(3) assms(4) q by (auto simp: bytes_at_def)
  qed
qed

lemma blocks_mark:
  assumes blk: "blocks_at m 0 a (xs @ (k, f) # ys) 0" and ext: "unat a + extent (xs @ (k, f) # ys) < 2 ^ 64"
  defines "b \<equiv> addr_after a xs"
  shows "blocks_at (put_free b g m) 0 a (xs @ (k, g) # ys) 0 \<and>
    (\<forall>x. unat x < unat b \<or> unat b + 32 \<le> unat x \<longrightarrow> put_free b g m x = m x)"
proof -
  note u = addr_after_middle [OF ext, folded b_def]
  have room: "unat b + 32 + unat k + extent ys < 2 ^ 64" using ext u(1) by simp
  have "blocks_at (put_free b g m) 0 a xs b"
    using blk u(1) room ext by (simp add: b_def [symmetric] blocks_at_put)
  moreover have "blocks_at (put_free b g m) b (b + 32 + k) ys 0"
    using blk u room by (cases "ys = []") (simp_all add: b_def [symmetric] blocks_at_put)
  ultimately have "blocks_at (put_free b g m) 0 a (xs @ (k, g) # ys) 0"
    using blk by (simp add: b_def [symmetric])
  moreover have "put_free b g m x = m x" if "unat x < unat b \<or> unat b + 32 \<le> unat x" for x
    by (rule put_outside) (use room that in \<open>auto simp: bytes_at_def\<close>)
  ultimately show ?thesis by blast
qed

text \<open>A block that is large enough becomes two free ones.\<close>

lemma split_block_two:
  fixes s :: "'a kheap_scheme"
  assumes blk: "blocks_at (mem8 s) 0 a (xs @ (k, True) # ys) 0"
    and ext: "unat a + extent (xs @ (k, True) # ys) < 2 ^ 64" and a: "4096 \<le> unat a"
    and big: "unat n + 48 \<le> unat k"
  defines "b \<equiv> addr_after a xs"
  defines "m \<equiv> mem8 (split_block b n s)"
  shows "blocks_at m 0 a (xs @ (n, True) # (k - n - 32, True) # ys) 0 \<and>
    (\<forall>x. unat x < unat b \<or> unat b + 32 + unat k + (if ys = [] then 0 else 32) \<le> unat x \<longrightarrow> m x = mem8 s x)"
proof -
  note u = addr_after_middle [OF ext, folded b_def]
  have room: "unat b + 32 + unat k + extent ys < 2 ^ 64" using ext u(1) by simp
  have ab: "4096 \<le> unat b" and nk: "n \<le> k" using a u(1) big by (simp_all add: word_le_nat_alt)
  let ?nx = "if ys = [] then 0 else b + 32 + k"
  have hdr: "read_header (mem8 s) b = \<lparr>blk_size = k, blk_free = True, blk_next = ?nx, blk_prev = last_addr 0 a xs\<rparr>"
    and pre: "blocks_at (mem8 s) 0 a xs b" and post: "blocks_at (mem8 s) b (b + 32 + k) ys 0"
    using blk by (simp_all add: b_def)
  have cond: "n + 32 + MIN_BLOCK_SIZE \<le> k"
    using cut_condition [OF _ ab nk] room big by (simp add: BLOCK_HEADER_SIZE_def)
  have ys_pos: "32 \<le> extent ys" if "ys \<noteq> []" using that by (cases ys) simp_all
  define c where "c = b + 32 + n"
  have uc: "unat c = unat b + 32 + unat n"
    unfolding c_def using big room u(1,2) by (subst unat_add_exact) simp_all
  define m0 where "m0 = put_prev c b (put_next c ?nx (put_free c True (put_size c (k - n - 32) (put_size b n (mem8 s)))))"
  define m1 where "m1 = (if ?nx \<noteq> 0 then put_prev ?nx c m0 else m0)"
  have other: "read_header (put_size b v w) c = read_header w c"
    "read_header (put_next b v w) c = read_header w c"
    "read_header (put_size c v w) b = read_header w b" "read_header (put_free c g w) b = read_header w b"
    "read_header (put_next c v w) b = read_header w b" "read_header (put_prev c v w) b = read_header w b"
    for v g w
    by (rule read_header_other; use uc room big in simp)+
  have h0: "read_header m0 b = \<lparr>blk_size = n, blk_free = True, blk_next = ?nx, blk_prev = last_addr 0 a xs\<rparr>"
    "read_header m0 c = \<lparr>blk_size = k - n - 32, blk_free = True, blk_next = ?nx, blk_prev = b\<rparr>"
    by (simp_all add: m0_def other hdr)
  have nz: "?nx \<noteq> 0 \<longleftrightarrow> ys \<noteq> []"
    using u(3) ab by (auto simp: word_unat_eq_iff)
  have m: "m = put_next b c m1"
    using cond h0 by (simp add: m_def split_block_def hdr Let_def c_def [symmetric] m0_def m1_def
        BLOCK_HEADER_SIZE_def other)
  have h1: "read_header m1 b = read_header m0 b" "read_header m1 c = read_header m0 c"
    using ys_pos room u uc big nz by (auto simp: m1_def intro!: read_header_other)
  have out: "m x = mem8 s x"
    if x: "unat x < unat b \<or> unat b + 32 + unat k + (if ys = [] then 0 else 32) \<le> unat x" for x
  proof -
    have xb: "x \<notin> bytes_at b 32" "x \<notin> bytes_at c 32" using x uc big room by (auto simp: bytes_at_def)
    have "m1 x = m0 x"
      using x u room nz ys_pos by (auto simp: m1_def bytes_at_def intro!: put_outside)
    then show ?thesis using xb room uc big by (simp add: m m0_def put_outside)
  qed
  have "blocks_at m 0 a xs b"
    by (rule blocks_at_prefix [OF pre]) (use u(1) ext in \<open>auto intro!: out\<close>)
  moreover have "blocks_at m c (b + 32 + k) ys 0"
  proof (cases "ys = []")
    case False
    have e: "unat (b + 32 + k) + extent ys \<le> 2 ^ 64" using u(1,3) room by linarith
    have "blocks_at m0 b (b + 32 + k) ys 0"
      using post e u uc room big by (simp add: m0_def blocks_at_put)
    then have "blocks_at (put_prev (b + 32 + k) c m0) c (b + 32 + k) ys 0" using e by (rule blocks_at_put_prev)
    then show ?thesis using False nz e u uc room big by (simp add: m m1_def blocks_at_put)
  qed simp
  moreover have "b + 32 + n + 32 + (k - n - 32) = b + 32 + k" by simp
  ultimately have "blocks_at m 0 a (xs @ (n, True) # (k - n - 32, True) # ys) 0"
    using h0 h1 by (simp add: m other b_def [symmetric] c_def [symmetric]) (simp add: c_def algebra_simps)
  with out show ?thesis by blast
qed

lemma split_block_spec:
  fixes s :: "'a kheap_scheme"
  assumes blk: "blocks_at (mem8 s) 0 a (xs @ (k, True) # ys) 0"
    and ext: "unat a + extent (xs @ (k, True) # ys) < 2 ^ 64" and a: "4096 \<le> unat a" and nk: "n \<le> k"
  defines "b \<equiv> addr_after a xs"
  defines "m \<equiv> put_free b False (mem8 (split_block b n s))"
  shows "blocks_at m 0 a (xs @ bl_cut n k @ ys) 0 \<and>
    (\<forall>x. unat x < unat b \<or> unat b + 32 + unat k + (if ys = [] then 0 else 32) \<le> unat x \<longrightarrow> m x = mem8 s x)"
proof (cases "unat n + 48 \<le> unat k")
  case False
  note u = addr_after_middle [OF ext, folded b_def]
  have "\<not> n + BLOCK_HEADER_SIZE + MIN_BLOCK_SIZE \<le> k"
    using cut_condition [of b k n] nk False u(1) a ext by simp
  then have "m = put_free b False (mem8 s)"
    using blk by (simp add: m_def split_block_def b_def)
  moreover note blocks_mark [OF blk ext, of False, folded b_def]
  ultimately show ?thesis using False by (auto simp: bl_cut_def)
next
  case True
  have "extent [(k, True)] = extent [(n, True), (k - n - 32, True)]"
    using bl_cut_extent [OF nk] True by (simp add: bl_cut_def)
  then have ext': "unat a + extent (xs @ (n, True) # (k - n - 32, True) # ys) < 2 ^ 64" using ext by simp
  note two = split_block_two [OF blk ext a True, folded b_def]
  from blocks_mark [OF conjunct1 [OF two] ext', of False, folded b_def] two True show ?thesis
    by (auto simp: bl_cut_def m_def)
qed

subsection \<open>Merging, on the list of blocks\<close>

text \<open>How far past its own end the merge with the next block reaches.\<close>

fun absorb_reach :: "block list \<Rightarrow> nat" where
  "absorb_reach ((k, True) # zs) = 32 + unat k + (if zs = [] then 0 else 32)"
| "absorb_reach ys = 0"

text \<open>
  The writes of both merges: the header of the block at \<open>c\<close> takes over the size of its right
  neighbour and the link behind it, and the block behind, if there is one, links back to \<open>c\<close>.
\<close>

definition join_blocks :: "u64 \<Rightarrow> u64 \<Rightarrow> u64 \<Rightarrow> (u64 \<Rightarrow> u8) \<Rightarrow> u64 \<Rightarrow> u8" where
  "join_blocks c n nx m =
     (let m = put_next c nx (put_size c n m)
      in if nx \<noteq> 0 then put_prev nx c m else m)"

lemma neighbours:
  assumes blk: "blocks_at m 0 a (ws @ (k, f) # (n, g) # ys) 0"
    and ext: "unat a + extent (ws @ (k, f) # (n, g) # ys) < 2 ^ 64" and a: "4096 \<le> unat a"
  defines "c \<equiv> addr_after a ws" and "b \<equiv> addr_after a ws + 32 + k"
  defines "nx \<equiv> if ys = [] then 0 else b + 32 + n"
  shows "read_header m c = \<lparr>blk_size = k, blk_free = f, blk_next = b, blk_prev = last_addr 0 a ws\<rparr>"
    "read_header m b = \<lparr>blk_size = n, blk_free = g, blk_next = nx, blk_prev = c\<rparr>"
    "unat c = unat a + extent ws" "unat b = unat c + 32 + unat k" "c \<noteq> 0" "b \<noteq> 0" "nx \<noteq> 0 \<longleftrightarrow> ys \<noteq> []"
    "ys \<noteq> [] \<Longrightarrow> unat (b + 32 + n) = unat b + 32 + unat n"
    "read_header (put_size c v w) b = read_header w b" "read_header (put_next c v w) b = read_header w b"
proof -
  show "read_header m c = \<lparr>blk_size = k, blk_free = f, blk_next = b, blk_prev = last_addr 0 a ws\<rparr>"
    "read_header m b = \<lparr>blk_size = n, blk_free = g, blk_next = nx, blk_prev = c\<rparr>"
    using blk by (simp_all add: c_def b_def nx_def)
  have room: "unat a + extent ws + 32 + unat k + 32 + unat n + extent ys < 2 ^ 64" using ext by simp
  show uc: "unat c = unat a + extent ws" unfolding c_def using room by (subst addr_after_unat) simp_all
  show ub: "unat b = unat c + 32 + unat k"
    using unat_step [of c k f "(n, g) # ys"] room uc by (simp add: b_def c_def)
  show ud: "unat (b + 32 + n) = unat b + 32 + unat n" if "ys \<noteq> []"
    using unat_step [of b n g ys] room uc ub that by simp
  show "c \<noteq> 0" "b \<noteq> 0" using uc ub a by (auto simp: word_unat_eq_iff)
  show "nx \<noteq> 0 \<longleftrightarrow> ys \<noteq> []" using ud by (auto simp: nx_def word_unat_eq_iff)
  show "read_header (put_size c v w) b = read_header w b" "read_header (put_next c v w) b = read_header w b"
    by (rule read_header_other; use uc ub room in simp)+
qed

lemma join_blocks_spec:
  assumes blk: "blocks_at m 0 a (ws @ (k, True) # (n, g) # ys) 0"
    and ext: "unat a + extent (ws @ (k, True) # (n, g) # ys) < 2 ^ 64" and a: "4096 \<le> unat a"
  defines "c \<equiv> addr_after a ws" and "d \<equiv> addr_after a ws + 32 + k + 32 + n"
  defines "m' \<equiv> join_blocks (addr_after a ws) (k + 32 + n) (if ys = [] then 0 else d) m"
  shows "blocks_at m' 0 a (ws @ (k + 32 + n, True) # ys) 0 \<and>
    (\<forall>x. unat x < unat c \<or> unat c + 32 + unat k + 32 + unat n + (if ys = [] then 0 else 32) \<le> unat x \<longrightarrow> m' x = m x)"
proof -
  note nb = neighbours [OF blk ext a, folded c_def d_def]
  have room: "unat a + extent ws + 32 + unat k + 32 + unat n + extent ys < 2 ^ 64" using ext by simp
  have ud: "unat d = unat c + 32 + unat k + 32 + unat n" if "ys \<noteq> []"
    using nb(4) nb(8) [OF that] by (simp add: d_def c_def)
  have ys_pos: "32 \<le> extent ys" if "ys \<noteq> []" using that by (cases ys) simp_all
  let ?nx = "if ys = [] then 0 else d"
  have pre: "blocks_at m 0 a ws c" and tail: "blocks_at m (c + 32 + k) d ys 0"
    using blk by (simp_all add: c_def d_def)
  define m0 where "m0 = put_next c ?nx (put_size c (k + 32 + n) m)"
  have h0: "read_header m0 c = \<lparr>blk_size = k + 32 + n, blk_free = True, blk_next = ?nx, blk_prev = last_addr 0 a ws\<rparr>"
    by (simp add: m0_def nb(1))
  have m': "m' = (if ys \<noteq> [] then put_prev d c m0 else m0)"
    using nb(7) by (simp add: m'_def join_blocks_def m0_def c_def)
  have out: "m' x = m x"
    if x: "unat x < unat c \<or> unat c + 32 + unat k + 32 + unat n + (if ys = [] then 0 else 32) \<le> unat x" for x
  proof -
    have "x \<notin> bytes_at c 32" using x by (auto simp: bytes_at_def)
    then have "m0 x = m x" using room nb(3) by (simp add: m0_def put_outside)
    moreover have "put_prev d c m0 x = m0 x" if "ys \<noteq> []"
      by (rule put_outside) (use ud [OF that] nb(3) room ys_pos [OF that] x that in \<open>auto simp: bytes_at_def\<close>)
    ultimately show ?thesis by (simp add: m')
  qed
  have "blocks_at m' 0 a ws c"
    by (rule blocks_at_prefix [OF pre]) (use nb(3) room in \<open>auto intro!: out\<close>)
  moreover have "blocks_at m' c d ys 0"
  proof (cases "ys = []")
    case False
    have e: "unat d + extent ys \<le> 2 ^ 64" using ud [OF False] nb(3) room by linarith
    have "blocks_at m0 (c + 32 + k) d ys 0"
      using tail e ud [OF False] nb(3) room by (simp add: m0_def blocks_at_put)
    then show ?thesis using False e by (simp add: m' blocks_at_put_prev)
  qed simp
  moreover have "read_header m' c = read_header m0 c"
    unfolding m' using ud nb(3) ys_pos room by (auto intro!: read_header_other)
  moreover have "c + 32 + (k + 32 + n) = d" by (simp add: d_def c_def algebra_simps)
  ultimately have "blocks_at m' 0 a (ws @ (k + 32 + n, True) # ys) 0"
    by (simp add: h0 c_def [symmetric])
  with out show ?thesis by blast
qed

lemma coalesce_next_spec:
  assumes blk: "blocks_at m 0 a (xs @ (n, True) # ys) 0"
    and ext: "unat a + extent (xs @ (n, True) # ys) < 2 ^ 64" and a: "4096 \<le> unat a"
  defines "b \<equiv> addr_after a xs"
  shows "blocks_at (coalesce_next b m) 0 a (xs @ bl_absorb n ys) 0 \<and>
    (\<forall>x. unat x < unat b \<or> unat b + 32 + unat n + absorb_reach ys \<le> unat x \<longrightarrow> coalesce_next b m x = m x)"
proof -
  have hdr: "read_header m b = \<lparr>blk_size = n, blk_free = True,
      blk_next = (if ys = [] then 0 else b + 32 + n), blk_prev = last_addr 0 a xs\<rparr>"
    and post: "blocks_at m b (b + 32 + n) ys 0"
    using blk by (simp_all add: b_def)
  consider (stay) "bl_absorb n ys = (n, True) # ys" "coalesce_next b m = m"
    | (merge) k zs where "ys = (k, True) # zs"
  proof (cases ys)
    case Nil
    then show ?thesis using stay by (simp add: coalesce_next_def hdr)
  next
    case (Cons y zs)
    show ?thesis
    proof (cases "snd y")
      case True
      then show ?thesis using merge [of "fst y" zs] Cons by (cases y) simp
    next
      case False
      then have "\<not> blk_free (read_header m (b + 32 + n))"
        using post Cons by (cases y) simp
      then show ?thesis using stay False Cons
        by (cases y) (simp add: coalesce_next_def hdr Let_def)
    qed
  qed
  then show ?thesis
  proof cases
    case stay
    then show ?thesis using blk by simp
  next
    case merge
    note nb = neighbours [OF blk [unfolded merge] ext [unfolded merge] a, folded b_def]
    have e: "coalesce_next b m = join_blocks b (n + 32 + k) (if zs = [] then 0 else b + 32 + n + 32 + k) m"
      using nb(6)
      by (simp add: coalesce_next_def join_blocks_def nb(1,2,9) Let_def BLOCK_HEADER_SIZE_def add.assoc [of n 32 k, symmetric])
    have "blocks_at (coalesce_next b m) 0 a (xs @ (n + 32 + k, True) # zs) 0 \<and>
      (\<forall>x. unat x < unat b \<or> unat b + 32 + unat n + 32 + unat k + (if zs = [] then 0 else 32) \<le> unat x \<longrightarrow>
        coalesce_next b m x = m x)"
      unfolding e by (rule join_blocks_spec [OF blk [unfolded merge] ext [unfolded merge] a, folded b_def])
    then show ?thesis by (simp only: merge bl_absorb.simps absorb_reach.simps add.assoc) blast
  qed
qed

lemma coalesce_prev_spec:
  assumes blk: "blocks_at m 0 a (xs @ (n, True) # ys) 0"
    and ext: "unat a + extent (xs @ (n, True) # ys) < 2 ^ 64" and a: "4096 \<le> unat a"
  defines "b \<equiv> addr_after a xs"
  shows "blocks_at (coalesce_prev b m) 0 a
      (if xs \<noteq> [] \<and> snd (last xs) then butlast xs @ (fst (last xs) + 32 + n, True) # ys
       else xs @ (n, True) # ys) 0 \<and>
    (\<forall>x. unat x < (if xs \<noteq> [] \<and> snd (last xs) then unat (addr_after a (butlast xs)) else unat b) \<or>
        unat b + 32 + unat n + (if ys = [] then 0 else 32) \<le> unat x \<longrightarrow> coalesce_prev b m x = m x)"
proof -
  have hdr: "read_header m b = \<lparr>blk_size = n, blk_free = True,
      blk_next = (if ys = [] then 0 else b + 32 + n), blk_prev = last_addr 0 a xs\<rparr>"
    using blk by (simp add: b_def)
  show ?thesis
  proof (cases "xs \<noteq> [] \<and> snd (last xs)")
    case False
    have "coalesce_prev b m = m"
    proof (cases "xs = []")
      case True
      then show ?thesis by (simp add: coalesce_prev_def hdr)
    next
      case ne: False
      then obtain ws k where xs: "xs = ws @ [(k, False)]"
        using False by (metis append_butlast_last_id prod.collapse)
      have "\<not> blk_free (read_header m (last_addr 0 a xs))"
        using blk by (simp add: xs)
      then show ?thesis by (simp add: coalesce_prev_def hdr Let_def)
    qed
    with blk show ?thesis by (simp only: if_not_P [OF False]) simp
  next
    case True
    then obtain ws k where xs: "xs = ws @ [(k, True)]" by (metis append_butlast_last_id prod.collapse)
    have blk': "blocks_at m 0 a (ws @ (k, True) # (n, True) # ys) 0"
      and ext': "unat a + extent (ws @ (k, True) # (n, True) # ys) < 2 ^ 64"
      using blk ext by (simp_all add: xs)
    define c where "c = addr_after a ws"
    have b: "b = c + 32 + k" by (simp add: b_def xs c_def)
    note nb = neighbours [OF blk' ext' a, folded c_def, folded b]
    have e: "coalesce_prev b m = join_blocks c (k + 32 + n) (if ys = [] then 0 else b + 32 + n) m"
      using nb(5)
      by (simp add: coalesce_prev_def join_blocks_def nb(1,2,9,10) Let_def BLOCK_HEADER_SIZE_def add.assoc [of k 32 n, symmetric])
    have "blocks_at (coalesce_prev b m) 0 a (ws @ (k + 32 + n, True) # ys) 0 \<and>
      (\<forall>x. unat x < unat c \<or> unat b + 32 + unat n + (if ys = [] then 0 else 32) \<le> unat x \<longrightarrow>
        coalesce_prev b m x = m x)"
      unfolding e nb(4) by (rule join_blocks_spec [OF blk' ext' a, folded c_def, folded b])
    then show ?thesis by (simp add: xs c_def)
  qed
qed

text \<open>
  What the heap code may write: headers and free blocks, that is nothing outside the run of
  blocks and no byte that a live pointer of the list answers for.
\<close>

definition heap_writes :: "u64 \<Rightarrow> block list \<Rightarrow> (u64 \<Rightarrow> u8) \<Rightarrow> (u64 \<Rightarrow> u8) \<Rightarrow> bool" where
  "heap_writes a bs m m' \<longleftrightarrow> (\<forall>x. x \<notin> bytes_at a (extent bs) \<longrightarrow> m' x = m x) \<and>
     (\<forall>q j x. live a bs q = Some j \<longrightarrow> x \<in> bytes_at q (unat j) \<longrightarrow> m' x = m x)"

lemma heap_writes_interval:
  assumes "\<And>x. unat x < unat (addr_after a xs) \<or>
      unat (addr_after a xs) + 32 + unat n + (if ys = [] then 0 else 32) \<le> unat x \<Longrightarrow> m' x = m x"
    and "unat a + extent (xs @ (n, True) # ys) < 2 ^ 64"
  shows "heap_writes a (xs @ (n, True) # ys) m m'"
proof -
  note u = addr_after_middle [OF assms(2)]
  have pos: "32 \<le> extent ys" if "ys \<noteq> []" using that by (cases ys) simp_all
  have "m' x = m x" if "x \<notin> bytes_at a (extent (xs @ (n, True) # ys))" for x
    by (rule assms(1)) (use that pos u(1) in \<open>auto simp: bytes_at_def not_less\<close>)
  moreover have "m' x = m x" if "live a (xs @ (n, True) # ys) q = Some j" "x \<in> bytes_at q (unat j)" for q j x
  proof (rule assms(1))
    have "q \<noteq> addr_after a xs + 32" using that(1) live_middle [OF assms(2)] by auto
    from live_clear [OF that(1) this assms(2) that(2)] u(1)
    show "unat x < unat (addr_after a xs) \<or>
      unat (addr_after a xs) + 32 + unat n + (if ys = [] then 0 else 32) \<le> unat x" by simp
  qed
  ultimately show ?thesis by (simp add: heap_writes_def)
qed

lemma live_absorb: "live a (bl_absorb n ys) = live a ((n, True) # ys)"
  by (induction n ys rule: bl_absorb.induct) (simp_all add: algebra_simps)

lemma absorb_cases:
  "bl_absorb n ys = (n, True) # ys \<and> absorb_reach ys = 0 \<or>
   (\<exists>k zs. ys = (k, True) # zs \<and> bl_absorb n ys = (n + 32 + k, True) # zs \<and>
     absorb_reach ys = 32 + unat k + (if zs = [] then 0 else 32))"
  by (induction n ys rule: bl_absorb.induct) simp_all

lemma heap_writes_cong:
  "extent bs' = extent bs \<Longrightarrow> live a bs' = live a bs \<Longrightarrow> heap_writes a bs' m m' = heap_writes a bs m m'"
  by (simp add: heap_writes_def)

lemma heap_writes_trans: "heap_writes a bs m m' \<Longrightarrow> heap_writes a bs m' m'' \<Longrightarrow> heap_writes a bs m m''"
  unfolding heap_writes_def by metis

lemma coalesce_next_writes:
  assumes blk: "blocks_at m 0 a (xs @ (n, True) # ys) 0"
    and ext: "unat a + extent (xs @ (n, True) # ys) < 2 ^ 64" and a: "4096 \<le> unat a"
  shows "heap_writes a (xs @ (n, True) # ys) m (coalesce_next (addr_after a xs) m)"
proof -
  let ?b = "addr_after a xs"
  obtain j zs where z: "bl_absorb n ys = (j, True) # zs" using bl_absorb_Cons by blast
  have ext_eq: "extent (xs @ (j, True) # zs) = extent (xs @ (n, True) # ys)"
    using bl_absorb_extent [of n False ys] ext by (simp add: z)
  have live_eq: "live a (xs @ (j, True) # zs) = live a (xs @ (n, True) # ys)"
    using live_absorb [of ?b n ys] by (simp add: z)
  have "unat n + absorb_reach ys \<le> unat j + (if zs = [] then 0 else 32)"
  proof (cases "absorb_reach ys = 0")
    case True
    then show ?thesis using absorb_cases [of n ys] z by auto
  next
    case False
    then obtain k where y: "ys = (k, True) # zs" "j = n + 32 + k"
      "absorb_reach ys = 32 + unat k + (if zs = [] then 0 else 32)"
      using absorb_cases [of n ys] z by auto
    moreover have "unat (n + 32 + k) = unat n + 32 + unat k"
      by (rule merge_size) (use ext y(1) in simp)
    ultimately show ?thesis by simp
  qed
  then have "coalesce_next ?b m x = m x"
    if "unat x < unat ?b \<or> unat ?b + 32 + unat j + (if zs = [] then 0 else 32) \<le> unat x" for x
    using that conjunct2 [OF coalesce_next_spec [OF blk ext a], rule_format, of x] by linarith
  then have "heap_writes a (xs @ (j, True) # zs) m (coalesce_next ?b m)"
    by (rule heap_writes_interval) (assumption, unfold ext_eq, rule ext)
  then show ?thesis using heap_writes_cong [OF ext_eq live_eq] by simp
qed

lemma coalesce_prev_writes:
  assumes blk: "blocks_at m 0 a (xs @ (n, True) # ys) 0"
    and ext: "unat a + extent (xs @ (n, True) # ys) < 2 ^ 64" and a: "4096 \<le> unat a"
  shows "heap_writes a (xs @ (n, True) # ys) m (coalesce_prev (addr_after a xs) m)"
proof (cases "xs \<noteq> [] \<and> snd (last xs)")
  case False
  show ?thesis
    by (rule heap_writes_interval [OF _ ext])
      (rule conjunct2 [OF coalesce_prev_spec [OF blk ext a], unfolded if_not_P [OF False], rule_format])
next
  case True
  let ?b = "addr_after a xs"
  obtain ws k where xs: "xs = ws @ [(k, True)]" using True by (metis append_butlast_last_id prod.collapse)
  have kn: "unat (k + 32 + n) = unat k + 32 + unat n"
    by (rule merge_size) (use ext in \<open>simp add: xs\<close>)
  have le: "live a (ws @ (k + 32 + n, True) # ys) = live a (xs @ (n, True) # ys)"
    "extent (ws @ (k + 32 + n, True) # ys) = extent (xs @ (n, True) # ys)"
    using kn by (simp_all add: xs algebra_simps)
  have "heap_writes a (ws @ (k + 32 + n, True) # ys) m (coalesce_prev ?b m)"
  proof (rule heap_writes_interval)
    show "unat a + extent (ws @ (k + 32 + n, True) # ys) < 2 ^ 64" using ext le(2) by simp
    fix x :: u64 assume x: "unat x < unat (addr_after a ws) \<or>
      unat (addr_after a ws) + 32 + unat (k + 32 + n) + (if ys = [] then 0 else 32) \<le> unat x"
    have "unat (addr_after a ws) = unat a + extent ws"
      using ext by (intro addr_after_unat) (simp add: xs)
    then have "unat x < unat (addr_after a (butlast xs)) \<or>
      unat ?b + 32 + unat n + (if ys = [] then 0 else 32) \<le> unat x"
      using x kn addr_after_middle(1) [OF ext] by (auto simp: xs)
    then show "coalesce_prev ?b m x = m x"
      by (rule conjunct2 [OF coalesce_prev_spec [OF blk ext a], unfolded if_P [OF True], rule_format])
  qed
  then show ?thesis using heap_writes_cong [OF le(2,1)] by simp
qed

lemma coalesce_blocks_spec:
  fixes s :: "'a kheap_scheme"
  assumes blk: "blocks_at (mem8 s) 0 a (xs @ (n, True) # ys) 0"
    and ext: "unat a + extent (xs @ (n, True) # ys) < 2 ^ 64" and a: "4096 \<le> unat a"
  shows "blocks_at (mem8 (coalesce_blocks (addr_after a xs) s)) 0 a (bl_free xs n ys) 0 \<and>
    heap_writes a (xs @ (n, True) # ys) (mem8 s) (mem8 (coalesce_blocks (addr_after a xs) s))"
proof -
  let ?b = "addr_after a xs"
  let ?m1 = "coalesce_next ?b (mem8 s)"
  obtain j zs where z: "bl_absorb n ys = (j, True) # zs" using bl_absorb_Cons by blast
  have ext_eq: "extent (xs @ (j, True) # zs) = extent (xs @ (n, True) # ys)"
    using bl_absorb_extent [of n False ys] ext by (simp add: z)
  have ext1: "unat a + extent (xs @ (j, True) # zs) < 2 ^ 64" unfolding ext_eq by (rule ext)
  have live_eq: "live a (xs @ (j, True) # zs) = live a (xs @ (n, True) # ys)"
    using live_absorb [of ?b n ys] by (simp add: z)
  have s1: "blocks_at ?m1 0 a (xs @ (j, True) # zs) 0"
    using coalesce_next_spec [OF blk ext a] z by simp
  have "blocks_at (coalesce_prev ?b ?m1) 0 a (bl_free xs n ys) 0"
    unfolding bl_free_def z list.sel fst_conv by (rule conjunct1 [OF coalesce_prev_spec [OF s1 ext1 a]])
  moreover have "heap_writes a (xs @ (n, True) # ys) ?m1 (coalesce_prev ?b ?m1)"
    using coalesce_prev_writes [OF s1 ext1 a] heap_writes_cong [OF ext_eq live_eq] by simp
  ultimately show ?thesis
    using coalesce_next_writes [OF blk ext a] by (auto simp: coalesce_blocks_def intro: heap_writes_trans)
qed

subsection \<open>The walks end\<close>

lemma find_fit_spec:
  "blocks_at m p a bs 0 \<Longrightarrow> unat a + extent bs < 2 ^ 64 \<Longrightarrow> 4096 \<le> unat a \<Longrightarrow>
    find_fit (if bs = [] then 0 else a) n m =
      Some (case bl_fit n bs of None \<Rightarrow> 0 | Some (xs, k, ys) \<Rightarrow> addr_after a xs)"
proof (induction bs arbitrary: p a)
  case Nil
  then show ?case by (simp add: find_fit.simps)
next
  case (Cons b bs)
  obtain k f where b: "b = (k, f)" by (cases b)
  have a: "a \<noteq> 0" using Cons.prems(3) by auto
  show ?case
  proof (cases "f \<and> n \<le> k")
    case True
    then show ?thesis using Cons.prems(1) a by (subst find_fit.simps) (simp add: b)
  next
    case False
    have "find_fit (if bs = [] then 0 else a + 32 + k) n m =
      Some (case bl_fit n bs of None \<Rightarrow> 0 | Some (xs, k', ys) \<Rightarrow> addr_after (a + 32 + k) xs)"
    proof (cases "bs = []")
      case True
      then show ?thesis by (simp add: find_fit.simps)
    next
      case ne: False
      have "unat (a + 32 + k) = unat a + 32 + unat k"
        using unat_step [OF _ ne] Cons.prems(2) b by simp
      then show ?thesis using Cons.IH [of a "a + 32 + k"] Cons.prems b by simp
    qed
    then show ?thesis using Cons.prems(1) a False
      by (subst find_fit.simps) (auto simp: b split: option.splits)
  qed
qed

lemma last_block_spec:
  "blocks_at m p a (bs @ [b]) 0 \<Longrightarrow> unat a + extent (bs @ [b]) < 2 ^ 64 \<Longrightarrow> 4096 \<le> unat a \<Longrightarrow>
    last_block a m = Some (addr_after a bs)"
proof (induction bs arbitrary: p a)
  case Nil
  then show ?case by (cases b) (subst last_block.simps, simp)
next
  case (Cons c bs)
  obtain k f where c: "c = (k, f)" by (cases c)
  have "unat (a + 32 + k) = unat a + 32 + unat k"
    using unat_step [of a k f "bs @ [b]"] Cons.prems(2) c by simp
  moreover from this Cons.prems(3) have "a + 32 + k \<noteq> 0" by (auto simp: word_unat_eq_iff)
  ultimately show ?case using Cons.IH [of a "a + 32 + k"] Cons.prems c
    by (subst last_block.simps) simp
qed

lemma count_blocks_spec:
  "blocks_at m p a bs 0 \<Longrightarrow> unat a + extent bs < 2 ^ 64 \<Longrightarrow> 4096 \<le> unat a \<Longrightarrow>
    count_blocks (if bs = [] then 0 else a) i j m =
      Some (i + word_of_nat (length (filter snd bs)), j + word_of_nat (length (filter (\<lambda>b. \<not> snd b) bs)))"
proof (induction bs arbitrary: p a i j)
  case Nil
  then show ?case by (simp add: count_blocks.simps)
next
  case (Cons b bs)
  obtain k f where b: "b = (k, f)" by (cases b)
  have a: "a \<noteq> 0" using Cons.prems(3) by auto
  have step: "count_blocks (if bs = [] then 0 else a + 32 + k) i j m =
      Some (i + word_of_nat (length (filter snd bs)), j + word_of_nat (length (filter (\<lambda>b. \<not> snd b) bs)))" for i j
  proof (cases "bs = []")
    case True
    then show ?thesis by (simp add: count_blocks.simps)
  next
    case ne: False
    have "unat (a + 32 + k) = unat a + 32 + unat k"
      using unat_step [OF _ ne] Cons.prems(2) b by simp
    then show ?thesis using Cons.IH [of a "a + 32 + k" i j] Cons.prems b by simp
  qed
  show ?case using Cons.prems(1) a step [of "i + 1" j] step [of i "j + 1"]
    by (subst count_blocks.simps) (auto simp: b algebra_simps)
qed

subsection \<open>Reading the list back\<close>

text \<open>The blocks of a heap as its memory has them; every block is at least 32 bytes long.\<close>

primrec read_blocks :: "nat \<Rightarrow> (u64 \<Rightarrow> u8) \<Rightarrow> u64 \<Rightarrow> block list" where
  "read_blocks 0 m a = []"
| "read_blocks (Suc i) m a =
     (if a = 0 then []
      else (blk_size (read_header m a), blk_free (read_header m a)) # read_blocks i m (blk_next (read_header m a)))"

definition heap_blocks :: "'a kheap_scheme \<Rightarrow> block list" where
  "heap_blocks s = read_blocks (unat (total_heap_size s) div 32) (mem8 s) (heap_start s)"

lemma read_blocks_spec:
  "blocks_at m p a bs 0 \<Longrightarrow> unat a + extent bs < 2 ^ 64 \<Longrightarrow> 4096 \<le> unat a \<Longrightarrow> length bs \<le> i \<Longrightarrow>
    read_blocks i m (if bs = [] then 0 else a) = bs"
proof (induction bs arbitrary: p a i)
  case Nil
  then show ?case by (cases i) simp_all
next
  case (Cons b bs)
  obtain k f where b: "b = (k, f)" by (cases b)
  obtain j where j: "i = Suc j" "length bs \<le> j" using Cons.prems(4) by (cases i) auto
  have a: "a \<noteq> 0" using Cons.prems(3) by auto
  have "read_blocks j m (if bs = [] then 0 else a + 32 + k) = bs"
  proof (cases "bs = []")
    case True
    then show ?thesis by (cases j) simp_all
  next
    case ne: False
    have "unat (a + 32 + k) = unat a + 32 + unat k"
      using unat_step [OF _ ne] Cons.prems(2) b by simp
    then show ?thesis using Cons.IH [of a "a + 32 + k" j] Cons.prems b j by simp
  qed
  then show ?case using Cons.prems(1) a by (simp add: b j)
qed

lemma extent_length: "32 * length bs \<le> extent bs"
  by (induction bs) simp_all

text \<open>
  The invariant: the blocks tile the heap, which consists of whole pages that are neither free
  nor used by the bitmap of the page allocator, and below the end of the address space.
\<close>

definition heap_apart :: "'a kheap_scheme \<Rightarrow> u64 \<Rightarrow> nat \<Rightarrow> bool" where
  "heap_apart s a n \<longleftrightarrow>
     (\<forall>x\<in>bytes_at a n. x \<notin> bitmap_cells s \<and> (\<forall>p\<in>free_pages s. x \<notin> page_bytes p))"

definition heap_inv :: "block list \<Rightarrow> 'a kheap_scheme \<Rightarrow> bool" where
  "heap_inv bs s \<longleftrightarrow>
     pmm_ok s \<and> bitmap_apart s \<and> unat (total_pages s) < 2 ^ 52 \<and>
     (bs = [] \<longleftrightarrow> heap_start s = 0) \<and> 4096 dvd unat (heap_start s) \<and>
     blocks_at (mem8 s) 0 (heap_start s) bs 0 \<and> aligned8 bs \<and>
     unat (total_heap_size s) = extent bs \<and> unat (heap_start s) + extent bs < 2 ^ 64 \<and>
     heap_apart s (heap_start s) (extent bs)"

definition heap_ok :: "'a kheap_scheme \<Rightarrow> bool" where
  "heap_ok s \<longleftrightarrow> heap_inv (heap_blocks s) s"

definition heap_live :: "'a kheap_scheme \<Rightarrow> u64 \<Rightarrow> u64 option" where
  "heap_live s = live (heap_start s) (heap_blocks s)"

lemma heap_inv_start: "heap_inv bs s \<Longrightarrow> bs \<noteq> [] \<Longrightarrow> 4096 \<le> unat (heap_start s)"
  by (auto simp: heap_inv_def word_unat_eq_iff dest: dvd_imp_le)

lemma heap_inv_blocks:
  assumes "heap_inv bs s"
  shows "heap_blocks s = bs"
proof (cases "bs = []")
  case True
  then have "heap_start s = 0" using assms by (simp add: heap_inv_def)
  then show ?thesis using True by (cases "unat (total_heap_size s) div 32") (simp_all add: heap_blocks_def)
next
  case False
  have "length bs \<le> unat (total_heap_size s) div 32"
    using extent_length [of bs] assms by (simp add: heap_inv_def)
  then show ?thesis
    using read_blocks_spec [of "mem8 s" 0 "heap_start s" bs] assms heap_inv_start [OF assms False] False
    by (simp add: heap_blocks_def heap_inv_def)
qed

lemma heap_okI: "heap_inv bs s \<Longrightarrow> heap_ok s \<and> heap_blocks s = bs"
  by (simp add: heap_ok_def heap_inv_blocks)

end
