(* ===== verification/Kheap_Growth.thy ===== *)
theory Kheap_Growth
  imports Kheap
begin

text \<open>
  How the kernel heap grows: rounding, the page loop of \<open>expand_heap\<close> against the page pool, the
  new block at the end of the list, and a condition under which the pages always continue the
  heap.
\<close>

subsection \<open>Rounding up\<close>

lemma and_not_mask:
  fixes x :: u64
  assumes "k < 64"
  shows "unat (x AND NOT (mask k)) = unat x div 2 ^ k * 2 ^ k"
proof -
  have "x AND NOT (mask k) = push_bit k (drop_bit k x)"
    by (rule bit_word_eqI) (auto simp: bit_and_iff bit_not_iff bit_mask_iff bit_push_bit_iff bit_drop_bit_eq)
  moreover have "unat (push_bit k (drop_bit k x)) = take_bit 64 (push_bit k (drop_bit k (unat x)))"
  proof -
    have "take_bit LENGTH(64) (unat x) = unat x"
      by (simp only: take_bit_nat_eq_self_iff unsigned_less)
    then show ?thesis by (simp only: unsigned_push_bit_eq unsigned_drop_bit_eq) simp
  qed
  moreover have "push_bit k (drop_bit k (unat x)) < 2 ^ 64"
  proof -
    have "unat x div 2 ^ k * 2 ^ k \<le> unat x" by simp
    also have "\<dots> < 2 ^ 64" using unsigned_less [of x, where 'a = nat] by simp
    finally show ?thesis by (simp add: push_bit_eq_mult drop_bit_eq_div)
  qed
  ultimately show ?thesis by (simp add: take_bit_nat_eq_self push_bit_eq_mult drop_bit_eq_div)
qed

lemma align_up_spec:
  assumes "k < 64" and "unat sz + 2 ^ k \<le> 2 ^ 64"
  shows "unat (align_up sz (2 ^ k)) = (unat sz + (2 ^ k - 1)) div 2 ^ k * 2 ^ k"
proof -
  have m: "(2 ^ k :: u64) - 1 = mask k" by (simp add: mask_eq_exp_minus_1)
  have um: "unat (mask k :: u64) = 2 ^ k - 1"
  proof -
    have "(mask k :: u64) = word_of_nat (2 ^ k - 1)" by (simp add: mask_eq_exp_minus_1 of_nat_diff)
    moreover have "(2::nat) ^ k < 2 ^ 64" using assms(1) by (intro power_strict_increasing) simp_all
    then have "unat (word_of_nat (2 ^ k - 1) :: u64) = 2 ^ k - 1"
      by (simp only: unat_of_nat) simp
    ultimately show ?thesis by simp
  qed
  have "unat (sz + mask k) = unat sz + (2 ^ k - 1)"
    using assms um by (subst unat_add_exact) (simp_all add: um)
  moreover have "align_up sz (2 ^ k) = (sz + mask k) AND NOT (mask k)"
    by (simp add: align_up_def m [symmetric] add_diff_eq)
  ultimately show ?thesis using and_not_mask [OF assms(1), of "sz + mask k"] by simp
qed

subsection \<open>Growing\<close>

lemma take_pages_frame: "pmm_frame s (snd (take_pages pmm_alloc_page n s))"
  by (induction n arbitrary: s) (auto intro: pmm_frame_trans [OF pmm_alloc_page_frame] pmm_alloc_page_frame)

lemma expand_pages_take:
  "unat i \<le> unat n \<Longrightarrow> n = i + word_of_nat k \<Longrightarrow> unat i + k = unat n \<Longrightarrow>
    expand_pages i n mem s =
     (let (ps, t) = take_pages pmm_alloc_page k s
      in if length ps = k then (Some (if i = 0 \<and> ps \<noteq> [] then hd ps else mem), t)
         else (None, KHEAP_PRINT (line ''[KHEAP] Failed to allocate page for heap expansion'') t))"
proof (induction k arbitrary: i mem s)
  case 0
  then show ?case by (subst expand_pages.simps) simp
next
  case (Suc k)
  have less: "i < n" using Suc.prems by (simp add: word_less_nat_alt)
  note u = unat_Suc_below [OF less]
  obtain p t where p: "pmm_alloc_page s = (p, t)" by (cases "pmm_alloc_page s")
  show ?case
  proof (cases "p = 0")
    case True
    then show ?thesis using less p by (subst expand_pages.simps) simp
  next
    case False
    have nz: "i + 1 \<noteq> 0" using u by (auto simp: word_unat_eq_iff)
    have "expand_pages (i + 1) n (if i = 0 then p else mem) t =
      (let (ps, t') = take_pages pmm_alloc_page k t
       in if length ps = k then (Some (if i = 0 then p else mem), t')
          else (None, KHEAP_PRINT (line ''[KHEAP] Failed to allocate page for heap expansion'') t'))"
    proof -
      have p1: "unat (i + 1) \<le> unat n" and p3: "unat (i + 1) + k = unat n" using u Suc.prems(3) by simp_all
      have p2: "n = i + 1 + word_of_nat k" using Suc.prems(2) by (simp add: algebra_simps)
      from Suc.IH [OF p1 p2 p3, of "if i = 0 then p else mem" t] nz show ?thesis by (simp only: simp_thms if_False)
    qed
    then show ?thesis using less p False
      by (subst expand_pages.simps) (auto simp: Let_def split: prod.splits)
  qed
qed

text \<open>The bytes by which the heap grows for a request of \<open>n\<close>, header included.\<close>

definition grow_bytes :: "u64 \<Rightarrow> u64" where
  "grow_bytes n = (if HEAP_EXPAND_SIZE < n then align_up n 4096 else HEAP_EXPAND_SIZE)"

definition heap_end :: "'a kheap_scheme \<Rightarrow> nat" where
  "heap_end s = unat (heap_start s) + unat (total_heap_size s)"

text \<open>
  \<open>n\<close> pages one after the other from address \<open>a\<close> on. The code keeps only the address of the
  first page, so this is what it takes for granted about the page allocator; and for merging
  blocks across two expansions, that the pages continue the heap.
\<close>

definition consecutive :: "nat \<Rightarrow> nat \<Rightarrow> u64 list \<Rightarrow> bool" where
  "consecutive a n ps \<longleftrightarrow> map unat ps = map (\<lambda>i. a + 4096 * i) [0..<n]"

definition grows_in_place :: "u64 \<Rightarrow> 'a kheap_scheme \<Rightarrow> bool" where
  "grows_in_place n s \<longleftrightarrow>
     (let k = unat (grow_bytes n div 4096); ps = fst (take_pages pmm_alloc_page k s)
      in length ps = k \<longrightarrow> consecutive (if heap_start s = 0 then unat (hd ps) else heap_end s) k ps)"

lemma HEAP_EXPAND_SIZE_simp: "HEAP_EXPAND_SIZE = 16384"
  by (simp add: HEAP_EXPAND_SIZE_def)

lemma grow_bytes_spec:
  assumes "unat n + 4096 \<le> 2 ^ 64"
  shows "4096 dvd unat (grow_bytes n)" "16384 \<le> unat (grow_bytes n)" "unat n \<le> unat (grow_bytes n)"
proof -
  have e: "HEAP_EXPAND_SIZE = 16384" by (simp add: HEAP_EXPAND_SIZE_def)
  have up: "unat (align_up n 4096) = (unat n + 4095) div 4096 * 4096"
    using align_up_spec [of 12 n] assms by simp
  have "unat n \<le> (unat n + 4095) div 4096 * 4096" by linarith
  then show "4096 dvd unat (grow_bytes n)" "16384 \<le> unat (grow_bytes n)" "unat n \<le> unat (grow_bytes n)"
    by (auto simp: grow_bytes_def e up word_less_nat_alt)
qed

text \<open>A page is a run of 4096 bytes; consecutive pages make up a longer run.\<close>

lemma page_bytes_iff: "4096 dvd unat p \<Longrightarrow> x \<in> page_bytes p \<longleftrightarrow> unat p \<le> unat x \<and> unat x < unat p + 4096"
proof -
  assume "4096 dvd unat p"
  then obtain q where q: "unat p = 4096 * q" by (rule dvdE)
  show ?thesis unfolding page_bytes_def mem_Collect_eq q by auto
qed

lemma consecutive_run:
  assumes "consecutive a n ps" and "x \<in> bytes_at e k" and "unat e = a" and "k = 4096 * n"
    and "\<And>p. p \<in> set ps \<Longrightarrow> 4096 dvd unat p"
  shows "\<exists>p\<in>set ps. x \<in> page_bytes p"
proof -
  define i where "i = (unat x - a) div 4096"
  have x: "a \<le> unat x" "unat x < a + 4096 * n" using assms(2-4) by (auto simp: bytes_at_def)
  have len: "length ps = n" using assms(1) by (metis consecutive_def length_map length_upt minus_nat.diff_0)
  have i: "i < n" unfolding i_def using x by (subst div_less_iff_less_mult) simp_all
  then have "map unat ps ! i = a + 4096 * i" using assms(1) by (simp add: consecutive_def)
  then have u: "unat (ps ! i) = a + 4096 * i" using i len by simp
  have p: "ps ! i \<in> set ps" using i len by simp
  have "unat x - a = 4096 * i + (unat x - a) mod 4096" by (simp add: i_def)
  moreover have "(unat x - a) mod 4096 < 4096" by simp
  ultimately have "a + 4096 * i \<le> unat x" "unat x < a + 4096 * i + 4096" using x by linarith+
  then show ?thesis using p page_bytes_iff [OF assms(5) [OF p]] u by auto
qed

lemma consecutive_hd: "consecutive a n ps \<Longrightarrow> 0 < n \<Longrightarrow> ps \<noteq> [] \<and> unat (hd ps) = a"
proof -
  assume *: "consecutive a n ps" "0 < n"
  then have "map unat ps = a # map (\<lambda>i. a + 4096 * i) [Suc 0..<n]"
    by (simp add: consecutive_def upt_conv_Cons)
  then show ?thesis by (cases ps) simp_all
qed

lemma consecutive_last: "consecutive a n ps \<Longrightarrow> 0 < n \<Longrightarrow> \<exists>p\<in>set ps. unat p = a + 4096 * (n - 1)"
proof -
  assume *: "consecutive a n ps" "0 < n"
  then have "a + 4096 * (n - 1) \<in> set (map unat ps)" unfolding consecutive_def by simp
  then show ?thesis by auto
qed

lemma free_page_end: "pmm_ok s \<Longrightarrow> unat (total_pages s) < 2 ^ 52 \<Longrightarrow> p \<in> free_pages s \<Longrightarrow> unat p + 4096 < 2 ^ 64"
proof -
  assume *: "pmm_ok s" "unat (total_pages s) < 2 ^ 52" "p \<in> free_pages s"
  then obtain n where n: "p = page_of n" "n < total_pages s"
    by (auto simp: free_pages_def free_pfns_def)
  then have "unat n + 1 \<le> unat (total_pages s)" by (simp add: word_less_nat_alt)
  then have "unat n + 1 < 2 ^ 52" using *(2) by linarith
  moreover have "unat p = unat n * 4096"
    unfolding n(1) page_of_def by (rule page_addr_unat) (use calculation in simp)
  ultimately show ?thesis by simp
qed

subsection \<open>What the heap code leaves alone\<close>

definition kheap_frame :: "'a kheap_scheme \<Rightarrow> 'a kheap_scheme \<Rightarrow> bool" where
  "kheap_frame s t \<longleftrightarrow> port_in t = port_in s \<and> port_reads t = port_reads s \<and> hw_trace t = hw_trace s \<and>
     timer_ticks t = timer_ticks s \<and> shift_pressed t = shift_pressed s \<and> ctrl_pressed t = ctrl_pressed s \<and>
     alt_pressed t = alt_pressed s \<and> kb_buffer t = kb_buffer s \<and> kb_buffer_read t = kb_buffer_read s \<and>
     kb_buffer_write t = kb_buffer_write s \<and> idt t = idt s \<and> idtp t = idtp s \<and>
     mmap_tag t = mmap_tag s \<and> meminfo_tag t = meminfo_tag s \<and> bootloader_tag t = bootloader_tag s \<and>
     bitmap t = bitmap s \<and> total_pages t = total_pages s \<and> memory_size t = memory_size s \<and>
     cr3 t = cr3 s \<and> kernel_pml4 t = kernel_pml4 s \<and> kheap.more t = kheap.more s"

lemma kheap_frame_refl [simp, intro]: "kheap_frame s s"
  by (simp add: kheap_frame_def)

lemma kheap_frame_trans [trans]: "kheap_frame s t \<Longrightarrow> kheap_frame t u \<Longrightarrow> kheap_frame s u"
  by (simp add: kheap_frame_def)

lemma kheap_frame_upd [simp]:
  "kheap_frame s (t\<lparr>mem8 := m\<rparr>) = kheap_frame s t"
  "kheap_frame s (t\<lparr>heap_start := h\<rparr>) = kheap_frame s t"
  "kheap_frame s (t\<lparr>total_heap_size := n\<rparr>) = kheap_frame s t"
  "kheap_frame s (t\<lparr>used_heap_size := n\<rparr>) = kheap_frame s t"
  by (simp_all add: kheap_frame_def)

text \<open>A printout touches the screen only.\<close>

lemma vga_frame_kheap:
  assumes "vga_frame s (t :: 'a kheap_scheme)"
  shows "kheap_frame s t" "heap_start t = heap_start s" "total_heap_size t = total_heap_size s"
    "used_heap_size t = used_heap_size s" "mem8 t = mem8 s" "used_pages t = used_pages s"
    "bitmap t = bitmap s" "total_pages t = total_pages s"
proof -
  from assms have "t = s\<lparr>vga_buffer := vga_buffer t, cursor_x := cursor_x t, cursor_y := cursor_y t\<rparr>"
    by (simp add: vga_frame_iff)
  then obtain b x y where "t = s\<lparr>vga_buffer := b, cursor_x := x, cursor_y := y\<rparr>" by metis
  then show "kheap_frame s t" "heap_start t = heap_start s" "total_heap_size t = total_heap_size s"
    "used_heap_size t = used_heap_size s" "mem8 t = mem8 s" "used_pages t = used_pages s"
    "bitmap t = bitmap s" "total_pages t = total_pages s"
    by (simp_all add: kheap_frame_def)
qed

lemma KHEAP_PRINT_frame [simp]: "vga_frame s (KHEAP_PRINT cs s)"
  by (simp add: KHEAP_PRINT_def vga_print_frame)

lemmas kheap_print_frame [simp] = vga_frame_kheap [OF KHEAP_PRINT_frame]
lemmas kheap_hex_frame [simp] = vga_frame_kheap [OF vga_print_hex_frame]

lemma pmm_frame_kheap:
  assumes "pmm_frame s (t :: 'a kheap_scheme)"
  shows "kheap_frame s t" "heap_start t = heap_start s" "total_heap_size t = total_heap_size s"
    "used_heap_size t = used_heap_size s" "bitmap t = bitmap s" "total_pages t = total_pages s"
proof -
  obtain m n where "t = s\<lparr>mem8 := m, used_pages := n\<rparr>"
    using pmm_frame_record [OF assms] by metis
  then show "kheap_frame s t" "heap_start t = heap_start s" "total_heap_size t = total_heap_size s"
    "used_heap_size t = used_heap_size s" "bitmap t = bitmap s" "total_pages t = total_pages s"
    by (simp_all add: kheap_frame_def)
qed

lemma pmm_sets_cong:
  assumes "bitmap t = bitmap s" and "total_pages t = total_pages s"
    and "\<forall>x\<in>bitmap_cells s. mem8 t x = mem8 s x"
  shows "free_pfns t = free_pfns s" "free_pages t = free_pages s" "used_pfns t = used_pfns s"
    "bitmap_cells t = bitmap_cells s"
proof -
  have "bitmap_test n t = bitmap_test n s" if "n < total_pages s" for n
    using assms that by (simp add: bitmap_test_def bitmap_cell_def bitmap_cells_def)
  then show "free_pfns t = free_pfns s" "free_pages t = free_pages s" "used_pfns t = used_pfns s"
    "bitmap_cells t = bitmap_cells s"
    using assms(1,2) by (auto simp: free_pages_def free_pfns_def used_pfns_def bitmap_cells_def bitmap_cell_def)
qed

text \<open>
  The invariant speaks of the page allocator's state only through its bitmap and counter.
\<close>

lemma pool_cong:
  assumes "bitmap t = bitmap s" and "total_pages t = total_pages s" and "used_pages t = used_pages s"
    and "\<forall>x\<in>bitmap_cells s. mem8 t x = mem8 s x"
  shows "pmm_ok t = pmm_ok s" "bitmap_apart t = bitmap_apart s" "heap_apart t a n = heap_apart s a n"
    "free_pfns t = free_pfns s"
  using pmm_sets_cong [OF assms(1,2,4)] assms
  by (simp_all add: pmm_ok_def bitmap_apart_def heap_apart_def)

lemma heap_inv_same:
  assumes "bitmap t = bitmap s" and "total_pages t = total_pages s" and "used_pages t = used_pages s"
    and "heap_start t = heap_start s" and "total_heap_size t = total_heap_size s" and "mem8 t = mem8 s"
  shows "heap_inv bs t = heap_inv bs s"
  using pool_cong [OF assms(1-3)] assms by (simp add: heap_inv_def)

lemma heap_inv_print [simp]:
  "heap_inv bs (KHEAP_PRINT cs s) = heap_inv bs s"
  "heap_inv bs (vga_print_hex v s) = heap_inv bs s"
  by (rule heap_inv_same; simp)+

lemma expand_heap_frame: "expand_heap n s = Some (r, t) \<Longrightarrow> kheap_frame s t \<and> used_heap_size t = used_heap_size s"
proof -
  assume e: "expand_heap n s = Some (r, t)"
  define k where "k = (if HEAP_EXPAND_SIZE < n then align_up n 4096 else HEAP_EXPAND_SIZE) div 4096"
  obtain ps u where take: "take_pages pmm_alloc_page (unat k) s = (ps, u)" by (metis surj_pair)
  have u: "kheap_frame s u" "used_heap_size u = used_heap_size s"
    using pmm_frame_kheap [OF take_pages_frame [of s "unat k"]] take by simp_all
  have ex: "expand_pages 0 k 0 s =
     (if length ps = unat k then (Some (if ps \<noteq> [] then hd ps else 0), u)
      else (None, KHEAP_PRINT (line ''[KHEAP] Failed to allocate page for heap expansion'') u))"
    using expand_pages_take [of 0 k "unat k" 0 s] by (simp add: take)
  have p: "kheap_frame s (KHEAP_PRINT cs u) \<and> used_heap_size (KHEAP_PRINT cs u) = used_heap_size s" for cs
    using u kheap_frame_trans kheap_print_frame(1) by fastforce
  from e show ?thesis
    unfolding expand_heap_def Let_def k_def [symmetric] ex
    using u p by (auto simp del: kheap_print_frame split: if_splits option.splits)
qed

lemma split_block_frame [simp]:
  "kheap_frame u (split_block b n s) = kheap_frame u s"
  "used_heap_size (split_block b n s) = used_heap_size s"
  "heap_start (split_block b n s) = heap_start s"
  "total_heap_size (split_block b n s) = total_heap_size s"
  "bitmap (split_block b n s) = bitmap s" "total_pages (split_block b n s) = total_pages s"
  "used_pages (split_block b n s) = used_pages s"
  by (simp_all add: split_block_def Let_def)

lemma take_block_frame [simp]:
  "kheap_frame u (snd (take_block b n s)) = kheap_frame u s"
  "heap_start (snd (take_block b n s)) = heap_start s"
  "total_heap_size (snd (take_block b n s)) = total_heap_size s"
  "bitmap (snd (take_block b n s)) = bitmap s" "total_pages (snd (take_block b n s)) = total_pages s"
  "used_pages (snd (take_block b n s)) = used_pages s"
  "fst (take_block b n s) = b + 32"
  by (simp_all add: take_block_def Let_def BLOCK_HEADER_SIZE_def)

lemma kmalloc_frame: "kmalloc n s = Some (r, t) \<Longrightarrow> kheap_frame s t"
proof -
  assume k: "kmalloc n s = Some (r, t)"
  have *: "kheap_frame s (KHEAP_PRINT cs u)" if "kheap_frame s u" for cs and u :: "'a kheap_scheme"
    using that by (rule kheap_frame_trans) simp
  have take: "kheap_frame s v" if "take_block b m u = (q, v)" "kheap_frame s u" for b m q and u v :: "'a kheap_scheme"
    using take_block_frame(1) [of s b m u] that by simp
  from k show ?thesis
    unfolding kmalloc_def Let_def
    by (auto split: if_splits option.splits dest!: expand_heap_frame intro: * take simp del: kheap_print_frame)
qed

lemma kfree_frame: "kheap_frame s (kfree p s)"
  by (simp add: kfree_def Let_def coalesce_blocks_def)

subsection \<open>The operations on the list of blocks\<close>

text \<open>The last block of a run gets a successor.\<close>

lemma blocks_at_put_last:
  assumes "blocks_at m p a (xs @ [(k, f)]) nx" and "unat a + extent (xs @ [(k, f)]) < 2 ^ 64"
  shows "blocks_at (put_next (addr_after a xs) q m) p a (xs @ [(k, f)]) q"
proof -
  have "unat (addr_after a xs) = unat a + extent xs" using addr_after_middle(1) assms(2) by blast
  then have "blocks_at (put_next (addr_after a xs) q m) p a xs (addr_after a xs)"
    using assms by (simp add: blocks_at_put)
  then show ?thesis using assms(1) by simp
qed

text \<open>Taking a block out of a free one.\<close>

lemma take_block_spec:
  fixes s :: "'a kheap_scheme"
  assumes inv: "heap_inv (xs @ (k, True) # ys) s" and nk: "n \<le> k" and n8: "8 dvd unat n"
  defines "b \<equiv> addr_after (heap_start s) xs" and "bs \<equiv> xs @ (k, True) # ys"
  defines "t \<equiv> snd (take_block b n s)"
  shows "heap_inv (xs @ bl_cut n k @ ys) t" "heap_writes (heap_start s) bs (mem8 s) (mem8 t)"
    "used_heap_size t = used_heap_size s + (n + 32)" "free_pfns t = free_pfns s"
proof -
  let ?a = "heap_start s"
  have a: "4096 \<le> unat ?a" using heap_inv_start [OF inv] by simp
  have I: "blocks_at (mem8 s) 0 ?a (xs @ (k, True) # ys) 0" "unat ?a + extent (xs @ (k, True) # ys) < 2 ^ 64"
    "aligned8 (xs @ (k, True) # ys)" "heap_apart s ?a (extent bs)"
    using inv by (simp_all only: heap_inv_def bs_def)
  note sp = split_block_spec [OF I(1,2) a nk, folded b_def]
  have m: "mem8 t = put_free b False (mem8 (split_block b n s))"
    by (simp add: t_def take_block_def Let_def)
  have e: "extent (xs @ bl_cut n k @ ys) = extent bs"
    using bl_cut_extent [OF nk] by (simp add: bs_def)
  show w: "heap_writes ?a bs (mem8 s) (mem8 t)"
    unfolding bs_def
  proof (rule heap_writes_interval [OF _ I(2)])
    fix x :: u64 assume "unat x < unat (addr_after ?a xs) \<or>
      unat (addr_after ?a xs) + 32 + unat k + (if ys = [] then 0 else 32) \<le> unat x"
    then show "mem8 t x = mem8 s x"
      unfolding m by (intro sp [THEN conjunct2, rule_format]) (simp only: b_def)
  qed
  have cells: "\<forall>x\<in>bitmap_cells s. mem8 t x = mem8 s x"
    using w I(4) by (auto simp: heap_writes_def heap_apart_def)
  have t: "bitmap t = bitmap s" "total_pages t = total_pages s" "used_pages t = used_pages s"
    "heap_start t = ?a" "total_heap_size t = total_heap_size s"
    by (simp_all add: t_def)
  note pc = pool_cong [OF t(1-3) cells]
  have "aligned8 (bl_cut n k)" using bl_cut_aligned [OF nk n8] I(3) by simp
  then have al: "aligned8 (xs @ bl_cut n k @ ys)" using I(3) by simp
  have ne: "xs @ bl_cut n k @ ys \<noteq> []" by (simp add: bl_cut_def)
  have blk: "blocks_at (mem8 t) 0 ?a (xs @ bl_cut n k @ ys) 0" unfolding m using sp by simp
  show "heap_inv (xs @ bl_cut n k @ ys) t"
    unfolding heap_inv_def t pc e using inv blk al ne a I(4) by (simp add: heap_inv_def bs_def)
  show "used_heap_size t = used_heap_size s + (n + 32)"
    by (simp add: t_def take_block_def Let_def BLOCK_HEADER_SIZE_def)
  show "free_pfns t = free_pfns s" by (rule pc(4))
qed

text \<open>What taking pages means for the heap: it keeps its invariant and owns none of them.\<close>

lemma taken_pages:
  fixes s u :: "'a kheap_scheme"
  assumes inv: "heap_inv bs s" and take: "take_pages pmm_alloc_page k s = (ps, u)"
  shows "heap_inv bs u" "set ps \<inter> free_pages u = {}" "set ps \<subseteq> free_pages s - {0}"
    "\<forall>p\<in>set ps. 4096 dvd unat p" "\<forall>x. x \<notin> bitmap_cells s \<longrightarrow> mem8 u x = mem8 s x"
proof -
  have u: "u = snd (take_pages pmm_alloc_page k s)" and ps: "ps = fst (take_pages pmm_alloc_page k s)"
    using take by simp_all
  have fr: "pmm_frame s u" unfolding u by (rule take_pages_frame)
  have I: "pmm_ok s" "bitmap_apart s" "blocks_at (mem8 s) 0 (heap_start s) bs 0"
    "unat (heap_start s) + extent bs < 2 ^ 64" "heap_apart s (heap_start s) (extent bs)"
    using inv by (simp_all add: heap_inv_def)
  note cells = pmm_frame_cells [OF fr]
  show um: "\<forall>x. x \<notin> bitmap_cells s \<longrightarrow> mem8 u x = mem8 s x" using fr by (simp add: pmm_frame_def)
  have sub: "free_pages u \<subseteq> free_pages s" unfolding u by (rule pool.take_pages_subset [OF I(1)])
  show fresh: "set ps \<subseteq> free_pages s - {0}" unfolding ps using pool.take_pages_fresh [OF I(1)] by blast
  show "set ps \<inter> free_pages u = {}"
    using pool.take_pages_avail [OF I(1), of k] fresh unfolding ps u by blast
  show "\<forall>p\<in>set ps. 4096 dvd unat p" unfolding ps using pool.take_pages_aligned [OF I(1)] by blast
  have "blocks_at (mem8 u) 0 (heap_start s) bs 0"
    using blocks_at_cong [of "heap_start s" bs "mem8 u" "mem8 s"] I(3-5) um by (simp add: heap_apart_def)
  moreover have "bitmap_apart u" using I(2) sub unfolding bitmap_apart_def cells by blast
  moreover have "heap_apart u (heap_start s) (extent bs)" using I(5) sub unfolding heap_apart_def cells by blast
  moreover have "pmm_ok u" unfolding u by (rule pool.take_pages_inv [OF I(1)])
  ultimately show "heap_inv bs u" using inv pmm_frame_kheap [OF fr] by (simp add: heap_inv_def)
qed

text \<open>Consecutive pages make a run of bytes that can be added to the heap.\<close>

lemma taken_run:
  fixes s u :: "'a kheap_scheme"
  assumes inv: "heap_inv bs s" and take: "take_pages pmm_alloc_page k s = (ps, u)"
    and cons: "consecutive (unat p) k ps" and k: "0 < k"
  shows "heap_apart u p (4096 * k)" "unat p + 4096 * k < 2 ^ 64" "4096 dvd unat p" "p \<noteq> 0"
proof -
  note tk = taken_pages [OF inv take]
  have fr: "pmm_frame s u" using take_pages_frame [of s k] take by simp
  note cells = pmm_frame_cells [OF fr]
  have I: "pmm_ok s" "bitmap_apart s" "unat (total_pages s) < 2 ^ 52" "pmm_ok u"
    using inv tk(1) by (simp_all add: heap_inv_def)
  have "p \<in> set ps" using consecutive_hd [OF cons k] by (metis hd_in_set word_unat_eq_iff)
  then show "4096 dvd unat p" "p \<noteq> 0" using tk(3,4) by auto
  obtain q where q: "q \<in> set ps" "unat q = unat p + 4096 * (k - 1)" using consecutive_last [OF cons k] by blast
  have "unat q + 4096 < 2 ^ 64" by (rule free_page_end [OF I(1,3)]) (use q tk(3) in blast)
  then show "unat p + 4096 * k < 2 ^ 64" using q(2) k by (simp add: algebra_simps)
  show "heap_apart u p (4096 * k)"
    unfolding heap_apart_def
  proof (intro ballI conjI)
    fix x assume "x \<in> bytes_at p (4096 * k)"
    then obtain q where q: "q \<in> set ps" "x \<in> page_bytes q"
      using consecutive_run [OF cons _ refl refl] tk(4) by blast
    then show "x \<notin> bitmap_cells u" using I(2) tk(3) unfolding cells bitmap_apart_def by blast
    fix r assume r: "r \<in> free_pages u"
    show "x \<notin> page_bytes r"
    proof
      assume "x \<in> page_bytes r"
      then have "q = r"
        using page_bytes_same [OF _ pool.avail_aligned [OF I(4) r] q(2)] tk(4) q(1) by blast
      then show False using q(1) r tk(2) by blast
    qed
  qed
qed

text \<open>The header \<open>expand_heap\<close> writes.\<close>

definition new_header :: "u64 \<Rightarrow> u64 \<Rightarrow> (u64 \<Rightarrow> u8) \<Rightarrow> u64 \<Rightarrow> u8" where
  "new_header p n m = put_prev p 0 (put_next p 0 (put_free p True (put_size p n m)))"

lemma new_header_read [simp]:
  "read_header (new_header p n m) p = \<lparr>blk_size = n, blk_free = True, blk_next = 0, blk_prev = 0\<rparr>"
  by (simp add: new_header_def)

lemma new_header_outside: "unat p + 32 \<le> 2 ^ 64 \<Longrightarrow> x \<notin> bytes_at p 32 \<Longrightarrow> new_header p n m x = m x"
  by (simp add: new_header_def put_outside)

lemma grow_block_size:
  assumes "16384 \<le> unat g" and "4096 dvd unat g"
  shows "extent [(g - 32, True)] = unat g" "8 dvd unat (g - 32)"
proof -
  have "unat (g - 32) = unat g - 32" using assms(1) by (subst unat_sub_exact) (simp_all add: word_le_nat_alt)
  then show "extent [(g - 32, True)] = unat g" "8 dvd unat (g - 32)"
    using assms by (auto elim!: dvdE)
qed

lemma first_block_inv:
  fixes u :: "'a kheap_scheme"
  assumes inv: "heap_inv [] u" and p: "heap_apart u p (unat g)" "unat p + unat g < 2 ^ 64" "4096 dvd unat p" "p \<noteq> 0"
    and g: "16384 \<le> unat g" "4096 dvd unat g"
  defines "t \<equiv> u\<lparr>mem8 := new_header p (g - 32) (mem8 u), total_heap_size := g, heap_start := p\<rparr>"
  shows "heap_inv [(g - 32, True)] t" "free_pfns t = free_pfns u"
proof -
  have t: "bitmap t = bitmap u" "total_pages t = total_pages u" "used_pages t = used_pages u"
    by (simp_all add: t_def)
  have "bytes_at p 32 \<subseteq> bytes_at p (unat g)" using g(1) by (auto simp: bytes_at_def)
  then have "\<forall>x\<in>bitmap_cells u. x \<notin> bytes_at p 32" using p(1) unfolding heap_apart_def by blast
  then have "\<forall>x\<in>bitmap_cells u. mem8 t x = mem8 u x"
    using p(2) g(1) by (simp add: t_def new_header_outside)
  note pc = pool_cong [OF t this]
  show "free_pfns t = free_pfns u" by (rule pc(4))
  show "heap_inv [(g - 32, True)] t"
    unfolding heap_inv_def pc t
    using inv p g grow_block_size [OF g] by (simp add: t_def heap_inv_def)
qed

lemma next_block_inv:
  fixes u :: "'a kheap_scheme"
  assumes inv: "heap_inv bs u" and ne: "bs \<noteq> []"
    and p: "heap_apart u p (unat g)" "unat p + unat g < 2 ^ 64" "unat p = heap_end u"
    and g: "16384 \<le> unat g" "4096 dvd unat g"
  defines "m0 \<equiv> new_header p (g - 32) (mem8 u)" and "c \<equiv> addr_after (heap_start u) (butlast bs)"
  defines "t \<equiv> u\<lparr>mem8 := put_prev p c (put_next c p m0), total_heap_size := total_heap_size u + g\<rparr>"
  shows "last_block (heap_start u) m0 = Some c" "heap_inv (bs @ [(g - 32, True)]) t" "free_pfns t = free_pfns u"
    "addr_after (heap_start u) bs = p"
    "\<And>q j x. live (heap_start u) bs q = Some j \<Longrightarrow> x \<in> bytes_at q (unat j) \<Longrightarrow> mem8 t x = mem8 u x"
proof -
  let ?a = "heap_start u"
  have a: "4096 \<le> unat ?a" and I: "blocks_at (mem8 u) 0 ?a bs 0" "unat ?a + extent bs < 2 ^ 64"
    "unat (total_heap_size u) = extent bs" "heap_apart u ?a (extent bs)"
    using heap_inv_start [OF inv ne] inv by (simp_all add: heap_inv_def)
  obtain ws k f where bs: "bs = ws @ [(k, f)]" using ne by (metis rev_exhaust prod.exhaust)
  have c: "c = addr_after ?a ws" by (simp add: c_def bs)
  have up: "unat p = unat ?a + extent bs" using p(3) I(3) by (simp add: heap_end_def)
  show pa: "addr_after ?a bs = p" using addr_after_unat [OF I(2)] up by (simp add: word_unat_eq_iff)
  have uc: "unat c = unat ?a + extent ws" and uck: "unat c + 32 + unat k = unat p"
    using addr_after_middle(1) [OF I(2) [unfolded bs]] up by (simp_all add: c bs)
  define m2 where "m2 = put_prev p c (put_next c p m0)"
  have p32: "unat p + 32 \<le> 2 ^ 64" using p(2) g(1) by simp
  have b0: "blocks_at m0 0 ?a bs 0"
    using I(1) p32 up by (simp add: m0_def new_header_def blocks_at_put)
  show "last_block ?a m0 = Some c"
    unfolding c by (rule last_block_spec [OF b0 [unfolded bs] I(2) [unfolded bs] a])
  have "blocks_at (put_next c p m0) 0 ?a bs p"
    unfolding c bs by (rule blocks_at_put_last [OF b0 [unfolded bs] I(2) [unfolded bs]])
  then have b2: "blocks_at m2 0 ?a bs p" using p32 up by (simp add: m2_def blocks_at_put)
  have "read_header (put_next c p m0) p = read_header m0 p"
    by (rule read_header_other) (use p32 uck in simp_all)
  then have h2: "read_header m2 p = \<lparr>blk_size = g - 32, blk_free = True, blk_next = 0, blk_prev = c\<rparr>"
    by (simp add: m2_def m0_def)
  have blks: "blocks_at m2 0 ?a (bs @ [(g - 32, True)]) 0"
    using b2 h2 ne by (simp add: pa) (simp add: bs c)
  have m2u: "m2 x = mem8 u x" if "x \<notin> bytes_at p 32" "x \<notin> bytes_at c 32" for x
    using that p32 uck by (simp add: m2_def m0_def put_outside new_header_outside)
  have sub: "bytes_at p 32 \<subseteq> bytes_at p (unat g)" "bytes_at c 32 \<subseteq> bytes_at ?a (extent bs)"
    using g(1) uc by (auto simp: bytes_at_def bs)
  have t: "bitmap t = bitmap u" "total_pages t = total_pages u" "used_pages t = used_pages u"
    by (simp_all add: t_def)
  have "\<forall>x\<in>bitmap_cells u. mem8 t x = mem8 u x"
  proof
    fix x assume x: "x \<in> bitmap_cells u"
    have "x \<notin> bytes_at p 32" using x p(1) sub(1) unfolding heap_apart_def by blast
    moreover have "x \<notin> bytes_at c 32" using x I(4) sub(2) unfolding heap_apart_def by blast
    ultimately show "mem8 t x = mem8 u x" using m2u by (simp add: t_def m2_def)
  qed
  note pc = pool_cong [OF t this]
  show "free_pfns t = free_pfns u" by (rule pc(4))
  have "bytes_at ?a (extent bs + unat g) = bytes_at ?a (extent bs) \<union> bytes_at p (unat g)"
    using up by (auto simp: bytes_at_def)
  then have apart: "heap_apart u ?a (extent bs + unat g)"
    using I(4) p(1) unfolding heap_apart_def by blast
  have tot: "unat (total_heap_size t) = extent bs + unat g"
    unfolding t_def using I(3) p(2) up by (simp, subst unat_add_exact) simp_all
  have e: "extent (bs @ [(g - 32, True)]) = extent bs + unat g" "aligned8 [(g - 32, True)]"
    using grow_block_size [OF g] by simp_all
  show "heap_inv (bs @ [(g - 32, True)]) t"
    unfolding heap_inv_def pc t e(1) tot
    using inv blks apart e(2) up p(2) g(2) ne by (simp add: t_def heap_inv_def m2_def)
  show "mem8 t x = mem8 u x" if q: "live ?a bs q = Some j" and x: "x \<in> bytes_at q (unat j)" for q j x
  proof -
    have "x \<in> bytes_at ?a (extent bs)" using live_bounds [OF q I(2)] x by (auto simp: bytes_at_def)
    then have "x \<notin> bytes_at p 32" using up by (auto simp: bytes_at_def)
    moreover have "x \<notin> bytes_at c 32"
      using live_clear [OF q [unfolded bs] _ I(2) [unfolded bs] x] uc x
        addr_after_middle(2) [OF I(2) [unfolded bs]] by (cases "q = c + 32") (auto simp: bytes_at_def c)
    ultimately show ?thesis using m2u by (simp add: t_def m2_def)
  qed
qed

text \<open>The heap grows by one free block at its end.\<close>

lemma expand_heap_spec:
  fixes s :: "'a kheap_scheme"
  assumes inv: "heap_inv bs s" and n: "unat n + 4096 \<le> 2 ^ 64" and grow: "grows_in_place n s"
  defines "g \<equiv> grow_bytes n"
  defines "ps \<equiv> fst (take_pages pmm_alloc_page (unat (g div 4096)) s)"
  shows "if length ps = unat (g div 4096)
    then \<exists>t. expand_heap n s = Some (addr_after (heap_start t) bs, t) \<and>
        heap_inv (bs @ [(g - 32, True)]) t \<and> addr_after (heap_start t) bs \<noteq> 0 \<and>
        heap_start t = (if bs = [] then hd ps else heap_start s) \<and>
        free_pfns t = free_pfns (snd (take_pages pmm_alloc_page (unat (g div 4096)) s)) \<and>
        (\<forall>q j x. live (heap_start s) bs q = Some j \<longrightarrow> x \<in> bytes_at q (unat j) \<longrightarrow> mem8 t x = mem8 s x)
    else \<exists>t. expand_heap n s = Some (0, t) \<and> heap_inv bs t \<and>
        heap_start t = heap_start s \<and>
        free_pfns t = free_pfns (snd (take_pages pmm_alloc_page (unat (g div 4096)) s)) \<and>
        (\<forall>x. x \<notin> bitmap_cells s \<longrightarrow> mem8 t x = mem8 s x)"
proof -
  let ?k = "unat (g div 4096)"
  obtain u where take: "take_pages pmm_alloc_page ?k s = (ps, u)" by (metis ps_def prod.collapse)
  have u: "u = snd (take_pages pmm_alloc_page ?k s)" using take by simp
  note uf = pmm_frame_kheap [OF take_pages_frame [of s ?k], folded u]
  note tk = taken_pages [OF inv take]
  have ex: "expand_pages 0 (g div 4096) 0 s =
     (if length ps = ?k then (Some (if ps \<noteq> [] then hd ps else 0), u)
      else (None, KHEAP_PRINT (line ''[KHEAP] Failed to allocate page for heap expansion'') u))"
    using expand_pages_take [of 0 "g div 4096" ?k 0 s] by (simp add: take)
  note eh = expand_heap_def [of n s, unfolded Let_def grow_bytes_def [symmetric], folded g_def, unfolded ex]
  show ?thesis
  proof (cases "length ps = ?k")
    case False
    then have "expand_heap n s = Some (0, KHEAP_PRINT (line ''[KHEAP] Failed to allocate page for heap expansion'') u)"
      by (simp add: eh)
    then show ?thesis using False tk(1,5) uf u pool_cong(4) [of "KHEAP_PRINT _ u" u] by simp
  next
    case True
    note g = grow_bytes_spec(2,1) [OF n, folded g_def]
    have k: "4096 * ?k = unat g" using g by (simp add: unat_div_num)
    then have kpos: "0 < ?k" using g by linarith
    define p where "p = hd ps"
    have cons: "consecutive (if heap_start s = 0 then unat p else heap_end s) ?k ps"
      using grow True unfolding grows_in_place_def Let_def g_def [symmetric] ps_def [symmetric] p_def by simp
    have up: "unat p = (if heap_start s = 0 then unat p else heap_end s)" and hd: "ps \<noteq> []"
      using consecutive_hd [OF cons kpos] by (simp_all add: p_def)
    note run = taken_run [OF inv take cons [folded up] kpos, unfolded k]
    show ?thesis
    proof (cases "heap_start s = 0")
      case 0: True
      then have bs: "bs = []" and tot: "total_heap_size s = 0" using inv by (simp_all add: heap_inv_def word_unat_eq_iff)
      note fb = first_block_inv [OF tk(1) [unfolded bs] run g]
      have "expand_heap n s = Some (p, u\<lparr>mem8 := new_header p (g - 32) (mem8 u), total_heap_size := g, heap_start := p\<rparr>)"
        using True hd 0 uf run(4) tot by (simp add: eh p_def [symmetric] BLOCK_HEADER_SIZE_def new_header_def)
      with fb show ?thesis using True bs run(4) u by (simp add: p_def)
    next
      case False
      then have ne: "bs \<noteq> []" using inv by (auto simp: heap_inv_def)
      have "unat p = heap_end u" using up False uf by (simp add: heap_end_def)
      note nb = next_block_inv [OF tk(1) ne run(1,2) this g]
      define c where "c = addr_after (heap_start u) (butlast bs)"
      define t where "t = u\<lparr>mem8 := put_prev p c (put_next c p (new_header p (g - 32) (mem8 u))),
        total_heap_size := total_heap_size u + g\<rparr>"
      note nb = nb [folded c_def, folded t_def]
      have "expand_heap n s = Some (p, t)"
        using True hd False uf run(4) nb(1)
        by (simp add: eh p_def [symmetric] t_def BLOCK_HEADER_SIZE_def new_header_def)
      moreover have "mem8 t x = mem8 s x"
        if q: "live (heap_start s) bs q = Some j" and x: "x \<in> bytes_at q (unat j)" for q j x
      proof -
        have "unat (heap_start s) + extent bs < 2 ^ 64" "heap_apart s (heap_start s) (extent bs)"
          using inv by (simp_all add: heap_inv_def)
        then have "x \<notin> bitmap_cells s"
          using live_bounds [OF q] x by (auto simp: heap_apart_def bytes_at_def)
        then show ?thesis using nb(5) [of q j x] q x uf tk(5) by simp
      qed
      moreover have "heap_start t = heap_start s" using uf by (simp add: t_def)
      ultimately show ?thesis using True run(4) nb uf u ne by auto
    qed
  qed
qed

subsection \<open>When the heap grows in place\<close>

text \<open>
  If the free frames are an interval, pages come out of it one after the other. A heap that ends
  where the interval starts then grows in place for as long as nobody else takes pages.
\<close>

lemma interval_Min:
  "free_pfns s = {n. a \<le> n \<and> n < b} \<Longrightarrow> a < b \<Longrightarrow> Min (free_pfns s) = a \<and> a \<in> free_pfns s"
proof -
  assume f: "free_pfns s = {n. a \<le> n \<and> n < b}" and ab: "a < b"
  have "a \<in> free_pfns s" using ab unfolding f by simp
  moreover have "a \<le> n" if "n \<in> free_pfns s" for n using that unfolding f by blast
  ultimately show ?thesis using Min_eqI [OF finite_pfns(1)] by blast
qed

lemma interval_alloc:
  assumes "free_pfns s = {n. a \<le> n \<and> n < b}"
  shows "pmm_alloc_page s = (if a < b then (page_of a, pmm_take a s) else (0, s))"
    and "a < b \<Longrightarrow> free_pfns (pmm_take a s) = {n. a + 1 \<le> n \<and> n < b}"
proof -
  show "pmm_alloc_page s = (if a < b then (page_of a, pmm_take a s) else (0, s))"
  proof (cases "a < b")
    case True
    then have "free_pfns s \<noteq> {}" using interval_Min [OF assms] by blast
    then show ?thesis using interval_Min [OF assms True] True by (simp add: pmm_alloc_page_spec page_of_def)
  next
    case False
    then have "free_pfns s = {}" unfolding assms by auto
    then show ?thesis using False by (simp add: pmm_alloc_page_spec)
  qed
  assume ab: "a < b"
  have u: "unat (a + 1) = Suc (unat a)" by (rule unat_Suc_below [OF ab])
  have "free_pfns (pmm_take a s) = free_pfns s - {a}"
    using interval_Min [OF assms ab] by (simp add: pmm_take_sets)
  also have "\<dots> = {n. a + 1 \<le> n \<and> n < b}"
    unfolding assms by (auto simp: word_le_nat_alt u Suc_le_eq word_unat_eq_iff)
  finally show "free_pfns (pmm_take a s) = {n. a + 1 \<le> n \<and> n < b}" .
qed

lemma interval_take:
  "free_pfns s = {n. a \<le> n \<and> n < b} \<Longrightarrow> pmm_ok s \<Longrightarrow> a \<noteq> 0 \<Longrightarrow>
    (let (ps, t) = take_pages pmm_alloc_page k s
     in length ps = min k (unat b - unat a) \<and> consecutive (unat a * 4096) (length ps) ps \<and>
        free_pfns t = {n. unat a + length ps \<le> unat n \<and> n < b})"
proof (induction k arbitrary: s a)
  case 0
  then show ?case by (simp add: consecutive_def word_le_nat_alt)
next
  case (Suc k)
  note al = interval_alloc [OF Suc.prems(1)]
  show ?case
  proof (cases "a < b")
    case False
    then show ?thesis using al(1) Suc.prems(1)
      by (auto simp: consecutive_def word_le_nat_alt word_less_nat_alt)
  next
    case True
    let ?u = "pmm_take a s"
    note sa = unat_Suc_below [OF True]
    have "b \<le> total_pages s"
    proof (rule ccontr)
      assume "\<not> b \<le> total_pages s"
      then have "max a (total_pages s) \<in> free_pfns s" using True unfolding Suc.prems(1) by (simp add: max_def not_le)
      from free_pfns_less [OF this] show False by simp
    qed
    then have at: "a < total_pages s" using True by simp
    have pa: "page_of a \<noteq> 0" "unat (page_of a) = unat a * 4096"
      using page_of_zero [OF Suc.prems(2) at] Suc.prems(3) page_addr_unat [OF pmm_ok_pfn [OF Suc.prems(2) at]]
      by (simp_all add: page_of_def)
    have ok: "pmm_ok ?u" using pmm_alloc_page_ok [OF Suc.prems(2)] al(1) True by simp
    have nz: "a + 1 \<noteq> 0" using sa by (auto simp: word_unat_eq_iff)
    obtain ps t where take: "take_pages pmm_alloc_page k ?u = (ps, t)" by (metis surj_pair)
    have IH: "length ps = min k (unat b - unat (a + 1))" "consecutive (unat (a + 1) * 4096) (length ps) ps"
      "free_pfns t = {n. unat (a + 1) + length ps \<le> unat n \<and> n < b}"
      using Suc.IH [OF al(2) [OF True] ok nz] unfolding take Let_def prod.case by blast+
    have "take_pages pmm_alloc_page (Suc k) s = (page_of a # ps, t)"
      using al(1) True pa(1) take by simp
    moreover have "consecutive (unat a * 4096) (length (page_of a # ps)) (page_of a # ps)"
    proof -
      have shift: "[0..<Suc m] = 0 # map Suc [0..<m]" for m by (simp add: upt_conv_Cons map_Suc_upt del: upt_Suc)
      show ?thesis using IH(2) pa(2) sa
        by (simp add: consecutive_def shift comp_def algebra_simps del: upt_Suc)
    qed
    ultimately show ?thesis
      using IH sa True by (simp add: word_less_nat_alt)
  qed
qed

definition heap_solo :: "'a kheap_scheme \<Rightarrow> bool" where
  "heap_solo s \<longleftrightarrow> (\<exists>a b. 0 < a \<and> free_pfns s = {n. a \<le> n \<and> n < b} \<and>
     (a < b \<longrightarrow> heap_start s \<noteq> 0 \<longrightarrow> heap_end s = unat a * 4096))"

lemma heap_solo_grows:
  assumes "heap_solo s" and "pmm_ok s" and "unat n + 4096 \<le> 2 ^ 64"
  shows "grows_in_place n s"
proof -
  obtain a b where ab: "0 < a" "free_pfns s = {n. a \<le> n \<and> n < b}"
    "a < b \<longrightarrow> heap_start s \<noteq> 0 \<longrightarrow> heap_end s = unat a * 4096"
    using assms(1) unfolding heap_solo_def by blast
  let ?k = "unat (grow_bytes n div 4096)"
  obtain ps t where take: "take_pages pmm_alloc_page ?k s = (ps, t)" by (metis surj_pair)
  have a0: "a \<noteq> 0" using ab(1) by auto
  have T: "length ps = min ?k (unat b - unat a)" "consecutive (unat a * 4096) (length ps) ps"
    using interval_take [OF ab(2) assms(2) a0, of ?k] unfolding take Let_def prod.case by blast+
  have kpos: "0 < ?k"
    using grow_bytes_spec(2) [OF assms(3)] by (simp add: unat_div_num)
  show ?thesis
  proof (cases "length ps = ?k")
    case True
    then have "a < b" using T(1) kpos by (simp add: word_less_nat_alt)
    moreover have "unat (hd ps) = unat a * 4096" using consecutive_hd [OF T(2)] True kpos by simp
    ultimately show ?thesis using True T(2) ab(3) by (simp add: grows_in_place_def take Let_def)
  next
    case False
    then show ?thesis by (simp add: grows_in_place_def take Let_def)
  qed
qed

text \<open>Growing by hand-over of the lowest pages, or of all that is left, keeps this so.\<close>

lemma heap_solo_step:
  fixes s t :: "'a kheap_scheme"
  assumes "heap_solo s" and "pmm_ok s" and "free_pfns t = free_pfns (snd (take_pages pmm_alloc_page k s))"
    and "length (fst (take_pages pmm_alloc_page k s)) = k \<Longrightarrow> 0 < k \<Longrightarrow>
      heap_end t = (if heap_start s = 0 then unat (hd (fst (take_pages pmm_alloc_page k s))) else heap_end s) + 4096 * k"
    and "0 < k"
  shows "heap_solo t"
proof -
  obtain a b where ab: "0 < a" "free_pfns s = {n. a \<le> n \<and> n < b}"
    "a < b \<longrightarrow> heap_start s \<noteq> 0 \<longrightarrow> heap_end s = unat a * 4096"
    using assms(1) unfolding heap_solo_def by blast
  obtain ps u where take: "take_pages pmm_alloc_page k s = (ps, u)" by (metis surj_pair)
  have a0: "a \<noteq> 0" using ab(1) by auto
  have T: "length ps = min k (unat b - unat a)" "consecutive (unat a * 4096) (length ps) ps"
    "free_pfns t = {n. unat a + length ps \<le> unat n \<and> n < b}"
    using interval_take [OF ab(2) assms(2) a0, of k] assms(3) unfolding take Let_def prod.case snd_conv by auto
  show ?thesis
  proof (cases "unat a + length ps < unat b")
    case False
    then have "free_pfns t = {}" using T(3) by (auto simp: word_less_nat_alt)
    then have "free_pfns t = {n. a \<le> n \<and> n < 0}" by auto
    then show ?thesis unfolding heap_solo_def using ab(1) by (intro exI [of _ a] exI [of _ 0]) simp
  next
    case True
    then have k: "length ps = k" "a < b" using T(1) by (simp_all add: word_less_nat_alt min_def split: if_splits)
    define c where "c = a + word_of_nat k"
    have "unat b < 2 ^ 64" using unsigned_less [of b, where 'a = nat] by simp
    then have uc: "unat c = unat a + k"
      unfolding c_def using True k(1) by (subst unat_add_exact) (simp_all add: unat_of_nat)
    have "unat (hd ps) = unat a * 4096"
      using consecutive_hd [OF T(2)] k(1) assms(5) by simp
    then have "heap_end t = unat c * 4096"
      using assms(4) take k ab(3) uc assms(5) by (simp split: if_splits)
    moreover have "free_pfns t = {n. c \<le> n \<and> n < b}"
      using T(3) uc k(1) by (simp add: word_le_nat_alt)
    moreover have "0 < c" using uc ab(1) by (simp add: word_less_nat_alt)
    ultimately show ?thesis unfolding heap_solo_def by blast
  qed
qed

lemma heap_solo_cong:
  "free_pfns t = free_pfns s \<Longrightarrow> heap_start t = heap_start s \<Longrightarrow> total_heap_size t = total_heap_size s \<Longrightarrow>
    heap_solo t = heap_solo s"
  by (simp add: heap_solo_def heap_end_def)

lemma card_from_below: "card {n :: u64. x \<le> unat n \<and> n < b} = unat b - x"
proof -
  have "unat ` {n :: u64. x \<le> unat n \<and> n < b} = {x..<unat b}"
  proof (intro equalityI subsetI)
    fix k assume "k \<in> {x..<unat b}"
    then have "x \<le> k" "k < unat b" by simp_all
    have u: "unat (word_of_nat k :: u64) = k" by (rule unat_of_nat_below [OF \<open>k < unat b\<close>])
    then have "word_of_nat k \<in> {n :: u64. x \<le> unat n \<and> n < b}"
      using \<open>x \<le> k\<close> \<open>k < unat b\<close> by (simp only: mem_Collect_eq word_less_nat_alt u)
    then show "k \<in> unat ` {n :: u64. x \<le> unat n \<and> n < b}" 
      by (rule image_eqI [where f = unat, rotated]) (rule u [symmetric])
  qed (auto simp: word_less_nat_alt)
  moreover have "inj_on unat {n :: u64. x \<le> unat n \<and> n < b}" by (rule inj_onI) (simp only: word_unat_eq_iff)
  ultimately show ?thesis by (simp only: card_image [symmetric] card_atLeastLessThan)
qed

lemma heap_solo_take:
  fixes s :: "'a kheap_scheme"
  assumes "heap_solo s" and "pmm_ok s"
  shows "length (fst (take_pages pmm_alloc_page k s)) = min k (card (free_pfns s))"
    "card (free_pfns (snd (take_pages pmm_alloc_page k s))) = card (free_pfns s) - k"
proof -
  obtain a b where ab: "a \<noteq> 0" "free_pfns s = {n. a \<le> n \<and> n < b}"
    using assms(1) unfolding heap_solo_def by (metis word_not_simps(1))
  obtain ps t where take: "take_pages pmm_alloc_page k s = (ps, t)" by (metis surj_pair)
  have T: "length ps = min k (unat b - unat a)" "free_pfns t = {n. unat a + length ps \<le> unat n \<and> n < b}"
    using interval_take [OF ab(2) assms(2) ab(1), of k] unfolding take Let_def prod.case by blast+
  have c: "card (free_pfns s) = unat b - unat a"
    using card_from_below [of "unat a" b] by (simp add: ab(2) word_le_nat_alt)
  show "length (fst (take_pages pmm_alloc_page k s)) = min k (card (free_pfns s))"
    using T(1) c by (simp add: take)
  show "card (free_pfns (snd (take_pages pmm_alloc_page k s))) = card (free_pfns s) - k"
    using T card_from_below [of "unat a + length ps" b] by (auto simp: take c min_def)
qed

end
