(* ===== verification/Kheap_Correct.thy ===== *)
theory Kheap_Correct
  imports Kheap_Growth
begin

text \<open>
  What \<open>kmalloc\<close> and \<open>kfree\<close> do to the list of blocks and to the live pointers, the heap as an
  instance of the allocator contract, runs of calls, and the properties of the heap.
\<close>

subsection \<open>Allocation\<close>

text \<open>\<open>kmalloc\<close> is first fit on the list, on each of its three ways out.\<close>

lemma align8:
  assumes "unat sz < 2 ^ 63"
  shows "8 dvd unat (align_up sz 8)" "unat sz \<le> unat (align_up sz 8)" "unat (align_up sz 8) < 2 ^ 63 + 8"
proof -
  have "unat (align_up sz 8) = (unat sz + 7) div 8 * 8"
    using align_up_spec [of 3 sz] assms by simp
  moreover have "(unat sz + 7) div 8 * 8 \<le> unat sz + 7" "unat sz \<le> (unat sz + 7) div 8 * 8" by linarith+
  ultimately show "8 dvd unat (align_up sz 8)" "unat sz \<le> unat (align_up sz 8)" "unat (align_up sz 8) < 2 ^ 63 + 8"
    using assms by simp_all
qed

definition data_kept :: "'a kheap_scheme \<Rightarrow> 'b kheap_scheme \<Rightarrow> bool" where
  "data_kept s t \<longleftrightarrow>
     (\<forall>q j x. heap_live s q = Some j \<longrightarrow> x \<in> bytes_at q (unat j) \<longrightarrow> mem8 t x = mem8 s x)"

lemma heap_live_inv: "heap_inv bs s \<Longrightarrow> heap_live s = live (heap_start s) bs"
  by (simp add: heap_live_def heap_inv_blocks)

lemma take_block_live:
  fixes s :: "'a kheap_scheme"
  assumes inv: "heap_inv (xs @ (k, True) # ys) s" and nk: "n \<le> k" and n8: "8 dvd unat n"
  defines "b \<equiv> addr_after (heap_start s) xs" and "t \<equiv> snd (take_block (addr_after (heap_start s) xs) n s)"
  shows "heap_ok t" "heap_blocks t = xs @ bl_cut n k @ ys" "data_kept s t"
    "heap_live s (b + 32) = None" "\<exists>j\<ge>n. heap_live t = (heap_live s)(b + 32 \<mapsto> j)"
    "8 dvd unat (b + 32)" "b + 32 \<noteq> 0" "used_heap_size t = used_heap_size s + (n + 32)"
    "free_pfns t = free_pfns s"
proof -
  note sp = take_block_spec [OF inv nk n8, folded b_def t_def]
  have t: "t = snd (take_block b n s)" by (simp add: b_def t_def)
  have ext: "unat (heap_start s) + extent (xs @ (k, True) # ys) < 2 ^ 64"
    and al: "aligned8 xs" "4096 dvd unat (heap_start s)" using inv by (simp_all add: heap_inv_def)
  note u = addr_after_middle [OF ext, folded b_def]
  show ok: "heap_ok t" and blks: "heap_blocks t = xs @ bl_cut n k @ ys"
    using heap_okI [OF sp(1) [folded t]] by simp_all
  show "used_heap_size t = used_heap_size s + (n + 32)" using sp(3) by (simp add: t)
  show "free_pfns t = free_pfns s" using sp(4) by (simp add: t)
  have st: "heap_start t = heap_start s" by (simp add: t)
  show "data_kept s t"
    using sp(2) by (simp add: data_kept_def heap_live_inv [OF inv] heap_writes_def t)
  show "heap_live s (b + 32) = None"
    using live_middle [OF ext] by (simp add: heap_live_inv [OF inv] b_def)
  have "heap_live t = (heap_live s)(b + 32 \<mapsto> fst (hd (bl_cut n k)))"
    unfolding heap_live_inv [OF inv] heap_live_def [of t] blks st b_def by (rule live_cut [OF ext nk])
  moreover have "n \<le> fst (hd (bl_cut n k))" using nk by (simp add: bl_cut_def)
  ultimately show "\<exists>j\<ge>n. heap_live t = (heap_live s)(b + 32 \<mapsto> j)" by blast
  have "8 dvd unat (heap_start s)" using al(2) by (rule dvd_trans [rotated]) simp
  then show "8 dvd unat (b + 32)" using aligned8_extent [OF al(1)] u(2) by simp
  show "b + 32 \<noteq> 0" using u(2) by (auto simp: word_unat_eq_iff)
qed

lemma data_kept_trans:
  assumes "data_kept s t" and "data_kept t u" and "\<And>q j. heap_live s q = Some j \<Longrightarrow> heap_live t q = Some j"
  shows "data_kept s u"
  using assms unfolding data_kept_def by metis

text \<open>The search finds what first fit on the list finds.\<close>

lemma heap_fit:
  assumes inv: "heap_inv bs s"
  shows "find_fit (heap_start s) n (mem8 s) =
    Some (case bl_fit n bs of None \<Rightarrow> 0 | Some (xs, k, ys) \<Rightarrow> addr_after (heap_start s) xs)"
proof (cases "bs = []")
  case True
  then have "heap_start s = 0" using inv by (simp add: heap_inv_def)
  then show ?thesis using True by (simp add: find_fit.simps)
next
  case False
  then show ?thesis
    using find_fit_spec [of "mem8 s" 0 "heap_start s" bs n] inv heap_inv_start [OF inv False]
    by (simp add: heap_inv_def)
qed

text \<open>When the pages run out while the heap grows, nothing of the heap changes.\<close>

lemma failed_growth:
  fixes s u :: "'a kheap_scheme" and cs :: string
  assumes inv: "heap_inv bs s" and u: "heap_inv bs u" "heap_start u = heap_start s"
    "free_pfns u = free_pfns (snd (take_pages pmm_alloc_page k s))"
    "\<forall>x. x \<notin> bitmap_cells s \<longrightarrow> mem8 u x = mem8 s x"
    and k: "0 < k" "length (fst (take_pages pmm_alloc_page k s)) \<noteq> k"
  defines "t \<equiv> KHEAP_PRINT cs u"
  shows "heap_inv bs t" "heap_live t = heap_live s" "data_kept s t" "heap_solo s \<Longrightarrow> heap_solo t"
    "free_pfns t = free_pfns u"
proof -
  show t: "heap_inv bs t" using u(1) by (simp add: t_def)
  show live: "heap_live t = heap_live s" using t inv u(2) by (simp add: heap_live_inv t_def)
  show fp: "free_pfns t = free_pfns u" using pool_cong(4) [of t u] by (simp add: t_def)
  show "data_kept s t"
    unfolding data_kept_def
  proof (intro allI impI)
    fix q j x assume q: "heap_live s q = Some j" and x: "x \<in> bytes_at q (unat j)"
    have "x \<in> bytes_at (heap_start s) (extent bs)"
      using live_bounds [of "heap_start s" bs q j] q x inv
      by (auto simp: bytes_at_def heap_inv_def heap_live_inv [OF inv])
    then have "x \<notin> bitmap_cells s" using inv by (simp add: heap_inv_def heap_apart_def)
    then show "mem8 t x = mem8 s x" using u(4) by (simp add: t_def)
  qed
  have "pmm_ok s" using inv by (simp add: heap_inv_def)
  then show "heap_solo t" if "heap_solo s"
    using heap_solo_step [OF that, of t k] u(3) k by (simp add: fp)
qed

text \<open>When they do not, the new block is as good as any free block of the list.\<close>

lemma heap_solo_growth:
  fixes s u :: "'a kheap_scheme"
  assumes inv: "heap_inv bs s" and solo: "heap_solo s"
    and u: "heap_inv (bs @ [(g - 32, True)]) u" "heap_start u = (if bs = [] then hd ps else heap_start s)"
    "free_pfns u = free_pfns (snd (take_pages pmm_alloc_page k s))"
    and k: "ps = fst (take_pages pmm_alloc_page k s)" "4096 * k = unat g" "0 < k"
  shows "heap_solo u"
proof -
  have g: "32 \<le> unat g" using k(2,3) by simp
  have "unat (total_heap_size u) = extent bs + unat g"
    using u(1) g by (simp add: heap_inv_def unat_sub_exact word_le_nat_alt)
  moreover have "bs = [] \<longleftrightarrow> heap_start s = 0" "unat (total_heap_size s) = extent bs" "pmm_ok s"
    using inv by (simp_all add: heap_inv_def)
  ultimately have "heap_end u = (if heap_start s = 0
      then unat (hd (fst (take_pages pmm_alloc_page k s))) else heap_end s) + 4096 * k"
    using u(2) k(1,2) by (auto simp: heap_end_def)
  then show ?thesis using \<open>pmm_ok s\<close> by (intro heap_solo_step [OF solo _ u(3) _ k(3)])
qed

lemma kmalloc_spec:
  fixes s :: "'a kheap_scheme"
  assumes ok: "heap_ok s" and sz: "sz \<noteq> 0" "unat sz < 2 ^ 63"
    and grow: "grows_in_place (align_up sz 8 + 32) s"
  defines "n \<equiv> align_up sz 8"
  defines "g \<equiv> grow_bytes (align_up sz 8 + 32)"
  shows "\<exists>p t. kmalloc sz s = Some (p, t) \<and> heap_ok t \<and> data_kept s t \<and> (heap_solo s \<longrightarrow> heap_solo t) \<and>
    free_pfns t \<in> {free_pfns s, free_pfns (snd (take_pages pmm_alloc_page (unat (g div 4096)) s))} \<and>
    (case bl_fit n (heap_blocks s) of
       Some (xs, k, ys) \<Rightarrow> p \<noteq> 0 \<and> p = addr_after (heap_start s) xs + 32 \<and> heap_blocks t = xs @ bl_cut n k @ ys
     | None \<Rightarrow>
         if length (fst (take_pages pmm_alloc_page (unat (g div 4096)) s)) = unat (g div 4096)
         then p \<noteq> 0 \<and> p = addr_after (heap_start t) (heap_blocks s) + 32 \<and> heap_blocks t = heap_blocks s @ bl_cut n (g - 32)
         else p = 0 \<and> heap_blocks t = heap_blocks s) \<and>
    (if p = 0 then heap_live t = heap_live s \<and> used_heap_size t = used_heap_size s
     else heap_live s p = None \<and> 8 dvd unat p \<and> (\<exists>j\<ge>n. heap_live t = (heap_live s)(p \<mapsto> j)) \<and>
       used_heap_size t = used_heap_size s + (n + 32))"
proof -
  let ?bs = "heap_blocks s" and ?k = "unat (g div 4096)"
  have inv: "heap_inv ?bs s" using ok by (simp add: heap_ok_def)
  note al = align8 [OF sz(2), folded n_def]
  note fit = heap_fit [OF inv, of n]
  show ?thesis
  proof (cases "bl_fit n ?bs")
    case (Some r)
    then obtain xs k ys where r: "bl_fit n ?bs = Some (xs, k, ys)" by (cases r) auto
    have bs: "?bs = xs @ (k, True) # ys" "n \<le> k" using bl_fit_Some [OF r] by simp_all
    note tk = take_block_live [OF inv [unfolded bs(1)] bs(2) al(1)]
    let ?b = "addr_after (heap_start s) xs"
    have b0: "?b \<noteq> 0"
      using addr_after_middle(1) [of "heap_start s" xs k True ys] inv heap_inv_start [OF inv] bs(1)
      by (auto simp: heap_inv_def word_unat_eq_iff)
    have "kmalloc sz s = Some (?b + 32, snd (take_block ?b n s))"
      using sz(1) fit r b0 by (simp add: kmalloc_def n_def [symmetric] Let_def prod_eq_iff)
    moreover note tk(9) heap_solo_cong [OF tk(9)]
    ultimately show ?thesis using tk r by auto
  next
    case None
    have n32: "unat (n + 32) = unat n + 32" using al(3) by (subst unat_add_exact) simp_all
    then have bound: "unat (n + 32) + 4096 \<le> 2 ^ 64" using al(3) by simp
    note ex = expand_heap_spec [OF inv bound grow [folded n_def], folded n_def, folded g_def [folded n_def]]
    have km: "kmalloc sz s = (case expand_heap (n + 32) s of None \<Rightarrow> None
        | Some (b, u) \<Rightarrow> if b = 0 then Some (0, KHEAP_PRINT (line ''[KHEAP] kmalloc failed: out of memory'') u)
            else Some (take_block b n u))"
      using sz(1) fit None by (simp add: kmalloc_def n_def [symmetric] Let_def BLOCK_HEADER_SIZE_def)
    have gb: "unat (n + 32) \<le> unat g" "16384 \<le> unat g" "4096 dvd unat g"
      using grow_bytes_spec [OF bound] by (simp_all add: g_def n_def)
    then have kg: "4096 * ?k = unat g" "0 < ?k" by (simp_all add: unat_div_num)
    show ?thesis
    proof (cases "length (fst (take_pages pmm_alloc_page ?k s)) = ?k")
      case False
      then obtain u where u: "expand_heap (n + 32) s = Some (0, u)" "heap_inv ?bs u"
        "heap_start u = heap_start s" "free_pfns u = free_pfns (snd (take_pages pmm_alloc_page ?k s))"
        "\<forall>x. x \<notin> bitmap_cells s \<longrightarrow> mem8 u x = mem8 s x"
        using ex by auto
      note t = failed_growth [OF inv u(2-5) kg(2) False]
      have "kmalloc sz s = Some (0, KHEAP_PRINT (line ''[KHEAP] kmalloc failed: out of memory'') u)"
        using km u(1) by simp
      moreover have "used_heap_size u = used_heap_size s" using expand_heap_frame [OF u(1)] by simp
      ultimately show ?thesis using False None heap_okI [OF t(1)] t u(4) by auto
    next
      case True
      then obtain u where u: "expand_heap (n + 32) s = Some (addr_after (heap_start u) ?bs, u)"
        "heap_inv (?bs @ [(g - 32, True)]) u" "addr_after (heap_start u) ?bs \<noteq> 0"
        "heap_start u = (if ?bs = [] then hd (fst (take_pages pmm_alloc_page ?k s)) else heap_start s)"
        "\<forall>q j x. live (heap_start s) ?bs q = Some j \<longrightarrow> x \<in> bytes_at q (unat j) \<longrightarrow> mem8 u x = mem8 s x"
        "free_pfns u = free_pfns (snd (take_pages pmm_alloc_page ?k s))"
        using ex by auto
      let ?b = "addr_after (heap_start u) ?bs" and ?t = "snd (take_block (addr_after (heap_start u) ?bs) n u)"
      have "n \<le> g - 32" using n32 gb by (simp add: word_le_nat_alt unat_sub_exact)
      note tk = take_block_live [OF u(2) this al(1)]
      have live_u: "heap_live u = heap_live s"
        unfolding heap_live_inv [OF u(2)] heap_live_def [of s] using u(4) by (cases "?bs = []") simp_all
      have "data_kept s u" using u(5) by (simp add: data_kept_def heap_live_def)
      then have "data_kept s ?t" by (rule data_kept_trans [OF _ tk(3)]) (simp add: live_u)
      moreover have "kmalloc sz s = Some (?b + 32, ?t)" using km u(1,3) by (simp add: prod_eq_iff)
      moreover have "used_heap_size u = used_heap_size s" using expand_heap_frame [OF u(1)] by simp
      moreover have "heap_solo s \<longrightarrow> heap_solo ?t"
        using heap_solo_growth [OF inv _ u(2,4,6) refl kg] heap_solo_cong [OF tk(9)] by simp
      moreover have "free_pfns ?t = free_pfns (snd (take_pages pmm_alloc_page ?k s))" using tk(9) u(6) by simp
      ultimately show ?thesis using True None tk live_u by (auto simp: n_def [symmetric])
    qed
  qed
qed

text \<open>\<open>kfree\<close> of a live pointer releases its block and merges it with its free neighbours.\<close>

lemma kfree_writes:
  fixes s :: "'a kheap_scheme"
  assumes inv: "heap_inv (xs @ (n, False) # ys) s" and p: "p = addr_after (heap_start s) xs + 32"
  shows "kfree p s = s\<lparr>mem8 := mem8 (kfree p s), used_heap_size := used_heap_size s - (n + 32)\<rparr>"
    "blocks_at (mem8 (kfree p s)) 0 (heap_start s) (bl_free xs n ys) 0"
    "\<And>x. x \<notin> bytes_at (heap_start s) (extent (xs @ (n, False) # ys)) \<Longrightarrow> mem8 (kfree p s) x = mem8 s x"
    "\<And>q j x. q \<noteq> p \<Longrightarrow> live (heap_start s) (xs @ (n, False) # ys) q = Some j \<Longrightarrow> x \<in> bytes_at q (unat j) \<Longrightarrow>
       mem8 (kfree p s) x = mem8 s x"
proof -
  let ?a = "heap_start s" and ?bs = "xs @ (n, False) # ys"
  define b where "b = addr_after ?a xs"
  have a: "4096 \<le> unat ?a" using heap_inv_start [OF inv] by simp
  have I: "blocks_at (mem8 s) 0 ?a ?bs 0" "unat ?a + extent ?bs < 2 ^ 64"
    using inv by (simp_all only: heap_inv_def)
  note u = addr_after_middle [OF I(2), folded b_def]
  define s1 where "s1 = s\<lparr>mem8 := put_free b True (mem8 s), used_heap_size := used_heap_size s - (n + 32)\<rparr>"
  have "p \<noteq> 0" "p - 32 = b" using u(2) by (auto simp: p b_def word_unat_eq_iff)
  then have kf: "kfree p s = coalesce_blocks b s1"
    using blocks_at_middle [OF I(1)] by (simp add: kfree_def BLOCK_HEADER_SIZE_def Let_def s1_def b_def)
  then show "kfree p s = s\<lparr>mem8 := mem8 (kfree p s), used_heap_size := used_heap_size s - (n + 32)\<rparr>"
    by (simp add: coalesce_blocks_def s1_def)
  note mark = blocks_mark [OF I, of True, folded b_def]
  have blk1: "blocks_at (mem8 s1) 0 ?a (xs @ (n, True) # ys) 0" using mark by (simp add: s1_def)
  have ext: "unat ?a + extent (xs @ (n, True) # ys) < 2 ^ 64" using I(2) by simp
  note co = coalesce_blocks_spec [OF blk1 ext a, folded b_def, folded kf]
  then show "blocks_at (mem8 (kfree p s)) 0 ?a (bl_free xs n ys) 0" by blast
  have hdr: "mem8 s1 x = mem8 s x" if "x \<notin> bytes_at b 32" for x
    using that mark by (simp add: s1_def bytes_at_def) (meson not_le)
  have inside: "bytes_at b 32 \<subseteq> bytes_at ?a (extent ?bs)"
    using u(1) by (auto simp: bytes_at_def)
  show "mem8 (kfree p s) x = mem8 s x" if "x \<notin> bytes_at ?a (extent ?bs)" for x
  proof -
    have "mem8 (kfree p s) x = mem8 s1 x" using co that by (simp add: heap_writes_def)
    then show ?thesis using that inside hdr by auto
  qed
  show "mem8 (kfree p s) x = mem8 s x"
    if q: "q \<noteq> p" "live ?a ?bs q = Some j" "x \<in> bytes_at q (unat j)" for q j x
  proof -
    have "x \<notin> bytes_at b 32"
      using live_clear [OF q(2) _ I(2) q(3)] q(1) u(1) by (auto simp: bytes_at_def p b_def)
    moreover have "live ?a (xs @ (n, True) # ys) q = Some j"
      using q(1,2) by (auto simp: map_add_def p split: option.splits if_splits)
    then have "mem8 (kfree p s) x = mem8 s1 x" using co q(3) by (simp add: heap_writes_def)
    ultimately show ?thesis using hdr by simp
  qed
qed

lemma kfree_at:
  fixes s :: "'a kheap_scheme"
  assumes ok: "heap_ok s" and bs: "heap_blocks s = xs @ (n, False) # ys" "p = addr_after (heap_start s) xs + 32"
  shows "heap_ok (kfree p s) \<and> heap_blocks (kfree p s) = bl_free xs n ys \<and>
    heap_live (kfree p s) = (heap_live s)(p := None) \<and> heap_solo (kfree p s) = heap_solo s \<and>
    used_heap_size (kfree p s) = used_heap_size s - (n + 32) \<and>
    (\<forall>q j x. q \<noteq> p \<longrightarrow> heap_live s q = Some j \<longrightarrow> x \<in> bytes_at q (unat j) \<longrightarrow> mem8 (kfree p s) x = mem8 s x)"
proof -
  let ?a = "heap_start s"
  have inv: "heap_inv (xs @ (n, False) # ys) s" using ok by (simp only: heap_ok_def bs(1))
  have I: "unat ?a + extent (xs @ (n, False) # ys) < 2 ^ 64" "aligned8 (xs @ (n, False) # ys)"
    "heap_apart s ?a (extent (xs @ (n, False) # ys))"
    using inv by (simp_all only: heap_inv_def)
  define t where "t = kfree p s"
  note w = kfree_writes [OF inv bs(2), folded t_def]
  have t: "bitmap t = bitmap s" "total_pages t = total_pages s" "used_pages t = used_pages s"
    "heap_start t = ?a" "total_heap_size t = total_heap_size s" "used_heap_size t = used_heap_size s - (n + 32)"
    by (subst w(1), simp)+
  have cells: "\<forall>x\<in>bitmap_cells s. mem8 t x = mem8 s x"
    using I(3) w(3) by (auto simp: heap_apart_def)
  note pc = pool_cong [OF t(1-3) cells]
  have fe: "extent (bl_free xs n ys) = extent (xs @ (n, False) # ys)" "aligned8 (bl_free xs n ys)"
    using bl_free_extent_aligned [of xs n ys] I(1,2) by simp_all
  have "extent (bl_free xs n ys) \<noteq> extent []" using fe(1) by simp
  then have ne: "bl_free xs n ys \<noteq> []" by metis
  have st: "?a \<noteq> 0" using heap_inv_start [OF inv] by auto
  have inv_t: "heap_inv (bl_free xs n ys) t"
    unfolding heap_inv_def t pc fe(1)
    using inv w(2) ne st fe(2) I(3) by (simp add: heap_inv_def)
  have "live ?a (bl_free xs n ys) = (live ?a (xs @ (n, False) # ys))(p := None)"
    using live_free [OF I(1)] by (simp only: bs(2))
  then have "heap_live t = (heap_live s)(p := None)"
    unfolding heap_live_inv [OF inv_t] heap_live_def [of s] t bs(1) .
  moreover have "heap_solo t = heap_solo s" by (rule heap_solo_cong [OF pc(4) t(4,5)])
  moreover have "\<forall>q j x. q \<noteq> p \<longrightarrow> heap_live s q = Some j \<longrightarrow> x \<in> bytes_at q (unat j) \<longrightarrow> mem8 t x = mem8 s x"
    unfolding heap_live_def bs(1) using w(4) by blast
  ultimately show ?thesis using heap_okI [OF inv_t] t(6) unfolding t_def by blast
qed

lemma kfree_spec:
  fixes s :: "'a kheap_scheme"
  assumes ok: "heap_ok s" and p: "heap_live s p = Some n"
  shows "heap_ok (kfree p s) \<and> heap_live (kfree p s) = (heap_live s)(p := None) \<and>
    heap_solo (kfree p s) = heap_solo s \<and> used_heap_size (kfree p s) = used_heap_size s - (n + 32) \<and>
    (\<forall>q j x. q \<noteq> p \<longrightarrow> heap_live s q = Some j \<longrightarrow> x \<in> bytes_at q (unat j) \<longrightarrow> mem8 (kfree p s) x = mem8 s x)"
proof -
  obtain xs ys where "heap_blocks s = xs @ (n, False) # ys" "p = addr_after (heap_start s) xs + 32"
    using live_split [OF p [unfolded heap_live_def]] by blast
  from kfree_at [OF ok this] show ?thesis by blast
qed

text \<open>A pointer whose block is marked free is reported, and nothing else happens.\<close>

lemma kfree_double:
  assumes ok: "heap_ok s" and bs: "heap_blocks s = xs @ (n, True) # ys" "p = addr_after (heap_start s) xs + 32"
  shows "kfree p s = KHEAP_PRINT (line ''[KHEAP] Warning: Double free detected!'') s"
proof -
  have inv: "heap_inv (xs @ (n, True) # ys) s" using ok bs(1) by (simp add: heap_ok_def)
  then have ext: "unat (heap_start s) + extent (xs @ (n, True) # ys) < 2 ^ 64"
    and "blocks_at (mem8 s) 0 (heap_start s) (xs @ (n, True) # ys) 0"
    by (simp_all only: heap_inv_def)
  then have "blk_free (read_header (mem8 s) (p - 32))" by (simp add: bs(2))
  moreover have "p \<noteq> 0" using addr_after_middle(2) [OF ext] by (auto simp: bs(2) word_unat_eq_iff)
  ultimately show ?thesis by (simp add: kfree_def BLOCK_HEADER_SIZE_def Let_def)
qed

subsection \<open>The heap as an allocator\<close>

definition kheap_ready :: "u64 \<Rightarrow> 'a kheap_scheme \<Rightarrow> bool" where
  "kheap_ready n s \<longleftrightarrow> unat n < 2 ^ 63 \<and> grows_in_place (align_up n 8 + 32) s"

lemma kmalloc_contract:
  fixes s :: "'a kheap_scheme"
  assumes ok: "heap_ok s" and ready: "kheap_ready n s"
  shows "\<exists>p t. kmalloc n s = Some (p, t) \<and> heap_ok t \<and> data_kept s t \<and>
    (if p = 0 then heap_live t = heap_live s
     else heap_live s p = None \<and> 8 dvd unat p \<and> (\<exists>k\<ge>n. heap_live t = (heap_live s)(p \<mapsto> k)))"
proof (cases "n = 0")
  case True
  then show ?thesis using ok by (simp add: kmalloc_def data_kept_def)
next
  case False
  obtain p t where t: "kmalloc n s = Some (p, t)" "heap_ok t" "data_kept s t"
    "if p = 0 then heap_live t = heap_live s \<and> used_heap_size t = used_heap_size s
     else heap_live s p = None \<and> 8 dvd unat p \<and> (\<exists>k\<ge>align_up n 8. heap_live t = (heap_live s)(p \<mapsto> k)) \<and>
       used_heap_size t = used_heap_size s + (align_up n 8 + 32)"
    using kmalloc_spec [OF ok False] ready unfolding kheap_ready_def by blast
  have "n \<le> align_up n 8" using align8(2) [of n] ready by (simp add: kheap_ready_def word_le_nat_alt)
  then have "(\<exists>k\<ge>align_up n 8. heap_live t = (heap_live s)(p \<mapsto> k)) \<longrightarrow> (\<exists>k\<ge>n. heap_live t = (heap_live s)(p \<mapsto> k))"
    using order_trans by blast
  with t show ?thesis by (cases "p = 0") auto
qed

lemma kmalloc_contract_of:
  assumes "heap_ok s" and "kheap_ready n s" and "kmalloc n s = Some (p, t)"
  shows "heap_ok t" "data_kept s t"
    "if p = 0 then heap_live t = heap_live s
     else heap_live s p = None \<and> 8 dvd unat p \<and> (\<exists>k\<ge>n. heap_live t = (heap_live s)(p \<mapsto> k))"
proof -
  obtain q u where "kmalloc n s = Some (q, u)" "heap_ok u" "data_kept s u"
    "if q = 0 then heap_live u = heap_live s
     else heap_live s q = None \<and> 8 dvd unat q \<and> (\<exists>k\<ge>n. heap_live u = (heap_live s)(q \<mapsto> k))"
    using kmalloc_contract [OF assms(1,2)] by blast
  then show "heap_ok t" "data_kept s t"
    "if p = 0 then heap_live t = heap_live s
     else heap_live s p = None \<and> 8 dvd unat p \<and> (\<exists>k\<ge>n. heap_live t = (heap_live s)(p \<mapsto> k))"
    using assms(3) by auto
qed

interpretation hp: heap_allocator kmalloc kfree heap_live mem8 heap_ok kheap_ready
proof
  fix s t :: "'a kheap_scheme" and n p q k j x :: u64
  assume ok: "heap_ok s"
  show "\<exists>p t. kmalloc n s = Some (p, t)" if "kheap_ready n s"
    using kmalloc_contract [OF ok that] by blast
  show "heap_ok t" if "kheap_ready n s" "kmalloc n s = Some (p, t)"
    by (rule kmalloc_contract_of(1) [OF ok that])
  show "heap_live t = heap_live s" if "kheap_ready n s" "kmalloc n s = Some (0, t)"
    using kmalloc_contract_of(3) [OF ok that] by simp
  show "heap_live s p = None \<and> (\<exists>k\<ge>n. heap_live t = (heap_live s)(p \<mapsto> k))"
    if "kheap_ready n s" "kmalloc n s = Some (p, t)" "p \<noteq> 0"
    using kmalloc_contract_of(3) [OF ok that(1,2)] that(3) by simp
  show "mem8 t x = mem8 s x"
    if "kheap_ready n s" "kmalloc n s = Some (p, t)" "heap_live s q = Some k" "x \<in> bytes_at q (unat k)"
    using kmalloc_contract_of(2) [OF ok that(1,2)] that(3,4) by (simp add: data_kept_def)
  show "heap_ok (kfree p s)" if "heap_live s p \<noteq> None"
    using that kfree_spec [OF ok] by blast
  show "heap_live (kfree p s) = (heap_live s)(p := None)" if "heap_live s p \<noteq> None"
    using that kfree_spec [OF ok] by blast
  show "mem8 (kfree p s) x = mem8 s x"
    if "heap_live s p \<noteq> None" "q \<noteq> p" "heap_live s q = Some k" "x \<in> bytes_at q (unat k)"
    using that kfree_spec [OF ok] by blast
  show "bytes_at p (unat j) \<inter> bytes_at q (unat k) = {}"
    if "heap_live s p = Some j" "heap_live s q = Some k" "p \<noteq> q"
  proof (rule bytes_at_apart)
    have "unat (heap_start s) + extent (heap_blocks s) < 2 ^ 64"
      using ok by (simp add: heap_ok_def heap_inv_def)
    from live_apart [OF that(1) [unfolded heap_live_def] that(2) [unfolded heap_live_def] that(3) this]
    show "unat p + unat j \<le> unat q \<or> unat q + unat k \<le> unat p" by linarith
  qed
qed

subsection \<open>Calls that always return\<close>

lemma kmalloc_solo:
  fixes s :: "'a kheap_scheme"
  assumes ok: "heap_ok s" and solo: "heap_solo s" and n: "unat n < 2 ^ 63"
  shows "kheap_ready n s" "\<exists>p t. kmalloc n s = Some (p, t) \<and> heap_ok t \<and> heap_solo t"
proof -
  have pok: "pmm_ok s" using ok by (simp add: heap_ok_def heap_inv_def)
  note al = align8 [OF n]
  have "unat (align_up n 8 + 32) = unat (align_up n 8) + 32" using al(3) by (subst unat_add_exact) simp_all
  then have "grows_in_place (align_up n 8 + 32) s"
    using al(3) by (intro heap_solo_grows [OF solo pok]) simp
  then show ready: "kheap_ready n s" using n by (simp add: kheap_ready_def)
  show "\<exists>p t. kmalloc n s = Some (p, t) \<and> heap_ok t \<and> heap_solo t"
  proof (cases "n = 0")
    case True
    then show ?thesis using ok solo by (simp add: kmalloc_def)
  next
    case False
    with kmalloc_spec [OF ok False] ready solo show ?thesis unfolding kheap_ready_def by blast
  qed
qed

subsection \<open>Runs of allocations and releases\<close>

datatype heap_event = Malloc u64 u64 | Kfree u64

inductive kheap_run :: "'a kheap_scheme \<Rightarrow> heap_event list \<Rightarrow> 'a kheap_scheme \<Rightarrow> bool" where
  run_nil: "kheap_run s [] s"
| run_malloc: "kmalloc n s = Some (p, t) \<Longrightarrow> kheap_run t es u \<Longrightarrow> kheap_run s (Malloc n p # es) u"
| run_kfree: "heap_live s p \<noteq> None \<Longrightarrow> kheap_run (kfree p s) es u \<Longrightarrow> kheap_run s (Kfree p # es) u"

inductive_simps kheap_run_simps:
  "kheap_run s [] u" "kheap_run s (Malloc n p # es) u" "kheap_run s (Kfree p # es) u"

text \<open>The pointers a client holds after a sequence of calls.\<close>

fun held :: "heap_event list \<Rightarrow> u64 set \<Rightarrow> u64 set" where
  "held [] A = A"
| "held (Malloc n p # es) A = held es (if p = 0 then A else insert p A)"
| "held (Kfree p # es) A = held es (A - {p})"

lemma kheap_run_spec:
  "kheap_run s es u \<Longrightarrow> heap_ok s \<Longrightarrow> heap_solo s \<Longrightarrow> \<forall>n p. Malloc n p \<in> set es \<longrightarrow> unat n < 2 ^ 63 \<Longrightarrow>
    heap_ok u \<and> heap_solo u \<and> dom (heap_live u) = held es (dom (heap_live s)) \<and>
    (\<forall>q k. heap_live s q = Some k \<longrightarrow> Kfree q \<notin> set es \<longrightarrow>
       heap_live u q = Some k \<and> (\<forall>x\<in>bytes_at q (unat k). mem8 u x = mem8 s x))"
proof (induction rule: kheap_run.induct)
  case (run_nil s)
  then show ?case by simp
next
  case (run_malloc n s p t es u)
  note ok = run_malloc.prems(1) and call = run_malloc.hyps(1)
  have small: "unat n < 2 ^ 63" "\<forall>n p. Malloc n p \<in> set es \<longrightarrow> unat n < 2 ^ 63" using run_malloc.prems(3) by auto
  note solo = kmalloc_solo [OF ok run_malloc.prems(2) small(1)]
  note mal = hp.malloc_inv [OF ok solo(1) call] hp.malloc_byte [OF ok solo(1) call]
  have solo_t: "heap_solo t" using solo(2) call by auto
  have live: "dom (heap_live t) = (if p = 0 then dom (heap_live s) else insert p (dom (heap_live s)))"
    and keep: "\<forall>q k. heap_live s q = Some k \<longrightarrow> heap_live t q = Some k"
  proof -
    have A: "heap_live t = heap_live s" if "p = 0"
      using hp.malloc_null [OF ok solo(1)] call that by simp
    have B: "heap_live s p = None \<and> (\<exists>k. heap_live t = (heap_live s)(p \<mapsto> k))" if "p \<noteq> 0"
      using hp.malloc_new [OF ok solo(1) call that] by blast
    show "dom (heap_live t) = (if p = 0 then dom (heap_live s) else insert p (dom (heap_live s)))"
      using A B by (cases "p = 0") auto
    show "\<forall>q k. heap_live s q = Some k \<longrightarrow> heap_live t q = Some k"
      using A B by (cases "p = 0") auto
  qed
  note IH = run_malloc.IH [OF mal(1) solo_t small(2)]
  show ?case
  proof (intro conjI allI impI ballI)
    show "heap_ok u" "heap_solo u" using IH by blast+
    show "dom (heap_live u) = held (Malloc n p # es) (dom (heap_live s))" using IH live by simp
    fix q k assume q: "heap_live s q = Some k" "Kfree q \<notin> set (Malloc n p # es)"
    then have "heap_live t q = Some k" "Kfree q \<notin> set es" using keep by simp_all
    then have u: "heap_live u q = Some k" "\<forall>x\<in>bytes_at q (unat k). mem8 u x = mem8 t x" using IH by blast+
    then show "heap_live u q = Some k" by blast
    show "mem8 u x = mem8 s x" if "x \<in> bytes_at q (unat k)" for x
      using u(2) that mal(2) [OF q(1) that] by simp
  qed
next
  case (run_kfree s p es u)
  note ok = run_kfree.prems(1)
  note fr = hp.release_inv [OF ok run_kfree.hyps(1)] hp.release_live [OF ok run_kfree.hyps(1)]
    hp.release_byte [OF ok run_kfree.hyps(1)]
  have solo: "heap_solo (kfree p s)" using kfree_spec [OF ok] run_kfree.hyps(1) run_kfree.prems(2) by fastforce
  have small: "\<forall>n p. Malloc n p \<in> set es \<longrightarrow> unat n < 2 ^ 63" using run_kfree.prems(3) by simp
  note IH = run_kfree.IH [OF fr(1) solo small]
  show ?case
  proof (intro conjI allI impI ballI)
    show "heap_ok u" "heap_solo u" using IH by blast+
    show "dom (heap_live u) = held (Kfree p # es) (dom (heap_live s))"
      using IH fr(2) by (simp only: held.simps dom_fun_upd if_True simp_thms)
    fix q k assume q: "heap_live s q = Some k" "Kfree q \<notin> set (Kfree p # es)"
    then have "q \<noteq> p" "heap_live (kfree p s) q = Some k" "Kfree q \<notin> set es" using fr(2) by auto
    then have u: "heap_live u q = Some k" "\<forall>x\<in>bytes_at q (unat k). mem8 u x = mem8 (kfree p s) x"
      using IH by blast+
    then show "heap_live u q = Some k" by blast
    show "mem8 u x = mem8 s x" if "x \<in> bytes_at q (unat k)" for x
      using u(2) that fr(3) [OF \<open>q \<noteq> p\<close> q(1) that] by simp
  qed
qed

subsection \<open>Allocations that succeed\<close>

text \<open>A small allocation succeeds as long as four pages are left, and takes no more than these.\<close>

lemma kmalloc_pages:
  fixes s :: "'a kheap_scheme"
  assumes ok: "heap_ok s" "heap_solo s" and n: "n \<noteq> 0" "unat n \<le> 8192" and pages: "4 \<le> card (free_pfns s)"
  shows "\<exists>p t. kmalloc n s = Some (p, t) \<and> p \<noteq> 0 \<and> card (free_pfns s) \<le> card (free_pfns t) + 4"
proof -
  have small: "unat n < 2 ^ 63" using n(2) by simp
  have "unat (align_up n 8) = (unat n + 7) div 8 * 8"
    using align_up_spec [of 3 n] small by simp
  also have "\<dots> \<le> 8192" using n(2) by simp
  finally have "unat (align_up n 8 + 32) \<le> 8224" by (subst unat_add_exact) simp_all
  then have g: "grow_bytes (align_up n 8 + 32) = 16384"
    by (simp add: grow_bytes_def HEAP_EXPAND_SIZE_def word_less_nat_alt)
  have pok: "pmm_ok s" using ok(1) by (simp add: heap_ok_def heap_inv_def)
  note take = heap_solo_take [OF ok(2) pok, of 4]
  have "length (fst (take_pages pmm_alloc_page 4 s)) = 4" using take(1) pages by simp
  then obtain p t where "kmalloc n s = Some (p, t)" "p \<noteq> 0"
    "free_pfns t \<in> {free_pfns s, free_pfns (snd (take_pages pmm_alloc_page 4 s))}"
    using kmalloc_spec [OF ok(1) n(1) small] kmalloc_solo(1) [OF ok small] g
    by (auto simp: kheap_ready_def split: option.splits)
  then show ?thesis using take(2) by auto
qed

subsection \<open>A small machine\<close>

text \<open>Sixteen frames, of which the first three are in use and the second holds the bitmap; no heap yet.\<close>

definition demo_heap :: kheap where
  "demo_heap = paging.extend (pmm.extend
     (demo_pool\<lparr>mem8 := (\<lambda>_. 0)(0x2000 := 7), total_pages := 16\<rparr>)
     \<lparr>cr3 = 0x1000, kernel_pml4 = 0x1000\<rparr>) \<lparr>heap_start = 0, total_heap_size = 0, used_heap_size = 0\<rparr>"

lemma demo_heap_fields [simp]:
  "mem8 demo_heap = (\<lambda>_. 0)(0x2000 := 7)" "bitmap demo_heap = 0x2000" "total_pages demo_heap = 16"
  "used_pages demo_heap = 3" "heap_start demo_heap = 0" "total_heap_size demo_heap = 0"
  "used_heap_size demo_heap = 0"
  by (simp_all add: demo_heap_def pmm.defs paging.defs demo_pool_def)

lemma below_16: "list_all (\<lambda>k. P (word_of_nat k)) [0..<16] \<Longrightarrow> n < 16 \<Longrightarrow> P (n :: u64)"
proof -
  assume P: "list_all (\<lambda>k. P (word_of_nat k)) [0..<16]" and "n < 16"
  then have "unat n < 16" by (simp add: word_less_nat_alt)
  with P have "P (word_of_nat (unat n))" unfolding list_all_iff set_upt by (meson atLeastLessThan_iff zero_le)
  then show ?thesis by simp
qed

lemma demo_heap_test: "n < 16 \<Longrightarrow> bitmap_test n demo_heap \<longleftrightarrow> n < 3"
  by (rule below_16 [where P = "\<lambda>n. bitmap_test n demo_heap \<longleftrightarrow> n < 3"])
    (simp_all add: upt_rec bitmap_test_def bitmap_cell_def bitmap_mask_def)

lemma demo_heap_free: "free_pfns demo_heap = {n. 3 \<le> n \<and> n < 16}"
  by (auto simp: free_pfns_def demo_heap_test not_less)

lemma demo_heap_pool: "pmm_ok demo_heap" "bitmap_apart demo_heap"
proof -
  have "used_pfns demo_heap = {n. n < 3}"
    using order.strict_trans [of _ 3 "16 :: u64"] by (auto simp: used_pfns_def demo_heap_test)
  then show "pmm_ok demo_heap" by (simp add: pmm_ok_def card_below_word)
  have cell: "unat (0x2000 + n div 8 :: u64) div 4096 = 2" if "n < 16" for n :: u64
    by (rule below_16 [OF _ that, where P = "\<lambda>n. unat (0x2000 + n div 8 :: u64) div 4096 = 2"]) (simp add: upt_rec)
  have page: "unat (page_of n) div 4096 = unat n" if "n < 16" for n
    by (rule below_16 [OF _ that, where P = "\<lambda>n. unat (page_of n) div 4096 = unat n"]) (simp add: upt_rec page_of_def PAGE_SIZE_def)
  show "bitmap_apart demo_heap"
    unfolding bitmap_apart_def free_pages_def demo_heap_free
  proof (intro ballI)
    fix p assume "p \<in> page_of ` {n :: u64. 3 \<le> n \<and> n < 16}"
    then obtain n :: u64 where n: "p = page_of n" "3 \<le> n" "n < 16" by blast
    then have "unat p div 4096 \<noteq> 2" using page [OF n(3)] by (simp add: word_le_nat_alt)
    then show "page_bytes p \<inter> bitmap_cells demo_heap = {}"
      using cell by (auto simp: page_bytes_def bitmap_cells_def bitmap_cell_def)
  qed
qed

lemma demo_heap_ok: "heap_ok demo_heap" "heap_blocks demo_heap = []" "heap_solo demo_heap"
proof -
  have "heap_inv [] demo_heap"
    using demo_heap_pool by (simp add: heap_inv_def heap_apart_def bytes_at_def)
  from heap_okI [OF this] show "heap_ok demo_heap" "heap_blocks demo_heap = []" by simp_all
  show "heap_solo demo_heap"
    unfolding heap_solo_def demo_heap_free by (intro exI [of _ 3] exI [of _ 16]) simp
qed

lemma demo_heap_run:
  "\<exists>p t. kmalloc 100 demo_heap = Some (p, t) \<and> p \<noteq> 0 \<and> heap_ok t \<and> heap_solo t \<and>
     heap_blocks t = [(104, False), (16216, True)] \<and> heap_live t p \<noteq> None"
proof -
  have "grows_in_place (align_up 100 8 + 32) demo_heap"
    using kmalloc_solo(1) [OF demo_heap_ok(1,3), of 100] by (simp add: kheap_ready_def)
  moreover have al: "align_up 100 8 = 104" "grow_bytes 136 = 16384"
    by (simp_all add: align_up_def grow_bytes_def HEAP_EXPAND_SIZE_def)
  moreover have "length (fst (take_pages pmm_alloc_page 4 demo_heap)) = 4"
    using interval_take [OF demo_heap_free demo_heap_pool(1), of 4] by (auto split: prod.splits)
  moreover have "bl_cut 104 16352 = [(104, False), (16216, True)]" by (simp add: bl_cut_def)
  ultimately show ?thesis
    using kmalloc_spec [OF demo_heap_ok(1), of 100] demo_heap_ok by fastforce
qed

subsection \<open>Properties\<close>

text \<open>
  Property C8. \<open>kmalloc\<close> is first fit on the list of blocks that the headers in memory describe,
  and returns: the first free block that holds the rounded size is cut, or the heap grows by
  pages that continue it, or the result is null and the list is unchanged. The bytes of the other
  live blocks are not written, the new pointer was not live, is a multiple of 8 and answers for at
  least the rounded size.
\<close>

theorem kmalloc_first_fit:
  assumes "heap_ok s" and "sz \<noteq> 0" and "unat sz < 2 ^ 63" and "grows_in_place (align_up sz 8 + 32) s"
  defines "n \<equiv> align_up sz 8"
  defines "k \<equiv> unat (grow_bytes (align_up sz 8 + 32) div 4096)"
  shows "\<exists>p t. kmalloc sz s = Some (p, t) \<and> heap_ok t \<and> data_kept s t \<and>
    (case bl_fit n (heap_blocks s) of
       Some (xs, j, ys) \<Rightarrow> p \<noteq> 0 \<and> p = addr_after (heap_start s) xs + 32 \<and> heap_blocks t = xs @ bl_cut n j @ ys
     | None \<Rightarrow>
         if length (fst (take_pages pmm_alloc_page k s)) = k
         then p \<noteq> 0 \<and> p = addr_after (heap_start t) (heap_blocks s) + 32 \<and>
           heap_blocks t = heap_blocks s @ bl_cut n (grow_bytes (n + 32) - 32)
         else p = 0 \<and> heap_blocks t = heap_blocks s) \<and>
    (if p = 0 then heap_live t = heap_live s
     else heap_live s p = None \<and> 8 dvd unat p \<and> (\<exists>j\<ge>n. heap_live t = (heap_live s)(p \<mapsto> j)))"
proof -
  obtain p t where r: "kmalloc sz s = Some (p, t)" "heap_ok t" "data_kept s t"
    "case bl_fit n (heap_blocks s) of
       Some (xs, j, ys) \<Rightarrow> p \<noteq> 0 \<and> p = addr_after (heap_start s) xs + 32 \<and> heap_blocks t = xs @ bl_cut n j @ ys
     | None \<Rightarrow>
         if length (fst (take_pages pmm_alloc_page k s)) = k
         then p \<noteq> 0 \<and> p = addr_after (heap_start t) (heap_blocks s) + 32 \<and>
           heap_blocks t = heap_blocks s @ bl_cut n (grow_bytes (n + 32) - 32)
         else p = 0 \<and> heap_blocks t = heap_blocks s"
    "if p = 0 then heap_live t = heap_live s \<and> used_heap_size t = used_heap_size s
     else heap_live s p = None \<and> 8 dvd unat p \<and> (\<exists>j\<ge>n. heap_live t = (heap_live s)(p \<mapsto> j)) \<and>
       used_heap_size t = used_heap_size s + (n + 32)"
    using kmalloc_spec [OF assms(1-4)] unfolding n_def k_def by blast
  then show ?thesis by (intro exI [of _ p] exI [of _ t]) (cases "p = 0"; simp)
qed

theorem kmalloc_first_fit_witness:
  "\<exists>p t. kmalloc 100 demo_heap = Some (p, t) \<and> p \<noteq> 0 \<and> heap_blocks t = [(104, False), (16216, True)]"
proof -
  have "grows_in_place (align_up 100 8 + 32) demo_heap"
    using kmalloc_solo(1) [OF demo_heap_ok(1,3), of 100] by (simp add: kheap_ready_def)
  moreover have "align_up 100 8 = 104" "grow_bytes 136 = 16384"
    by (simp_all add: align_up_def grow_bytes_def HEAP_EXPAND_SIZE_def)
  moreover have "length (fst (take_pages pmm_alloc_page 4 demo_heap)) = 4"
    using interval_take [OF demo_heap_free demo_heap_pool(1), of 4] by (auto split: prod.splits)
  moreover have "bl_cut 104 16352 = [(104, False), (16216, True)]" by (simp add: bl_cut_def)
  ultimately show ?thesis
    using kmalloc_first_fit [OF demo_heap_ok(1), of 100] demo_heap_ok by fastforce
qed

text \<open>
  Property C5. Take a well-formed heap that has its pool to itself (\<open>heap_solo\<close>: the free frames are
  an interval above frame 0, and where there are any, the heap ends at the first, so that it grows in
  place).
  In every run of \<open>kmalloc\<close> calls for less than \<open>2 ^ 63\<close> bytes and \<open>kfree\<close> calls that release live
  pointers, and nothing else, the heap stays well formed and the pool its own, the live pointers are
  the ones handed out and not yet released, two live blocks never share a byte, and what a client
  wrote into a block it keeps is still there. Where the free frames have a hole this fails: the first
  allocation across it yields a block over memory nobody owns (\<open>Kheap_Limits\<close>).
\<close>

theorem kheap_run_safe:
  assumes "heap_ok s" and "heap_solo s" and "kheap_run s es u"
    and "\<forall>n p. Malloc n p \<in> set es \<longrightarrow> unat n < 2 ^ 63"
  shows "heap_ok u \<and> heap_solo u \<and> dom (heap_live u) = held es (dom (heap_live s)) \<and>
    (\<forall>p q j k. heap_live u p = Some j \<longrightarrow> heap_live u q = Some k \<longrightarrow> p \<noteq> q \<longrightarrow>
       bytes_at p (unat j) \<inter> bytes_at q (unat k) = {}) \<and>
    (\<forall>q k. heap_live s q = Some k \<longrightarrow> Kfree q \<notin> set es \<longrightarrow>
       heap_live u q = Some k \<and> (\<forall>x\<in>bytes_at q (unat k). mem8 u x = mem8 s x))"
  using kheap_run_spec [OF assms(3,1,2,4)] hp.live_disjoint [of u] by simp

theorem kheap_run_safe_witness:
  "\<exists>p t u. kmalloc 100 demo_heap = Some (p, t) \<and> kheap_run demo_heap [Malloc 100 p, Kfree p] u \<and>
     heap_ok u \<and> dom (heap_live u) = {}"
proof -
  obtain p t where t: "kmalloc 100 demo_heap = Some (p, t)" "p \<noteq> 0" "heap_live t p \<noteq> None"
    using demo_heap_run by blast
  have run: "kheap_run demo_heap [Malloc 100 p, Kfree p] (kfree p t)"
    using t by (auto simp: kheap_run_simps)
  have small: "\<forall>n q. Malloc n q \<in> set [Malloc 100 p, Kfree p] \<longrightarrow> unat n < 2 ^ 63" by simp
  have "heap_live demo_heap = Map.empty" by (simp add: heap_live_def demo_heap_ok(2))
  with kheap_run_safe [OF demo_heap_ok(1,3) run small] t(1,2) run show ?thesis by auto
qed

text \<open>
  Property C19. \<open>kfree\<close> of a pointer \<open>kmalloc\<close> returned releases its block and merges it with the
  free neighbours on both sides; no other live block is touched. A pointer whose block is marked
  free already is reported and changes nothing but the screen.
\<close>

theorem kfree_merges:
  assumes "heap_ok s" and "heap_blocks s = xs @ (n, f) # ys" and "p = addr_after (heap_start s) xs + 32"
  shows "if f then kfree p s = KHEAP_PRINT (line ''[KHEAP] Warning: Double free detected!'') s
    else heap_ok (kfree p s) \<and> heap_blocks (kfree p s) = bl_free xs n ys \<and>
      heap_live (kfree p s) = (heap_live s)(p := None) \<and>
      (\<forall>q j x. q \<noteq> p \<longrightarrow> heap_live s q = Some j \<longrightarrow> x \<in> bytes_at q (unat j) \<longrightarrow> mem8 (kfree p s) x = mem8 s x)"
proof (cases f)
  case True
  with kfree_double [OF assms(1) _ assms(3)] assms(2) show ?thesis by simp
next
  case False
  with kfree_at [OF assms(1) _ assms(3)] assms(2) show ?thesis by simp
qed

theorem kfree_merges_witness:
  "\<exists>p t. kmalloc 100 demo_heap = Some (p, t) \<and> heap_blocks (kfree (heap_start t + 32) t) = [(16352, True)]"
proof -
  obtain p t where t: "kmalloc 100 demo_heap = Some (p, t)" "heap_ok t" "heap_blocks t = [(104, False), (16216, True)]"
    using demo_heap_run by blast
  then show ?thesis
    using kfree_merges [OF t(2), of "[]" 104 False "[(16216, True)]"] by (auto simp: bl_free_def)
qed

text \<open>
  Property C30. As long as nobody else takes pages from a pool whose free frames are an interval,
  every call of \<open>kmalloc\<close> for less than half the address space returns, and this stays so.
\<close>

theorem kmalloc_always_returns:
  assumes "heap_ok s" and "heap_solo s" and "unat n < 2 ^ 63"
  shows "\<exists>p t. kmalloc n s = Some (p, t) \<and> heap_ok t \<and> heap_solo t \<and> (p \<noteq> 0 \<longrightarrow> heap_solo (kfree p t))"
proof -
  obtain p t where t: "kmalloc n s = Some (p, t)" "heap_ok t" "heap_solo t"
    using kmalloc_solo(2) [OF assms] by blast
  have "heap_live t p \<noteq> None" if "p \<noteq> 0"
    using hp.malloc_new [OF assms(1) kmalloc_solo(1) [OF assms] t(1) that] by auto
  then have "heap_solo (kfree p t)" if "p \<noteq> 0" using kfree_spec [OF t(2)] t(3) that by fastforce
  with t show ?thesis by blast
qed

theorem kmalloc_always_returns_witness:
  "\<exists>p t. kmalloc 4096 demo_heap = Some (p, t) \<and> heap_solo t"
  using kmalloc_always_returns [OF demo_heap_ok(1,3), of 4096] by auto

text \<open>
  Releasing what \<open>kmalloc\<close> returned leaves the same pointers live. The statistics do
  not come back: \<open>kmalloc\<close> counts the size asked for, \<open>kfree\<close> the size of the block, so the
  count of used bytes falls by the difference, below zero if it has to.
\<close>

theorem kmalloc_kfree_roundtrip:
  assumes "heap_ok s" and "kheap_ready n s" and "kmalloc n s = Some (p, t)" and "p \<noteq> 0"
  shows "heap_ok (kfree p t) \<and> heap_live (kfree p t) = heap_live s \<and>
    (\<exists>k\<ge>align_up n 8. heap_live t p = Some k \<and>
       used_heap_size (kfree p t) = used_heap_size s - (k - align_up n 8))"
proof -
  have n0: "n \<noteq> 0" using assms(3,4) by (auto simp: kmalloc_def)
  obtain k where k: "k \<ge> align_up n 8" "heap_live t = (heap_live s)(p \<mapsto> k)"
    "used_heap_size t = used_heap_size s + (align_up n 8 + 32)"
    using kmalloc_spec [OF assms(1) n0] assms(2-4) unfolding kheap_ready_def by fastforce
  have ok: "heap_ok t" by (rule hp.malloc_inv [OF assms(1-3)])
  have live: "heap_live t p = Some k" by (simp add: k(2))
  note kf = kfree_spec [OF ok live]
  have "used_heap_size (kfree p t) = used_heap_size s - (k - align_up n 8)"
    using kf k(3) by (simp add: algebra_simps)
  then show ?thesis using k(1) live hp.malloc_release [OF assms] kf by blast
qed

theorem kmalloc_kfree_roundtrip_witness:
  "\<exists>p t. kmalloc 100 demo_heap = Some (p, t) \<and> heap_live (kfree p t) = heap_live demo_heap"
proof -
  obtain p t where t: "kmalloc 100 demo_heap = Some (p, t)" "p \<noteq> 0"
    using demo_heap_run by blast
  have "kheap_ready 100 demo_heap" by (rule kmalloc_solo(1) [OF demo_heap_ok(1,3)]) simp
  from kmalloc_kfree_roundtrip [OF demo_heap_ok(1) this t] t show ?thesis by blast
qed

text \<open>The initialisation leaves one free block of four pages, or reports the failure.\<close>

lemma kheap_init_spec:
  fixes s :: "'a kheap_scheme"
  assumes inv: "heap_inv [] s" and grow: "grows_in_place HEAP_EXPAND_SIZE (KHEAP_PRINT (line ''[KHEAP] Initializing kernel heap...'') s)"
  shows "\<exists>t. kheap_init s = Some t \<and> heap_ok t \<and> heap_live t = Map.empty \<and>
    (heap_start t \<noteq> 0 \<longrightarrow> heap_blocks t = [(16352, True)]) \<and>
    (heap_solo s \<longrightarrow> heap_solo t \<and> card (free_pfns s) \<le> card (free_pfns t) + 4)"
proof -
  define u where "u = KHEAP_PRINT (line ''[KHEAP] Initializing kernel heap...'') s"
  have iu: "heap_inv [] u" and fu: "free_pfns u = free_pfns s" and su: "heap_solo u = heap_solo s"
    using inv pool_cong(4) [of u s] heap_solo_cong [of u s] by (simp_all add: u_def)
  have gb: "grow_bytes HEAP_EXPAND_SIZE - 32 = 16352" "unat (grow_bytes HEAP_EXPAND_SIZE div 4096) = 4"
    by (simp_all add: grow_bytes_def HEAP_EXPAND_SIZE_def)
  have bound: "unat HEAP_EXPAND_SIZE + 4096 \<le> 2 ^ 64" by (simp add: HEAP_EXPAND_SIZE_def)
  note ex = expand_heap_spec [OF iu bound grow [folded u_def], unfolded gb]
  have pok: "pmm_ok u" and start: "heap_start u = 0" "total_heap_size u = 0"
    using iu by (simp_all add: heap_inv_def word_unat_eq_iff)
  have ki: "kheap_init s = (case expand_heap HEAP_EXPAND_SIZE u of None \<Rightarrow> None
         | Some (start, s) \<Rightarrow>
             if heap_start (s\<lparr>heap_start := start\<rparr>) = 0
             then Some (KHEAP_PRINT (line ''[KHEAP] Failed to initialize heap!'') (s\<lparr>heap_start := start\<rparr>))
             else Some (KHEAP_PRINT (line '' bytes'')
               (vga_print_hex (total_heap_size (KHEAP_PRINT ''[KHEAP] Heap initialized with '' (s\<lparr>heap_start := start\<rparr>)))
                 (KHEAP_PRINT ''[KHEAP] Heap initialized with '' (s\<lparr>heap_start := start\<rparr>)))))"
    unfolding kheap_init_def u_def Let_def ..
  have pages: "heap_solo v \<and> card (free_pfns s) \<le> card (free_pfns v) + 4"
    if "heap_solo s" "free_pfns v = free_pfns (snd (take_pages pmm_alloc_page 4 u))"
      "length (fst (take_pages pmm_alloc_page 4 u)) = 4 \<Longrightarrow>
        heap_end v = unat (hd (fst (take_pages pmm_alloc_page 4 u))) + 16384" for v :: "'a kheap_scheme"
    using heap_solo_step [of u v 4] heap_solo_take(2) [of u 4] that start by (simp add: su pok fu)
  show ?thesis
  proof (cases "length (fst (take_pages pmm_alloc_page 4 u)) = 4")
    case True
    then obtain t where t: "expand_heap HEAP_EXPAND_SIZE u = Some (heap_start t, t)" "heap_inv [(16352, True)] t"
      "heap_start t = hd (fst (take_pages pmm_alloc_page 4 u))"
      "free_pfns t = free_pfns (snd (take_pages pmm_alloc_page 4 u))"
      using ex by auto
    then have "heap_start t \<noteq> 0" by (simp add: heap_inv_def)
    define v where "v = KHEAP_PRINT (line '' bytes'')
      (vga_print_hex (total_heap_size (KHEAP_PRINT ''[KHEAP] Heap initialized with '' t))
        (KHEAP_PRINT ''[KHEAP] Heap initialized with '' t))"
    have same: "t\<lparr>heap_start := heap_start t\<rparr> = t" by simp
    have "kheap_init s = Some v" using t(1) \<open>heap_start t \<noteq> 0\<close> by (simp add: ki same v_def Let_def)
    moreover have iv: "heap_inv [(16352, True)] v" using t(2) by (simp add: v_def)
    moreover have "heap_live v = Map.empty" by (simp add: heap_live_inv [OF iv])
    moreover have "heap_end v = unat (hd (fst (take_pages pmm_alloc_page 4 u))) + 16384"
      using t(2,3) by (simp add: heap_end_def v_def heap_inv_def)
    moreover have "free_pfns v = free_pfns t" using pool_cong(4) [of v t] by (simp add: v_def)
    ultimately show ?thesis using heap_okI [OF iv] pages [of v] t(4) by auto
  next
    case False
    then obtain t where t: "expand_heap HEAP_EXPAND_SIZE u = Some (0, t)" "heap_inv [] t"
      "free_pfns t = free_pfns (snd (take_pages pmm_alloc_page 4 u))"
      using ex by auto
    define v where "v = KHEAP_PRINT (line ''[KHEAP] Failed to initialize heap!'') (t\<lparr>heap_start := 0\<rparr>)"
    have "heap_start t = 0" using t(2) by (simp add: heap_inv_def)
    then have same: "t\<lparr>heap_start := 0\<rparr> = t" by simp
    have "kheap_init s = Some v" using t(1) by (simp add: ki v_def Let_def)
    moreover have iv: "heap_inv [] v" using t(2) by (simp only: v_def same heap_inv_print)
    moreover have "heap_live v = Map.empty" by (simp add: heap_live_inv [OF iv])
    moreover have "heap_start v = 0" by (simp add: v_def)
    moreover have "free_pfns v = free_pfns t" unfolding v_def same by (rule pool_cong(4)) simp_all
    ultimately show ?thesis using heap_okI [OF iv] pages [of v] t(3) False by auto
  qed
qed

text \<open>The statistics count the free and the used blocks of a well-formed heap, and return.\<close>

lemma kheap_print_stats_returns:
  fixes s :: "'a kheap_scheme"
  assumes "heap_ok s"
  shows "count_blocks (heap_start s) 0 0 (mem8 s) =
      Some (word_of_nat (length (filter snd (heap_blocks s))), word_of_nat (length (filter (\<lambda>b. \<not> snd b) (heap_blocks s))))"
    "\<exists>t. kheap_print_stats s = Some t"
proof -
  have inv: "heap_inv (heap_blocks s) s" using assms by (simp add: heap_ok_def)
  show count: "count_blocks (heap_start s) 0 0 (mem8 s) =
      Some (word_of_nat (length (filter snd (heap_blocks s))), word_of_nat (length (filter (\<lambda>b. \<not> snd b) (heap_blocks s))))"
  proof (cases "heap_blocks s = []")
    case True
    then show ?thesis using inv by (simp add: heap_inv_def count_blocks.simps)
  next
    case False
    then show ?thesis
      using count_blocks_spec [of "mem8 s" 0 "heap_start s" "heap_blocks s" 0 0] inv heap_inv_start [OF inv False]
      by (simp add: heap_inv_def)
  qed
  then show "\<exists>t. kheap_print_stats s = Some t" by (simp add: kheap_print_stats_def Let_def)
qed

end
