(* ===== verification/Scheduler.thy ===== *)
theory Scheduler
  imports Kheap_Correct Numfmt Queue Interrupts
begin

text \<open>
  The scheduler (\<open>kernel/proc/process.c\<close>, \<open>process.h\<close>): task control blocks, the doubly linked
  queue of ready processes, the timer tick with preemption, and the cooperative switch. Control
  blocks are reached by address; they lie in blocks of the kernel heap of their own
  (\<open>Process\<close>), so a store from address to control block stands for their bytes.
\<close>

definition MAX_PROCESSES :: u32 where "MAX_PROCESSES = 256"
definition TIME_SLICE_TICKS :: u32 where "TIME_SLICE_TICKS = 20"

datatype process_state_t =
  PROCESS_READY | PROCESS_RUNNING | PROCESS_WAITING | PROCESS_SLEEPING | PROCESS_TERMINATED

text \<open>The enumeration has the order of its C constants.\<close>

fun process_state_code :: "process_state_t \<Rightarrow> nat" where
  "process_state_code PROCESS_READY = 0"
| "process_state_code PROCESS_RUNNING = 1"
| "process_state_code PROCESS_WAITING = 2"
| "process_state_code PROCESS_SLEEPING = 3"
| "process_state_code PROCESS_TERMINATED = 4"

lemma process_state_code_inj [simp]: "process_state_code x = process_state_code y \<longleftrightarrow> x = y"
  by (cases x; cases y) simp_all

instantiation process_state_t :: linorder
begin

definition less_eq_process_state_t :: "process_state_t \<Rightarrow> process_state_t \<Rightarrow> bool" where
  "x \<le> y \<longleftrightarrow> process_state_code x \<le> process_state_code y"

definition less_process_state_t :: "process_state_t \<Rightarrow> process_state_t \<Rightarrow> bool" where
  "x < y \<longleftrightarrow> process_state_code x < process_state_code y"

instance
  by standard (auto simp: less_eq_process_state_t_def less_process_state_t_def)

end

record registers_t =
  rax :: u64  rbx :: u64  rcx :: u64  rdx :: u64
  rsi :: u64  rdi :: u64  rbp :: u64  rsp :: u64
  r8 :: u64  r9 :: u64  r10 :: u64  r11 :: u64
  r12 :: u64  r13 :: u64  r14 :: u64  r15 :: u64
  rip :: u64
  rflags :: u64

record process_t =
  p_pid :: u32
  p_parent_pid :: u32
  p_name :: char_array
  p_state :: process_state_t
  p_registers :: registers_t
  p_page_table :: u64
  p_kernel_stack :: u64
  p_kernel_stack_top :: u64
  p_user_stack :: u64
  p_priority :: u32
  p_time_slice_remaining :: u32
  p_total_ticks :: u32
  p_wake_time :: u32
  p_next :: u64
  p_prev :: u64

record scheduler_t =
  ready_queue_head :: u64
  ready_queue_tail :: u64
  current_process :: u64
  next_pid :: u32
  process_count :: u32
  total_ticks :: u32

record sched = kheap +
  proc :: "u64 \<Rightarrow> process_t"
  scheduler :: scheduler_t
  need_reschedule :: u8

text \<open>Assignments through a process pointer and to the scheduler's fields.\<close>

definition upd_proc :: "u64 \<Rightarrow> (process_t \<Rightarrow> process_t) \<Rightarrow> 'a sched_scheme \<Rightarrow> 'a sched_scheme" where
  "upd_proc p f s = s\<lparr>proc := (proc s)(p := f (proc s p))\<rparr>"

definition upd_sched :: "(scheduler_t \<Rightarrow> scheduler_t) \<Rightarrow> 'a sched_scheme \<Rightarrow> 'a sched_scheme" where
  "upd_sched f s = s\<lparr>scheduler := f (scheduler s)\<rparr>"

lemma upd_fields [simp]:
  "proc (upd_proc p f s) = (proc s)(p := f (proc s p))" "scheduler (upd_proc p f s) = scheduler s"
  "proc (upd_sched g s) = proc s" "scheduler (upd_sched g s) = g (scheduler s)"
  by (simp_all add: upd_proc_def upd_sched_def)

subsection \<open>The ready queue\<close>

definition scheduler_init :: "'a sched_scheme \<Rightarrow> 'a sched_scheme" where
  "scheduler_init s =
     (let s = upd_sched (\<lambda>c. c\<lparr>ready_queue_head := 0, ready_queue_tail := 0, current_process := 0,
                next_pid := 1, process_count := 0, total_ticks := 0\<rparr>) s;
          s = vga_print ''[SCHED] Scheduler initialized'' VGA_COLOR_LIGHT_GREEN s
      in vga_print (line '''') VGA_COLOR_WHITE s)"

definition queue_enqueue :: "u64 \<Rightarrow> 'a sched_scheme \<Rightarrow> 'a sched_scheme" where
  "queue_enqueue p s =
     (if p = 0 then s
      else
        (let s = upd_proc p (\<lambda>t. t\<lparr>p_next := 0\<rparr>) s
         in if ready_queue_tail (scheduler s) = 0 then
              (let s = upd_sched (\<lambda>c. c\<lparr>ready_queue_head := p, ready_queue_tail := p\<rparr>) s
               in upd_proc p (\<lambda>t. t\<lparr>p_prev := 0\<rparr>) s)
            else
              (let s = upd_proc p (\<lambda>t. t\<lparr>p_prev := ready_queue_tail (scheduler s)\<rparr>) s;
                   s = upd_proc (ready_queue_tail (scheduler s)) (\<lambda>t. t\<lparr>p_next := p\<rparr>) s
               in upd_sched (\<lambda>c. c\<lparr>ready_queue_tail := p\<rparr>) s)))"

definition queue_dequeue :: "'a sched_scheme \<Rightarrow> u64 \<times> 'a sched_scheme" where
  "queue_dequeue s =
     (if ready_queue_head (scheduler s) = 0 then (0, s)
      else
        (let p = ready_queue_head (scheduler s);
             s = upd_sched (\<lambda>c. c\<lparr>ready_queue_head := p_next (proc s p)\<rparr>) s;
             s = (if ready_queue_head (scheduler s) = 0
                  then upd_sched (\<lambda>c. c\<lparr>ready_queue_tail := 0\<rparr>) s
                  else upd_proc (ready_queue_head (scheduler s)) (\<lambda>t. t\<lparr>p_prev := 0\<rparr>) s);
             s = upd_proc p (\<lambda>t. t\<lparr>p_next := 0\<rparr>) s;
             s = upd_proc p (\<lambda>t. t\<lparr>p_prev := 0\<rparr>) s
         in (p, s)))"

subsection \<open>Choosing the next process\<close>

definition get_current_process :: "'a sched_scheme \<Rightarrow> u64" where
  "get_current_process s = current_process (scheduler s)"

definition scheduler_pick_next :: "'a sched_scheme \<Rightarrow> u64 \<times> 'a sched_scheme" where
  "scheduler_pick_next s =
     (let cur = current_process (scheduler s)
      in if cur \<noteq> 0 \<and> p_state (proc s cur) = PROCESS_RUNNING \<and> 0 < p_time_slice_remaining (proc s cur)
         then (cur, s)
         else
           (let s = (if cur \<noteq> 0
                     then queue_enqueue cur (upd_proc cur (\<lambda>t. t\<lparr>p_state := PROCESS_READY\<rparr>) s)
                     else s);
                (next', s) = queue_dequeue s
            in if next' = 0 then
                 (let s = vga_print ''[ERR] No processes ready!'' VGA_COLOR_LIGHT_RED s;
                      s = vga_print (line '''') VGA_COLOR_WHITE s
                  in (0, s))
               else
                 (let s = upd_proc next' (\<lambda>t. t\<lparr>p_state := PROCESS_RUNNING\<rparr>) s;
                      s = upd_proc next' (\<lambda>t. t\<lparr>p_time_slice_remaining := TIME_SLICE_TICKS\<rparr>) s
                  in (next', s))))"

definition scheduler_tick :: "'a sched_scheme \<Rightarrow> 'a sched_scheme" where
  "scheduler_tick s =
     (let s = upd_sched (\<lambda>c. c\<lparr>total_ticks := total_ticks c + 1\<rparr>) s;
          cur = current_process (scheduler s)
      in if cur \<noteq> 0 then
           (let s = upd_proc cur (\<lambda>t. t\<lparr>p_total_ticks := p_total_ticks t + 1\<rparr>) s;
                s = upd_proc cur (\<lambda>t. t\<lparr>p_time_slice_remaining := p_time_slice_remaining t - 1\<rparr>) s
            in if p_time_slice_remaining (proc s cur) = 0 then s\<lparr>need_reschedule := 1\<rparr> else s)
         else s)"

subsection \<open>The timer interrupt\<close>

text \<open>The name is printed up to its terminator, as far as the array goes.\<close>

definition proc_name :: "process_t \<Rightarrow> string" where
  "proc_name t = c_str 32 (p_name t)"

definition percent :: "u32 \<Rightarrow> u32 \<Rightarrow> u32" where
  "percent ticks elapsed = (ticks * 100) div elapsed"

definition summary_entry :: "u64 \<Rightarrow> 'a sched_scheme \<Rightarrow> 'a sched_scheme" where
  "summary_entry p s =
     (let pct = percent (p_total_ticks (proc s p)) (total_ticks (scheduler s));
          s = vga_print (proc_name (proc s p)) VGA_COLOR_BROWN s;
          s = vga_print '':'' VGA_COLOR_BROWN s;
          s = vga_print_int (p_total_ticks (proc s p)) VGA_COLOR_BROWN s;
          s = vga_print '' ('' VGA_COLOR_DARK_GREY s;
          s = vga_print_int pct VGA_COLOR_DARK_GREY s
      in vga_print ''%)'' VGA_COLOR_DARK_GREY s)"

partial_function (option) summary_queue :: "u64 \<Rightarrow> 'a sched_scheme \<Rightarrow> 'a sched_scheme option" where
  "summary_queue it s =
     (if it = 0 then Some s
      else
        (let s = summary_entry it s;
             s = (if p_next (proc s it) \<noteq> 0 then vga_print '' | '' VGA_COLOR_DARK_GREY s else s)
         in summary_queue (p_next (proc s it)) s))"

definition print_summary :: "'a sched_scheme \<Rightarrow> 'a sched_scheme option" where
  "print_summary s =
     (let s = vga_print (line '''' @ ''[SUM T='') VGA_COLOR_LIGHT_CYAN s;
          s = vga_print_int (total_ticks (scheduler s)) VGA_COLOR_LIGHT_CYAN s;
          s = vga_print ''] '' VGA_COLOR_LIGHT_CYAN s;
          cur = current_process (scheduler s);
          s = (if cur \<noteq> 0 then vga_print '' | '' VGA_COLOR_DARK_GREY (summary_entry cur s) else s)
      in map_option (vga_print (line '''') VGA_COLOR_WHITE) (summary_queue (ready_queue_head (scheduler s)) s))"

definition preempt_handler :: "u64 \<Rightarrow> 'a sched_scheme \<Rightarrow> (u64 \<times> 'a sched_scheme) option" where
  "preempt_handler stack_ptr s =
     (let s = outb 0x20 0x20 s;
          s = upd_sched (\<lambda>c. c\<lparr>total_ticks := total_ticks c + 1\<rparr>) s
      in case (if total_ticks (scheduler s) mod 200 = 0 \<and> 0 < total_ticks (scheduler s)
               then print_summary s else Some s) of
           None \<Rightarrow> None
         | Some s \<Rightarrow>
             (let cur = current_process (scheduler s)
              in if cur = 0 then Some (stack_ptr, s)
                 else
                   (let s = upd_proc cur (\<lambda>t. t\<lparr>p_total_ticks := p_total_ticks t + 1\<rparr>) s;
                        s = upd_proc cur (\<lambda>t. t\<lparr>p_time_slice_remaining := p_time_slice_remaining t - 1\<rparr>) s
                    in if p_time_slice_remaining (proc s cur) \<le> 0 then
                         (let s = upd_proc cur (\<lambda>t. t\<lparr>p_registers := p_registers t\<lparr>rsp := stack_ptr\<rparr>\<rparr>) s;
                              s = upd_proc cur (\<lambda>t. t\<lparr>p_state := PROCESS_READY\<rparr>) s;
                              s = queue_enqueue cur s;
                              (next', s) = queue_dequeue s
                          in if next' \<noteq> 0 then
                               (let s = upd_proc next' (\<lambda>t. t\<lparr>p_state := PROCESS_RUNNING\<rparr>) s;
                                    s = upd_proc next' (\<lambda>t. t\<lparr>p_time_slice_remaining := TIME_SLICE_TICKS\<rparr>) s;
                                    s = upd_sched (\<lambda>c. c\<lparr>current_process := next'\<rparr>) s
                                in Some (rsp (p_registers (proc s next')), s))
                             else
                               (let s = upd_proc cur (\<lambda>t. t\<lparr>p_time_slice_remaining := TIME_SLICE_TICKS\<rparr>) s;
                                    s = upd_proc cur (\<lambda>t. t\<lparr>p_state := PROCESS_RUNNING\<rparr>) s;
                                    s = upd_sched (\<lambda>c. c\<lparr>current_process := cur\<rparr>) s
                                in Some (stack_ptr, s)))
                       else Some (stack_ptr, s))))"

subsection \<open>Starting and yielding\<close>

text \<open>
  \<open>context_switch_asm\<close> saves the registers into the first control block and loads them from the
  second. Here it is a parameter, \<open>switch current next\<close>; the theory \<open>Cpu\<close> models its assembly code,
  and \<open>call_context_switch\<close> is the argument to put in.
\<close>

definition scheduler_start ::
  "(u64 \<Rightarrow> u64 \<Rightarrow> 'a sched_scheme \<Rightarrow> 'a sched_scheme) \<Rightarrow> 'a sched_scheme \<Rightarrow> 'a sched_scheme" where
  "scheduler_start switch s =
     (let (first, s) = queue_dequeue s
      in if first = 0 then
           (let s = vga_print ''[ERR] No processes to run!'' VGA_COLOR_LIGHT_RED s
            in vga_print (line '''') VGA_COLOR_WHITE s)
         else
           (let s = vga_print ''[*] Starting first process: '' VGA_COLOR_LIGHT_GREEN s;
                s = vga_print (proc_name (proc s first)) VGA_COLOR_LIGHT_GREEN s;
                s = vga_print (line (line '''')) VGA_COLOR_WHITE s;
                s = upd_proc first (\<lambda>t. t\<lparr>p_state := PROCESS_RUNNING\<rparr>) s;
                s = upd_sched (\<lambda>c. c\<lparr>current_process := first\<rparr>) s;
                s = switch 0 first s;
                s = vga_print ''[ERR] Context switch returned!'' VGA_COLOR_LIGHT_RED s
            in vga_print (line '''') VGA_COLOR_WHITE s))"

definition do_schedule ::
  "(u64 \<Rightarrow> u64 \<Rightarrow> 'a sched_scheme \<Rightarrow> 'a sched_scheme) \<Rightarrow> 'a sched_scheme \<Rightarrow> 'a sched_scheme" where
  "do_schedule switch s =
     (let cur = current_process (scheduler s);
          (next', s) = scheduler_pick_next s
      in if next' = 0 then s
         else if next' = cur then s
         else (let s = upd_sched (\<lambda>c. c\<lparr>current_process := next'\<rparr>) s in switch cur next' s))"

definition scheduler_print_stats :: "'a sched_scheme \<Rightarrow> 'a sched_scheme" where
  "scheduler_print_stats s =
     (let g = VGA_COLOR_LIGHT_GREEN;
          s = vga_print (line '''' @ line ''[SCHED] Scheduler Statistics:'') g s;
          s = vga_print ''  Total Ticks: '' g s;
          s = vga_print_int (total_ticks (scheduler s)) g s;
          s = vga_print (line '''' @ ''  Processes: '') g s;
          s = vga_print_int (process_count (scheduler s)) g s;
          s = vga_print (line '''' @ ''  Current: '') g s;
          cur = current_process (scheduler s);
          s = (if cur \<noteq> 0 then
                 (let s = vga_print (proc_name (proc s cur)) g s;
                      s = vga_print '' (PID '' g s;
                      s = vga_print_int (p_pid (proc s cur)) g s;
                      s = vga_print '', CPU ticks: '' g s;
                      s = vga_print_int (p_total_ticks (proc s cur)) g s
                  in vga_print '')'' g s)
               else vga_print ''None'' g s)
      in vga_print (line '''') VGA_COLOR_WHITE s)"

end
