(* ===== verification/Ready_Queue.thy ===== *)
theory Ready_Queue
  imports Scheduler
begin

text \<open>
  The ready queue as a list of process addresses: what \<open>queue_enqueue\<close> and \<open>queue_dequeue\<close> do to
  it, and the queue as an instance of the first in, first out contract.
\<close>

text \<open>A doubly linked list: \<open>p\<close> is the predecessor of its first element.\<close>

fun dll :: "(u64 \<Rightarrow> process_t) \<Rightarrow> u64 \<Rightarrow> u64 list \<Rightarrow> bool" where
  "dll h p [] \<longleftrightarrow> True"
| "dll h p (x # xs) \<longleftrightarrow>
     x \<noteq> 0 \<and> p_prev (h x) = p \<and> p_next (h x) = (if xs = [] then 0 else hd xs) \<and> dll h x xs"

fun_cases dll_ConsE: "dll h p (x # xs)"

definition queue_wf :: "u64 list \<Rightarrow> 'a sched_scheme \<Rightarrow> bool" where
  "queue_wf qs s \<longleftrightarrow> dll (proc s) 0 qs \<and> distinct qs \<and>
     ready_queue_head (scheduler s) = (if qs = [] then 0 else hd qs) \<and>
     ready_queue_tail (scheduler s) = (if qs = [] then 0 else last qs)"

text \<open>The list as a walk along the \<open>next\<close> pointers finds it.\<close>

partial_function (option) queue_walk :: "u64 \<Rightarrow> (u64 \<Rightarrow> process_t) \<Rightarrow> u64 list option" where
  "queue_walk it h =
     (if it = 0 then Some [] else Option.bind (queue_walk (p_next (h it)) h) (\<lambda>xs. Some (it # xs)))"

definition ready_queue :: "'a sched_scheme \<Rightarrow> u64 list" where
  "ready_queue s = (case queue_walk (ready_queue_head (scheduler s)) (proc s) of None \<Rightarrow> [] | Some qs \<Rightarrow> qs)"

definition queue_ok :: "'a sched_scheme \<Rightarrow> bool" where
  "queue_ok s \<longleftrightarrow> queue_wf (ready_queue s) s"

subsection \<open>Lists and updates\<close>

lemma dll_nonzero: "dll h p xs \<Longrightarrow> 0 \<notin> set xs"
  by (induction xs arbitrary: p) auto

lemma dll_upd_other [simp]: "y \<notin> set xs \<Longrightarrow> dll (h(y := t)) p xs = dll h p xs"
  by (induction xs arbitrary: p) auto

lemma dll_upd_same_links:
  "p_next t = p_next (h y) \<Longrightarrow> p_prev t = p_prev (h y) \<Longrightarrow> dll (h(y := t)) p xs = dll h p xs"
  by (induction xs arbitrary: p) auto

lemma dll_walk: "dll h p xs \<Longrightarrow> queue_walk (if xs = [] then 0 else hd xs) h = Some xs"
proof (induction xs arbitrary: p)
  case Nil
  then show ?case by (simp add: queue_walk.simps)
next
  case (Cons x xs)
  then show ?case by (subst queue_walk.simps) auto
qed

lemma queue_wf_ready: "queue_wf qs s \<Longrightarrow> ready_queue s = qs"
  using dll_walk [of "proc s" 0 qs] by (simp add: queue_wf_def ready_queue_def)

lemma queue_okI: "queue_wf qs s \<Longrightarrow> queue_ok s \<and> ready_queue s = qs"
  by (simp add: queue_ok_def queue_wf_ready)

lemma dll_snoc:
  assumes "dll h p xs" and "xs \<noteq> []" and "distinct xs" and "x \<noteq> 0" and "x \<notin> set xs"
    and "p_next t = x" and "p_prev t = p_prev (h (last xs))" and "p_prev u = last xs" and "p_next u = 0"
  shows "dll (h(x := u, last xs := t)) p (xs @ [x])"
  using assms(1-3,5,7,8)
proof (induction xs arbitrary: p)
  case Nil
  then show ?case by simp
next
  case (Cons y ys)
  show ?case
  proof (cases "ys = []")
    case True
    then show ?thesis using Cons.prems assms(4,6,9) by auto
  next
    case False
    then have l: "last ys \<noteq> y" using Cons.prems(3) by auto
    have IH: "dll (h(x := u, last ys := t)) y (ys @ [x])"
      by (rule Cons.IH) (use Cons.prems False in auto)
    moreover have "(h(x := u, last ys := t)) y = h y" using l Cons.prems(4) by auto
    ultimately show ?thesis using Cons.prems False by (simp del: fun_upd_apply)
  qed
qed

text \<open>A control block without its links: what the queue operations leave alone.\<close>

definition unlinked :: "process_t \<Rightarrow> process_t" where
  "unlinked t = t\<lparr>p_next := 0, p_prev := 0\<rparr>"

lemma unlinked_upd [simp]:
  "unlinked (t\<lparr>p_next := x\<rparr>) = unlinked t" "unlinked (t\<lparr>p_prev := x\<rparr>) = unlinked t"
  by (simp_all add: unlinked_def)

lemma unlinked_field:
  assumes "unlinked t = unlinked u" and "\<And>v x y. f (v\<lparr>p_next := x, p_prev := y\<rparr>) = f v"
  shows "f t = f u"
  using assms unfolding unlinked_def by metis

lemma unlinked_fields:
  assumes "unlinked t = unlinked u"
  shows "p_pid t = p_pid u" "p_name t = p_name u" "p_state t = p_state u" "p_registers t = p_registers u"
    "p_kernel_stack t = p_kernel_stack u" "p_kernel_stack_top t = p_kernel_stack_top u"
    "p_user_stack t = p_user_stack u" "p_time_slice_remaining t = p_time_slice_remaining u"
    "p_total_ticks t = p_total_ticks u" "p_parent_pid t = p_parent_pid u" "p_priority t = p_priority u"
  by (rule unlinked_field [OF assms]; simp)+

text \<open>\<open>queue_frame s t\<close>: only links and the two ends of the queue differ.\<close>

definition queue_frame :: "'a sched_scheme \<Rightarrow> 'a sched_scheme \<Rightarrow> bool" where
  "queue_frame s t \<longleftrightarrow> (\<forall>x. unlinked (proc t x) = unlinked (proc s x)) \<and>
     (\<exists>h a b. t = s\<lparr>proc := h, scheduler := (scheduler s)\<lparr>ready_queue_head := a, ready_queue_tail := b\<rparr>\<rparr>)"

lemma queue_frame_refl [simp, intro]: "queue_frame s s"
proof -
  have "s = s\<lparr>proc := proc s, scheduler := (scheduler s)\<lparr>ready_queue_head := ready_queue_head (scheduler s),
    ready_queue_tail := ready_queue_tail (scheduler s)\<rparr>\<rparr>" by simp
  then show ?thesis unfolding queue_frame_def by blast
qed

lemma queue_frame_trans: "queue_frame s t \<Longrightarrow> queue_frame t u \<Longrightarrow> queue_frame s u"
  unfolding queue_frame_def by fastforce

lemma queue_frame_links:
  "(\<And>t. unlinked (f t) = unlinked t) \<Longrightarrow> queue_frame s (upd_proc p f s)"
  "queue_frame s (upd_sched (\<lambda>c. c\<lparr>ready_queue_head := a\<rparr>) s)"
  "queue_frame s (upd_sched (\<lambda>c. c\<lparr>ready_queue_tail := b\<rparr>) s)"
proof -
  assume "\<And>t. unlinked (f t) = unlinked t"
  then have "\<forall>x. unlinked (proc (upd_proc p f s) x) = unlinked (proc s x)" by simp
  moreover have "upd_proc p f s = s\<lparr>proc := proc (upd_proc p f s),
    scheduler := (scheduler s)\<lparr>ready_queue_head := ready_queue_head (scheduler s),
      ready_queue_tail := ready_queue_tail (scheduler s)\<rparr>\<rparr>" by (simp add: upd_proc_def)
  ultimately show "queue_frame s (upd_proc p f s)" unfolding queue_frame_def by blast
next
  have "upd_sched (\<lambda>c. c\<lparr>ready_queue_head := a\<rparr>) s = s\<lparr>proc := proc s,
    scheduler := (scheduler s)\<lparr>ready_queue_head := a, ready_queue_tail := ready_queue_tail (scheduler s)\<rparr>\<rparr>"
    by (simp add: upd_sched_def)
  then show "queue_frame s (upd_sched (\<lambda>c. c\<lparr>ready_queue_head := a\<rparr>) s)"
    unfolding queue_frame_def by (metis upd_fields(3))
  have "upd_sched (\<lambda>c. c\<lparr>ready_queue_tail := b\<rparr>) s = s\<lparr>proc := proc s,
    scheduler := (scheduler s)\<lparr>ready_queue_head := ready_queue_head (scheduler s), ready_queue_tail := b\<rparr>\<rparr>"
    by (simp add: upd_sched_def)
  then show "queue_frame s (upd_sched (\<lambda>c. c\<lparr>ready_queue_tail := b\<rparr>) s)"
    unfolding queue_frame_def by (metis upd_fields(3))
qed


lemma queue_frame_step:
  "queue_frame s t \<Longrightarrow> (\<And>t. unlinked (f t) = unlinked t) \<Longrightarrow> queue_frame s (upd_proc p f t)"
  "queue_frame s t \<Longrightarrow> queue_frame s (upd_sched (\<lambda>c. c\<lparr>ready_queue_head := a\<rparr>) t)"
  "queue_frame s t \<Longrightarrow> queue_frame s (upd_sched (\<lambda>c. c\<lparr>ready_queue_tail := b\<rparr>) t)"
  "queue_frame s t \<Longrightarrow> queue_frame s (upd_sched (\<lambda>c. c\<lparr>ready_queue_head := a, ready_queue_tail := b\<rparr>) t)"
proof -
  assume st: "queue_frame s t"
  show "queue_frame s (upd_proc p f t)" if "\<And>t. unlinked (f t) = unlinked t"
    using st queue_frame_links(1) [OF that] by (rule queue_frame_trans)
  show head: "queue_frame s (upd_sched (\<lambda>c. c\<lparr>ready_queue_head := a\<rparr>) t)"
    using st queue_frame_links(2) by (rule queue_frame_trans)
  show "queue_frame s (upd_sched (\<lambda>c. c\<lparr>ready_queue_tail := b\<rparr>) t)"
    using st queue_frame_links(3) by (rule queue_frame_trans)
  have "upd_sched (\<lambda>c. c\<lparr>ready_queue_head := a, ready_queue_tail := b\<rparr>) t =
    upd_sched (\<lambda>c. c\<lparr>ready_queue_tail := b\<rparr>) (upd_sched (\<lambda>c. c\<lparr>ready_queue_head := a\<rparr>) t)"
    by (simp add: upd_sched_def)
  then show "queue_frame s (upd_sched (\<lambda>c. c\<lparr>ready_queue_head := a, ready_queue_tail := b\<rparr>) t)"
    using queue_frame_trans [OF head queue_frame_links(3)] by metis
qed

lemma queue_enqueue_frame: "queue_frame s (queue_enqueue p s)"
  by (cases "p = 0"; cases "ready_queue_tail (scheduler s) = 0")
    (simp_all add: queue_enqueue_def Let_def queue_frame_step)

lemma queue_dequeue_frame: "queue_frame s (snd (queue_dequeue s))"
  by (simp add: queue_dequeue_def Let_def queue_frame_step)

lemma queue_enqueue_wf:
  assumes "queue_wf qs s" and "x \<noteq> 0" and "x \<notin> set qs"
  shows "queue_wf (qs @ [x]) (queue_enqueue x s)"
proof (cases "qs = []")
  case True
  then show ?thesis using assms by (simp add: queue_wf_def queue_enqueue_def)
next
  case False
  have q: "dll (proc s) 0 qs" "distinct qs" "ready_queue_head (scheduler s) = hd qs"
    "ready_queue_tail (scheduler s) = last qs" "last qs \<in> set qs"
    using assms(1) False by (simp_all add: queue_wf_def)
  have l: "last qs \<noteq> 0" "last qs \<noteq> x" using q(5) dll_nonzero [OF q(1)] assms(3) by auto
  let ?u = "(proc s x)\<lparr>p_next := 0, p_prev := last qs\<rparr>" and ?t = "(proc s (last qs))\<lparr>p_next := x\<rparr>"
  have "proc (queue_enqueue x s) = (proc s)(x := ?u, last qs := ?t)"
    using assms(2) q(4) l by (simp add: queue_enqueue_def Let_def fun_upd_twist)
  moreover have "dll ((proc s)(x := ?u, last qs := ?t)) 0 (qs @ [x])"
    by (rule dll_snoc [OF q(1) False q(2) assms(2,3)]) simp_all
  ultimately show ?thesis
    using assms q l False by (simp add: queue_wf_def queue_enqueue_def Let_def)
qed

lemma queue_dequeue_wf:
  assumes "queue_wf (x # qs) s"
  shows "fst (queue_dequeue s) = x" "queue_wf qs (snd (queue_dequeue s))"
proof -
  have q: "x \<noteq> 0" "p_next (proc s x) = (if qs = [] then 0 else hd qs)" "dll (proc s) x qs"
    "x \<notin> set qs" "distinct qs" "ready_queue_head (scheduler s) = x"
    using assms by (simp_all add: queue_wf_def)
  show "fst (queue_dequeue s) = x" using q by (simp add: queue_dequeue_def Let_def)
  show "queue_wf qs (snd (queue_dequeue s))"
  proof (cases qs)
    case Nil
    then show ?thesis using q by (simp add: queue_wf_def queue_dequeue_def Let_def)
  next
    case (Cons y ys)
    then show ?thesis
      using q assms by (auto simp: queue_wf_def queue_dequeue_def Let_def)
  qed
qed

lemma queue_dequeue_empty: "queue_wf [] s \<Longrightarrow> queue_dequeue s = (0, s)"
  by (simp add: queue_wf_def queue_dequeue_def)

text \<open>The scheduler's queue meets the contract that the keyboard's buffer meets, without a bound.\<close>

interpretation rq: fifo queue_enqueue queue_dequeue ready_queue "\<lambda>x s. x \<noteq> 0 \<and> x \<notin> set (ready_queue s)" queue_ok
proof
  fix s :: "'a sched_scheme" and x xs
  assume "queue_ok s"
  then have wf: "queue_wf (ready_queue s) s" by (simp add: queue_ok_def)
  show "queue_ok (queue_enqueue x s)" "ready_queue (queue_enqueue x s) = ready_queue s @ [x]"
    if "x \<noteq> 0 \<and> x \<notin> set (ready_queue s)"
    using queue_okI [OF queue_enqueue_wf [OF wf]] that by simp_all
  show "queue_ok (snd (queue_dequeue s))" "fst (queue_dequeue s) = x" "ready_queue (snd (queue_dequeue s)) = xs"
    if "ready_queue s = x # xs"
    using queue_dequeue_wf [OF wf [unfolded that]] queue_okI by blast+
qed

end
