(* ===== verification/Preemption.thy ===== *)
theory Preemption
  imports Ready_Queue
begin

text \<open>
  The timer tick (\<open>preempt_handler\<close>) and the cooperative yield (\<open>do_schedule\<close>) against the list
  of processes: who runs, for how long, in which order, and on which stack.
\<close>

subsection \<open>Screen output leaves the scheduler alone\<close>

lemma vga_frame_sched:
  assumes "vga_frame s (t :: 'a sched_scheme)"
  shows "proc t = proc s" "scheduler t = scheduler s" "need_reschedule t = need_reschedule s"
    "timer_ticks t = timer_ticks s" "hw_trace t = hw_trace s" "mem8 t = mem8 s"
    "heap_start t = heap_start s" "total_heap_size t = total_heap_size s" "used_heap_size t = used_heap_size s"
    "bitmap t = bitmap s" "total_pages t = total_pages s" "used_pages t = used_pages s"
proof -
  from assms have "t = s\<lparr>vga_buffer := vga_buffer t, cursor_x := cursor_x t, cursor_y := cursor_y t\<rparr>"
    by (simp add: vga_frame_iff)
  then obtain b x y where "t = s\<lparr>vga_buffer := b, cursor_x := x, cursor_y := y\<rparr>" by metis
  then show "proc t = proc s" "scheduler t = scheduler s" "need_reschedule t = need_reschedule s"
    "timer_ticks t = timer_ticks s" "hw_trace t = hw_trace s" "mem8 t = mem8 s"
    "heap_start t = heap_start s" "total_heap_size t = total_heap_size s" "used_heap_size t = used_heap_size s"
    "bitmap t = bitmap s" "total_pages t = total_pages s" "used_pages t = used_pages s"
    by simp_all
qed

lemma summary_entry_frame [simp]: "vga_frame s (summary_entry p s)"
  unfolding summary_entry_def Let_def by (simp add: vga_frame_trans)

lemmas summary_entry_same [simp] = vga_frame_sched [OF summary_entry_frame]
lemmas sched_print_same [simp] = vga_frame_sched [OF vga_print_frame] vga_frame_sched [OF vga_print_int_frame]

lemma summary_queue_returns:
  "dll (proc s) p xs \<Longrightarrow> \<exists>t. summary_queue (if xs = [] then 0 else hd xs) s = Some t \<and> vga_frame s t"
proof (induction xs arbitrary: p s)
  case Nil
  then show ?case by (simp add: summary_queue.simps)
next
  case (Cons x xs)
  let ?s1 = "summary_entry x s"
  let ?s2 = "if p_next (proc ?s1 x) \<noteq> 0 then vga_print '' | '' VGA_COLOR_DARK_GREY ?s1 else ?s1"
  have f: "vga_frame s ?s2" by simp
  note same = vga_frame_sched [OF f]
  have d: "dll (proc ?s2) x xs" and n: "p_next (proc ?s2 x) = (if xs = [] then 0 else hd xs)"
    using Cons.prems unfolding same by simp_all
  from Cons.IH [OF d] obtain t where t: "summary_queue (p_next (proc ?s2 x)) ?s2 = Some t" "vga_frame ?s2 t"
    unfolding n [symmetric] by blast
  have "summary_queue x s = summary_queue (p_next (proc ?s2 x)) ?s2"
    using Cons.prems by (subst summary_queue.simps) (simp add: Let_def)
  with t vga_frame_trans [OF f t(2)] show ?case by simp
qed

lemma print_summary_returns:
  assumes "queue_wf qs s"
  shows "\<exists>t. print_summary s = Some t \<and> vga_frame s t"
proof -
  define r where "r = vga_print (line '''' @ ''[SUM T='') VGA_COLOR_LIGHT_CYAN s"
  define u where "u = vga_print ''] '' VGA_COLOR_LIGHT_CYAN (vga_print_int (total_ticks (scheduler r)) VGA_COLOR_LIGHT_CYAN r)"
  define v where "v = (if current_process (scheduler u) \<noteq> 0
    then vga_print '' | '' VGA_COLOR_DARK_GREY (summary_entry (current_process (scheduler u)) u) else u)"
  have u: "vga_frame s u" by (simp add: u_def r_def)
  have "vga_frame u v" by (simp add: v_def)
  with u have v: "vga_frame s v" by (rule vga_frame_trans)
  note same = vga_frame_sched [OF v]
  have "dll (proc v) 0 qs" "ready_queue_head (scheduler v) = (if qs = [] then 0 else hd qs)"
    using assms by (simp_all add: queue_wf_def same)
  then obtain w where w: "summary_queue (ready_queue_head (scheduler v)) v = Some w" "vga_frame v w"
    using summary_queue_returns [of v 0 qs] by (simp only:) blast
  have "print_summary s = Some (vga_print (line '''') VGA_COLOR_WHITE w)"
    unfolding print_summary_def Let_def r_def [symmetric] u_def [symmetric] v_def [symmetric] w(1) by simp
  moreover have "vga_frame s (vga_print (line '''') VGA_COLOR_WHITE w)"
    using vga_frame_trans [OF v w(2)] by simp
  ultimately show ?thesis by blast
qed


subsection \<open>The processes as a list\<close>

text \<open>
  \<open>sched_at l s\<close>: the running process and the ready ones in queue order are the list \<open>l\<close>.
\<close>

definition sched_at :: "u64 list \<Rightarrow> 'a sched_scheme \<Rightarrow> bool" where
  "sched_at l s \<longleftrightarrow> l \<noteq> [] \<and> distinct l \<and> hd l \<noteq> 0 \<and> queue_wf (tl l) s \<and> current_process (scheduler s) = hd l \<and>
     p_state (proc s (hd l)) = PROCESS_RUNNING \<and> (\<forall>x\<in>set (tl l). p_state (proc s x) = PROCESS_READY)"

text \<open>The same, whatever state the first process is in.\<close>

definition queue_at :: "u64 list \<Rightarrow> 'a sched_scheme \<Rightarrow> bool" where
  "queue_at l s \<longleftrightarrow> l \<noteq> [] \<and> distinct l \<and> hd l \<noteq> 0 \<and> queue_wf (tl l) s \<and> current_process (scheduler s) = hd l \<and>
     (\<forall>x\<in>set (tl l). p_state (proc s x) = PROCESS_READY)"

lemma sched_at_queue: "sched_at l s \<Longrightarrow> queue_at l s"
  by (simp add: sched_at_def queue_at_def)

text \<open>The rest of the state may differ, up to screen, trace and tick counts.\<close>

lemma queue_wf_cong:
  assumes "\<And>x. p_next (proc t x) = p_next (proc s x)" and "\<And>x. p_prev (proc t x) = p_prev (proc s x)"
    and "ready_queue_head (scheduler t) = ready_queue_head (scheduler s)"
    and "ready_queue_tail (scheduler t) = ready_queue_tail (scheduler s)"
  shows "queue_wf qs t = queue_wf qs s"
proof -
  have "dll (proc t) p xs = dll (proc s) p xs" for p xs
    by (induction xs arbitrary: p) (simp_all add: assms(1,2))
  then show ?thesis by (simp add: queue_wf_def assms(3,4))
qed

text \<open>The part of the handler that every tick runs: acknowledgement, counting, summary.\<close>

definition tick_entry :: "'a sched_scheme \<Rightarrow> 'a sched_scheme option" where
  "tick_entry s =
     (let s = outb 0x20 0x20 s;
          s = upd_sched (\<lambda>c. c\<lparr>total_ticks := total_ticks c + 1\<rparr>) s
      in if total_ticks (scheduler s) mod 200 = 0 \<and> 0 < total_ticks (scheduler s)
         then print_summary s else Some s)"

lemma outb_sched [simp]:
  "proc (outb p v s) = proc s" "scheduler (outb p v s) = scheduler s" "timer_ticks (outb p v s) = timer_ticks s"
  by (simp_all add: machine_defs)

lemma tick_entry_returns:
  assumes "queue_wf qs s"
  shows "\<exists>t. tick_entry s = Some t \<and> proc t = proc s \<and> timer_ticks t = timer_ticks s \<and>
    scheduler t = (scheduler s)\<lparr>total_ticks := total_ticks (scheduler s) + 1\<rparr> \<and>
    hw_trace t = hw_trace s @ [Out 0x20 0x20]"
proof -
  define u where "u = upd_sched (\<lambda>c. c\<lparr>total_ticks := total_ticks c + 1\<rparr>) (outb 0x20 0x20 s)"
  have "proc u = proc s" "timer_ticks u = timer_ticks s"
    "scheduler u = (scheduler s)\<lparr>total_ticks := total_ticks (scheduler s) + 1\<rparr>"
    "hw_trace u = hw_trace s @ [Out 0x20 0x20]"
    by (simp_all add: u_def upd_sched_def machine_defs)
  note u = this
  have "queue_wf qs u" using assms by (subst queue_wf_cong [where s = s]) (simp_all add: u)
  then obtain w where w: "print_summary u = Some w" "vga_frame u w" using print_summary_returns by blast
  note same = vga_frame_sched [OF w(2)]
  show ?thesis
    using w(1) u same by (simp add: tick_entry_def u_def [symmetric] Let_def)
qed

text \<open>What the rest of the handler does with the running process.\<close>

definition tick_switch :: "u64 \<Rightarrow> 'a sched_scheme \<Rightarrow> u64 \<times> 'a sched_scheme" where
  "tick_switch sp s =
     (let cur = current_process (scheduler s);
          s = upd_proc cur (\<lambda>t. t\<lparr>p_registers := p_registers t\<lparr>rsp := sp\<rparr>\<rparr>) s;
          s = upd_proc cur (\<lambda>t. t\<lparr>p_state := PROCESS_READY\<rparr>) s;
          (nx, s) = queue_dequeue (queue_enqueue cur s);
          s = upd_proc nx (\<lambda>t. t\<lparr>p_state := PROCESS_RUNNING\<rparr>) s;
          s = upd_proc nx (\<lambda>t. t\<lparr>p_time_slice_remaining := TIME_SLICE_TICKS\<rparr>) s;
          s = upd_sched (\<lambda>c. c\<lparr>current_process := nx\<rparr>) s
      in (rsp (p_registers (proc s nx)), s))"

lemma u32_le_0: "(x :: u32) \<le> 0 \<longleftrightarrow> x = 0"
  by (simp add: word_le_nat_alt unat_eq_0)

text \<open>A tick of a running process: count it, and switch when the slice is used up.\<close>

definition count_tick :: "'a sched_scheme \<Rightarrow> 'a sched_scheme" where
  "count_tick s =
     (let cur = current_process (scheduler s);
          s = upd_proc cur (\<lambda>t. t\<lparr>p_total_ticks := p_total_ticks t + 1\<rparr>) s
      in upd_proc cur (\<lambda>t. t\<lparr>p_time_slice_remaining := p_time_slice_remaining t - 1\<rparr>) s)"

lemma preempt_handler_steps:
  assumes "tick_entry s = Some u"
  shows "preempt_handler sp s =
    (let cur = current_process (scheduler u)
     in if cur = 0 then Some (sp, u)
        else if p_time_slice_remaining (proc u cur) - 1 \<noteq> 0 then Some (sp, count_tick u)
        else if fst (queue_dequeue (queue_enqueue cur
            (upd_proc cur (\<lambda>t. t\<lparr>p_state := PROCESS_READY\<rparr>)
              (upd_proc cur (\<lambda>t. t\<lparr>p_registers := p_registers t\<lparr>rsp := sp\<rparr>\<rparr>) (count_tick u))))) \<noteq> 0
        then Some (tick_switch sp (count_tick u))
        else preempt_handler sp s)"
  using assms
  by (auto simp: preempt_handler_def tick_entry_def tick_switch_def count_tick_def Let_def u32_le_0
      split: prod.splits)

lemma queue_frame_fields:
  assumes "queue_frame s t"
  shows "p_state (proc t x) = p_state (proc s x)" "p_registers (proc t x) = p_registers (proc s x)"
    "p_total_ticks (proc t x) = p_total_ticks (proc s x)"
    "p_time_slice_remaining (proc t x) = p_time_slice_remaining (proc s x)"
    "current_process (scheduler t) = current_process (scheduler s)"
    "total_ticks (scheduler t) = total_ticks (scheduler s)" "timer_ticks t = timer_ticks s"
    "process_count (scheduler t) = process_count (scheduler s)" "hw_trace t = hw_trace s"
proof -
  have "unlinked (proc t x) = unlinked (proc s x)" using assms by (simp add: queue_frame_def)
  from unlinked_fields [OF this] show "p_state (proc t x) = p_state (proc s x)"
    "p_registers (proc t x) = p_registers (proc s x)" "p_total_ticks (proc t x) = p_total_ticks (proc s x)"
    "p_time_slice_remaining (proc t x) = p_time_slice_remaining (proc s x)" by simp_all
  obtain h a b where "t = s\<lparr>proc := h, scheduler := (scheduler s)\<lparr>ready_queue_head := a, ready_queue_tail := b\<rparr>\<rparr>"
    using assms unfolding queue_frame_def by blast
  then show "current_process (scheduler t) = current_process (scheduler s)"
    "total_ticks (scheduler t) = total_ticks (scheduler s)" "timer_ticks t = timer_ticks s"
    "process_count (scheduler t) = process_count (scheduler s)" "hw_trace t = hw_trace s" by simp_all
qed

text \<open>Putting the running process at the end of the queue and taking the head.\<close>

lemma requeue:
  assumes "queue_wf xs s" and "x \<noteq> 0" and "x \<notin> set xs"
  defines "q \<equiv> queue_dequeue (queue_enqueue x s)"
  shows "fst q = hd (xs @ [x])" "queue_wf (tl (xs @ [x])) (snd q)" "queue_frame s (snd q)"
    "hd (xs @ [x]) \<noteq> 0"
proof -
  have wf: "queue_wf (xs @ [x]) (queue_enqueue x s)" by (rule queue_enqueue_wf [OF assms(1-3)])
  obtain y ys where y: "xs @ [x] = y # ys" by (cases "xs @ [x]") auto
  note dq = queue_dequeue_wf [OF wf [unfolded y]]
  show "fst q = hd (xs @ [x])" "queue_wf (tl (xs @ [x])) (snd q)" using dq by (simp_all add: q_def y)
  show "queue_frame s (snd q)"
    unfolding q_def using queue_enqueue_frame queue_dequeue_frame by (rule queue_frame_trans)
  have "dll (proc (queue_enqueue x s)) 0 (y # ys)" using wf y by (simp add: queue_wf_def)
  then show "hd (xs @ [x]) \<noteq> 0" by (simp add: y)
qed

lemma tick_switch_spec:
  fixes s :: "'a sched_scheme" and sp :: u64
  assumes at: "queue_at (x # xs) s"
  defines "y \<equiv> hd (xs @ [x])" and "t \<equiv> snd (tick_switch sp s)"
  shows "sched_at (xs @ [x]) t" "p_time_slice_remaining (proc t y) = 20"
    "fst (tick_switch sp s) = (if xs = [] then sp else rsp (p_registers (proc s y)))"
    "\<And>z. p_registers (proc t z) = (if z = x then (p_registers (proc s x))\<lparr>rsp := sp\<rparr> else p_registers (proc s z))"
    "\<And>z. p_total_ticks (proc t z) = p_total_ticks (proc s z)"
    "timer_ticks t = timer_ticks s" "total_ticks (scheduler t) = total_ticks (scheduler s)" "hw_trace t = hw_trace s"
    "\<And>z. z \<noteq> y \<Longrightarrow> p_time_slice_remaining (proc t z) = p_time_slice_remaining (proc s z)"
    "fst (queue_dequeue (queue_enqueue x (upd_proc x (\<lambda>t. t\<lparr>p_state := PROCESS_READY\<rparr>)
       (upd_proc x (\<lambda>t. t\<lparr>p_registers := p_registers t\<lparr>rsp := sp\<rparr>\<rparr>) s)))) \<noteq> 0"
proof -
  have cur: "current_process (scheduler s) = x" and x: "x \<noteq> 0" "x \<notin> set xs" "distinct xs"
    and wf: "queue_wf xs s" and ready: "\<forall>z\<in>set xs. p_state (proc s z) = PROCESS_READY"
    using at by (simp_all add: queue_at_def)
  define u where "u = upd_proc x (\<lambda>t. t\<lparr>p_state := PROCESS_READY\<rparr>)
       (upd_proc x (\<lambda>t. t\<lparr>p_registers := p_registers t\<lparr>rsp := sp\<rparr>\<rparr>) s)"
  have u: "proc u = (proc s)(x := (proc s x)\<lparr>p_registers := (p_registers (proc s x))\<lparr>rsp := sp\<rparr>, p_state := PROCESS_READY\<rparr>)"
    "scheduler u = scheduler s" "timer_ticks u = timer_ticks s" "hw_trace u = hw_trace s"
    by (simp_all add: u_def upd_proc_def)
  have wfu: "queue_wf xs u" using wf by (subst queue_wf_cong [where s = s]) (simp_all add: u)
  define v where "v = snd (queue_dequeue (queue_enqueue x u))"
  note rq = requeue [OF wfu x(1,2), folded y_def, folded v_def]
  note fr = queue_frame_fields [OF rq(3)]
  show "fst (queue_dequeue (queue_enqueue x (upd_proc x (\<lambda>t. t\<lparr>p_state := PROCESS_READY\<rparr>)
       (upd_proc x (\<lambda>t. t\<lparr>p_registers := p_registers t\<lparr>rsp := sp\<rparr>\<rparr>) s)))) \<noteq> 0"
    using rq(1,4) by (simp add: u_def)
  have ts: "tick_switch sp s = (rsp (p_registers (proc v y)),
      upd_sched (\<lambda>c. c\<lparr>current_process := y\<rparr>) (upd_proc y (\<lambda>t. t\<lparr>p_time_slice_remaining := TIME_SLICE_TICKS\<rparr>)
        (upd_proc y (\<lambda>t. t\<lparr>p_state := PROCESS_RUNNING\<rparr>) v)))"
    using rq(1) by (simp add: tick_switch_def cur u_def [symmetric] v_def Let_def split_def)
  have t: "proc t = (proc v)(y := (proc v y)\<lparr>p_state := PROCESS_RUNNING, p_time_slice_remaining := 20\<rparr>)"
    "scheduler t = (scheduler v)\<lparr>current_process := y\<rparr>" "timer_ticks t = timer_ticks v" "hw_trace t = hw_trace v"
    by (simp_all add: t_def ts upd_proc_def upd_sched_def TIME_SLICE_TICKS_def)
  have y: "y \<in> set (xs @ [x])" unfolding y_def by (rule hd_in_set) simp
  have d: "distinct (xs @ [x])" using x by simp
  then have ny: "z \<noteq> y" if "z \<in> set (tl (xs @ [x]))" for z
    using that unfolding y_def by (cases "xs @ [x]") auto
  have st: "p_state (proc v z) = PROCESS_READY" if "z \<in> set (xs @ [x])" for z
    using that ready by (auto simp: fr u)
  have "queue_wf (tl (xs @ [x])) t" using rq(2) by (subst queue_wf_cong [where s = v]) (simp_all add: t)
  moreover have "p_state (proc t z) = PROCESS_READY" if "z \<in> set (tl (xs @ [x]))" for z
    using st [of z] list.set_sel(2) [OF _ that] ny [OF that] by (simp add: t)
  ultimately show "sched_at (xs @ [x]) t"
    using d rq(4) by (simp add: sched_at_def t y_def [symmetric])
  show "p_time_slice_remaining (proc t y) = 20" by (simp add: t)
  show "fst (tick_switch sp s) = (if xs = [] then sp else rsp (p_registers (proc s y)))"
    using x y by (auto simp: ts fr u y_def)
  show "p_registers (proc t z) = (if z = x then (p_registers (proc s x))\<lparr>rsp := sp\<rparr> else p_registers (proc s z))" for z
    by (simp add: t fr u)
  show "p_total_ticks (proc t z) = p_total_ticks (proc s z)" for z by (simp add: t fr u)
  show "timer_ticks t = timer_ticks s" "total_ticks (scheduler t) = total_ticks (scheduler s)" "hw_trace t = hw_trace s"
    by (simp_all add: t fr u)
  show "p_time_slice_remaining (proc t z) = p_time_slice_remaining (proc s z)" if "z \<noteq> y" for z
    using that by (simp add: t fr u)
qed

lemma count_tick_fields:
  assumes "current_process (scheduler s) = x"
  shows "proc (count_tick s) = (proc s)(x := (proc s x)\<lparr>p_total_ticks := p_total_ticks (proc s x) + 1,
       p_time_slice_remaining := p_time_slice_remaining (proc s x) - 1\<rparr>)"
    "scheduler (count_tick s) = scheduler s" "timer_ticks (count_tick s) = timer_ticks s"
    "hw_trace (count_tick s) = hw_trace s" "queue_wf xs (count_tick s) = queue_wf xs s"
proof -
  show p: "proc (count_tick s) = (proc s)(x := (proc s x)\<lparr>p_total_ticks := p_total_ticks (proc s x) + 1,
       p_time_slice_remaining := p_time_slice_remaining (proc s x) - 1\<rparr>)"
    and c: "scheduler (count_tick s) = scheduler s" "timer_ticks (count_tick s) = timer_ticks s"
    "hw_trace (count_tick s) = hw_trace s"
    by (simp_all add: count_tick_def assms Let_def upd_proc_def)
  show "queue_wf xs (count_tick s) = queue_wf xs s"
    by (rule queue_wf_cong) (simp_all add: p c)
qed

lemma count_tick_spec:
  assumes "sched_at (x # xs) s"
  shows "sched_at (x # xs) (count_tick s)"
    "proc (count_tick s) = (proc s)(x := (proc s x)\<lparr>p_total_ticks := p_total_ticks (proc s x) + 1,
       p_time_slice_remaining := p_time_slice_remaining (proc s x) - 1\<rparr>)"
    "scheduler (count_tick s) = scheduler s" "timer_ticks (count_tick s) = timer_ticks s"
    "hw_trace (count_tick s) = hw_trace s"
proof -
  have cur: "current_process (scheduler s) = x" using assms by (simp add: sched_at_def)
  note ct = count_tick_fields [OF cur]
  show "sched_at (x # xs) (count_tick s)"
    using assms ct(5) by (auto simp: sched_at_def ct(1,2))
  show "proc (count_tick s) = (proc s)(x := (proc s x)\<lparr>p_total_ticks := p_total_ticks (proc s x) + 1,
       p_time_slice_remaining := p_time_slice_remaining (proc s x) - 1\<rparr>)"
    "scheduler (count_tick s) = scheduler s" "timer_ticks (count_tick s) = timer_ticks s"
    "hw_trace (count_tick s) = hw_trace s" by (fact ct)+
qed

text \<open>The tick that ends a slice, whatever state the running process is in.\<close>

lemma expired_tick:
  fixes s :: "'a sched_scheme"
  assumes at: "queue_at (x # xs) s" and n: "p_time_slice_remaining (proc s x) = 1"
  shows "\<exists>q t. preempt_handler sp s = Some (q, t) \<and> sched_at (xs @ [x]) t \<and>
    p_time_slice_remaining (proc t (hd (xs @ [x]))) = 20 \<and> q = (if xs = [] then sp else rsp (p_registers (proc s (hd xs)))) \<and>
    (\<forall>z. p_registers (proc t z) = (if z = x then (p_registers (proc s x))\<lparr>rsp := sp\<rparr> else p_registers (proc s z))) \<and>
    (\<forall>z. p_total_ticks (proc t z) = p_total_ticks (proc s z) + (if z = x then 1 else 0)) \<and>
    timer_ticks t = timer_ticks s \<and> total_ticks (scheduler t) = total_ticks (scheduler s) + 1 \<and>
    hw_trace t = hw_trace s @ [Out 0x20 0x20]"
proof -
  have wf: "queue_wf xs s" and x: "current_process (scheduler s) = x" "x \<noteq> 0" "distinct (x # xs)"
    and ready: "\<forall>z\<in>set xs. p_state (proc s z) = PROCESS_READY" using at by (simp_all add: queue_at_def)
  obtain u where u: "tick_entry s = Some u" "proc u = proc s" "timer_ticks u = timer_ticks s"
    "scheduler u = (scheduler s)\<lparr>total_ticks := total_ticks (scheduler s) + 1\<rparr>"
    "hw_trace u = hw_trace s @ [Out 0x20 0x20]"
    using tick_entry_returns [OF wf] by blast
  have "queue_wf xs u" using wf by (subst queue_wf_cong [where s = s]) (simp_all add: u)
  moreover have cur: "current_process (scheduler u) = x" using x by (simp add: u)
  note ct = count_tick_fields [OF cur]
  ultimately have "queue_at (x # xs) (count_tick u)"
    using x ready by (auto simp: queue_at_def ct u)
  note sw = tick_switch_spec [OF this, of sp]
  have "preempt_handler sp s = Some (tick_switch sp (count_tick u))"
    using x n sw(10) cur by (simp add: preempt_handler_steps [OF u(1), of sp] u(2) Let_def)
  then have r: "preempt_handler sp s = Some (fst (tick_switch sp (count_tick u)), snd (tick_switch sp (count_tick u)))"
    by simp
  have q: "fst (tick_switch sp (count_tick u)) = (if xs = [] then sp else rsp (p_registers (proc s (hd xs))))"
    unfolding sw(3) by (simp add: ct(1) u(2))
  have regs: "p_registers (proc (snd (tick_switch sp (count_tick u))) z) =
        (if z = x then (p_registers (proc s x))\<lparr>rsp := sp\<rparr> else p_registers (proc s z))" for z
    unfolding sw(4) by (simp add: ct(1) u(2))
  have ticks: "p_total_ticks (proc (snd (tick_switch sp (count_tick u))) z) =
      p_total_ticks (proc s z) + (if z = x then 1 else 0)" for z
    unfolding sw(5) by (simp add: ct(1) u(2))
  show ?thesis
    by (rule exI, rule exI, rule conjI [OF r]) (use sw(1,2,6,7,8) q regs ticks ct(2-4) u(3-5) in simp)
qed

lemma sched_at_cong:
  assumes "proc t = proc s" and "scheduler t = (scheduler s)\<lparr>total_ticks := n\<rparr>"
  shows "sched_at l t = sched_at l s"
proof -
  have "queue_wf qs t = queue_wf qs s" for qs by (rule queue_wf_cong) (simp_all add: assms)
  then show ?thesis by (simp add: sched_at_def assms)
qed

text \<open>One tick with a process running.\<close>

lemma preempt_tick:
  fixes s :: "'a sched_scheme"
  assumes at: "sched_at (x # xs) s"
  defines "n \<equiv> p_time_slice_remaining (proc s x)"
  shows "\<exists>q t. preempt_handler sp s = Some (q, t) \<and>
    (\<forall>z. p_total_ticks (proc t z) = p_total_ticks (proc s z) + (if z = x then 1 else 0)) \<and>
    timer_ticks t = timer_ticks s \<and> total_ticks (scheduler t) = total_ticks (scheduler s) + 1 \<and>
    hw_trace t = hw_trace s @ [Out 0x20 0x20] \<and>
    (if n = 1
     then sched_at (xs @ [x]) t \<and> p_time_slice_remaining (proc t (hd (xs @ [x]))) = 20 \<and>
       q = (if xs = [] then sp else rsp (p_registers (proc s (hd xs)))) \<and>
       (\<forall>z. p_registers (proc t z) =
          (if z = x then (p_registers (proc s x))\<lparr>rsp := sp\<rparr> else p_registers (proc s z)))
     else sched_at (x # xs) t \<and> p_time_slice_remaining (proc t x) = n - 1 \<and> q = sp \<and>
       (\<forall>z. p_registers (proc t z) = p_registers (proc s z)))"
proof -
  have "queue_wf xs s" and x: "current_process (scheduler s) = x" "x \<noteq> 0" using at by (simp_all add: sched_at_def)
  then obtain u where u: "tick_entry s = Some u" "proc u = proc s" "timer_ticks u = timer_ticks s"
    "scheduler u = (scheduler s)\<lparr>total_ticks := total_ticks (scheduler s) + 1\<rparr>"
    "hw_trace u = hw_trace s @ [Out 0x20 0x20]"
    using tick_entry_returns by blast
  have atu: "sched_at (x # xs) u" using at sched_at_cong [OF u(2,4)] by simp
  note ct = count_tick_spec [OF atu]
  note st = preempt_handler_steps [OF u(1), of sp]
  show ?thesis
  proof (cases "n = 1")
    case False
    then have "preempt_handler sp s = Some (sp, count_tick u)"
      using x by (simp add: st u Let_def n_def)
    then show ?thesis using False ct u by (simp add: n_def)
  next
    case True
    from expired_tick [OF sched_at_queue [OF at] True [unfolded n_def], of sp] show ?thesis
      using True by (elim exE conjE) (intro exI conjI, assumption+, simp)
  qed
qed

subsection \<open>Sequences of ticks\<close>

text \<open>Timer interrupts one after the other, each with the stack pointer it finds.\<close>

primrec run_ticks :: "u64 list \<Rightarrow> 'a sched_scheme \<Rightarrow> 'a sched_scheme option" where
  "run_ticks [] s = Some s"
| "run_ticks (sp # sps) s = (case preempt_handler sp s of None \<Rightarrow> None | Some (q, t) \<Rightarrow> run_ticks sps t)"

lemma run_ticks_append:
  "run_ticks (as @ bs) s = (case run_ticks as s of None \<Rightarrow> None | Some t \<Rightarrow> run_ticks bs t)"
  by (induction as arbitrary: s) (auto split: option.splits prod.splits)

text \<open>The time slice runs out after as many ticks as it has, and the turn passes on.\<close>

lemma turn:
  assumes "sched_at l s" and "unat (p_time_slice_remaining (proc s (hd l))) = length sps" and "sps \<noteq> []"
  shows "\<exists>t. run_ticks sps s = Some t \<and> sched_at (rotate1 l) t \<and>
    p_time_slice_remaining (proc t (hd (rotate1 l))) = 20 \<and>
    (\<forall>z. p_total_ticks (proc t z) = p_total_ticks (proc s z) + (if z = hd l then word_of_nat (length sps) else 0))"
  using assms
proof (induction sps arbitrary: s)
  case Nil
  then show ?case by simp
next
  case (Cons sp sps)
  obtain x xs where l: "l = x # xs" using Cons.prems(1) by (cases l) (auto simp: sched_at_def)
  note tick = preempt_tick [OF Cons.prems(1) [unfolded l], of sp]
  show ?case
  proof (cases "sps = []")
    case True
    then have "p_time_slice_remaining (proc s x) = 1" using Cons.prems(2) l by (simp add: word_unat_eq_iff)
    with tick show ?thesis using True l by auto
  next
    case False
    then have n: "unat (p_time_slice_remaining (proc s x)) = Suc (length sps)" "0 < length sps"
      using Cons.prems(2) l by simp_all
    then have n1: "p_time_slice_remaining (proc s x) \<noteq> 1" by auto
    then obtain q t where t: "preempt_handler sp s = Some (q, t)" "sched_at (x # xs) t"
      "p_time_slice_remaining (proc t x) = p_time_slice_remaining (proc s x) - 1"
      "\<forall>z. p_total_ticks (proc t z) = p_total_ticks (proc s z) + (if z = x then 1 else 0)"
      using tick by auto
    have "1 \<le> p_time_slice_remaining (proc s x)" using n by (simp add: word_le_nat_alt)
    then have "unat (p_time_slice_remaining (proc t (hd l))) = length sps"
      using n t(3) l by (simp add: unat_sub_exact)
    from Cons.IH [OF t(2) [folded l] this False] obtain w where
      "run_ticks sps t = Some w" "sched_at (rotate1 l) w" "p_time_slice_remaining (proc w (hd (rotate1 l))) = 20"
      "\<forall>z. p_total_ticks (proc w z) = p_total_ticks (proc t z) + (if z = hd l then word_of_nat (length sps) else 0)"
      by blast
    then show ?thesis using t(1,4) l by auto
  qed
qed

text \<open>Turn after turn, in the order of the list.\<close>

lemma turns:
  assumes "sched_at l s" and "p_time_slice_remaining (proc s (hd l)) = 20" and "length sps = 20 * k"
    and "k \<le> length l"
  shows "\<exists>t. run_ticks sps s = Some t \<and> sched_at (rotate k l) t \<and>
    p_time_slice_remaining (proc t (hd (rotate k l))) = 20 \<and>
    (\<forall>z. p_total_ticks (proc t z) = p_total_ticks (proc s z) + (if z \<in> set (take k l) then 20 else 0))"
  using assms(3,4)
proof (induction k arbitrary: sps)
  case 0
  then show ?case using assms(1,2) by simp
next
  case (Suc k)
  define as where "as = take (20 * k) sps"
  define bs where "bs = drop (20 * k) sps"
  have sps: "sps = as @ bs" and len: "length as = 20 * k" "length bs = 20"
    using Suc.prems by (simp_all add: as_def bs_def)
  obtain t where t: "run_ticks as s = Some t" "sched_at (rotate k l) t"
    "p_time_slice_remaining (proc t (hd (rotate k l))) = 20"
    "\<forall>z. p_total_ticks (proc t z) = p_total_ticks (proc s z) + (if z \<in> set (take k l) then 20 else 0)"
    using Suc.IH [OF len(1)] Suc.prems(2) by auto
  have bs: "bs \<noteq> []" "unat (p_time_slice_remaining (proc t (hd (rotate k l)))) = length bs"
    using len(2) t(3) by auto
  obtain u where u: "run_ticks bs t = Some u" "sched_at (rotate1 (rotate k l)) u"
    "p_time_slice_remaining (proc u (hd (rotate1 (rotate k l)))) = 20"
    "\<forall>z. p_total_ticks (proc u z) = p_total_ticks (proc t z) + (if z = hd (rotate k l) then word_of_nat (length bs) else 0)"
    using turn [OF t(2) bs(2,1)] by blast
  have k: "k < length l" using Suc.prems(2) by simp
  have hd: "hd (rotate k l) = l ! k" using k hd_rotate_conv_nth [of l k] by fastforce
  have "distinct l" using assms(1) by (simp add: sched_at_def)
  then have new: "l ! k \<notin> set (take k l)"
    using k by (auto simp: in_set_conv_nth nth_eq_iff_index_eq)
  have tk: "set (take (Suc k) l) = insert (l ! k) (set (take k l))"
    using k by (simp add: take_Suc_conv_app_nth)
  have "run_ticks sps s = Some u" using t(1) u(1) by (simp add: sps run_ticks_append)
  moreover have "p_total_ticks (proc u z) = p_total_ticks (proc s z) + (if z \<in> set (take (Suc k) l) then 20 else 0)" for z
    using t(4) u(4) new len(2) unfolding tk hd by auto
  ultimately show ?case using u(2,3) by (simp add: rotate_Suc)
qed

subsection \<open>The handler and the timer\<close>

lemma summary_queue_frame: "summary_queue it s = Some t \<Longrightarrow> vga_frame s t"
proof (erule summary_queue.raw_induct [where P = "\<lambda>it s t. vga_frame s t", rotated])
  fix walk it t and s :: "'b sched_scheme"
  assume IH: "\<And>it s t. walk it s = Some t \<Longrightarrow> vga_frame s t"
    and step: "(if it = 0 then Some s
      else let s = summary_entry it s;
             s = (if p_next (proc s it) \<noteq> 0 then vga_print '' | '' VGA_COLOR_DARK_GREY s else s)
         in walk (p_next (proc s it)) s) = Some t"
  show "vga_frame s t"
  proof (cases "it = 0")
    case True
    then show ?thesis using step by simp
  next
    case False
    let ?s2 = "if p_next (proc (summary_entry it s) it) \<noteq> 0
      then vga_print '' | '' VGA_COLOR_DARK_GREY (summary_entry it s) else summary_entry it s"
    have "walk (p_next (proc ?s2 it)) ?s2 = Some t" using step False by (simp add: Let_def)
    from IH [OF this] have "vga_frame ?s2 t" .
    moreover have "vga_frame s ?s2" by simp
    ultimately show ?thesis by (rule vga_frame_trans [rotated])
  qed
qed

lemma preempt_handler_timer:
  assumes "preempt_handler sp s = Some (q, t)"
  shows "timer_ticks t = timer_ticks s"
proof -
  have summary: "timer_ticks v = timer_ticks u" if "print_summary u = Some v" for u v :: "'a sched_scheme"
    using that unfolding print_summary_def Let_def
    by (auto dest!: summary_queue_frame vga_frame_sched(4) split: if_splits)
  have upd: "timer_ticks (upd_proc p f u) = timer_ticks u" "timer_ticks (upd_sched g u) = timer_ticks u"
    "timer_ticks (queue_enqueue p u) = timer_ticks u"
    for p f g and u :: "'a sched_scheme"
    using queue_frame_fields(7) [OF queue_enqueue_frame]
    by (simp_all add: upd_proc_def upd_sched_def)
  have deq: "timer_ticks v = timer_ticks u" if "queue_dequeue u = (x, v)" for x and u v :: "'a sched_scheme"
    using queue_frame_fields(7) [OF queue_dequeue_frame [of u]] that by simp
  obtain u where u: "tick_entry s = Some u"
    using assms by (auto simp: preempt_handler_def tick_entry_def Let_def split: option.splits if_splits)
  have "timer_ticks u = timer_ticks s"
    using u summary by (fastforce simp: tick_entry_def Let_def upd split: if_splits)
  moreover have "timer_ticks t = timer_ticks u"
    using assms u by (auto simp: preempt_handler_def tick_entry_def Let_def upd dest!: deq split: if_splits prod.splits)
  ultimately show ?thesis by simp
qed

end
