(* ===== verification/Scheduling.thy ===== *)
theory Scheduling
  imports Preemption
begin

text \<open>
  What the scheduler promises: one timer tick, round robin over any number of ticks, the order of
  the ready queue, the cooperative switch, and that sleeping on the timer does not work while the
  scheduler owns its interrupt.
\<close>

subsection \<open>A state to run on\<close>

definition zero_regs :: registers_t where
  "zero_regs = \<lparr>rax = 0, rbx = 0, rcx = 0, rdx = 0, rsi = 0, rdi = 0, rbp = 0, rsp = 0,
     r8 = 0, r9 = 0, r10 = 0, r11 = 0, r12 = 0, r13 = 0, r14 = 0, r15 = 0, rip = 0, rflags = 0\<rparr>"

definition zero_process :: process_t where
  "zero_process = \<lparr>p_pid = 0, p_parent_pid = 0, p_name = (\<lambda>_. CHR 0x00), p_state = PROCESS_READY,
     p_registers = zero_regs, p_page_table = 0, p_kernel_stack = 0, p_kernel_stack_top = 0,
     p_user_stack = 0, p_priority = 0, p_time_slice_remaining = 20, p_total_ticks = 0,
     p_wake_time = 0, p_next = 0, p_prev = 0\<rparr>"

text \<open>Two processes, at \<open>0x100\<close> and \<open>0x200\<close>: the first runs, the second waits.\<close>

definition demo_sched :: sched where
  "demo_sched = kheap.extend demo_heap
     \<lparr>proc = (\<lambda>_. zero_process)(0x100 := zero_process\<lparr>p_state := PROCESS_RUNNING\<rparr>),
      scheduler = \<lparr>ready_queue_head = 0x200, ready_queue_tail = 0x200, current_process = 0x100,
        next_pid = 3, process_count = 2, total_ticks = 0\<rparr>,
      need_reschedule = 0\<rparr>"

lemma demo_sched_fields [simp]:
  "proc demo_sched = (\<lambda>_. zero_process)(0x100 := zero_process\<lparr>p_state := PROCESS_RUNNING\<rparr>)"
  "current_process (scheduler demo_sched) = 0x100" "total_ticks (scheduler demo_sched) = 0"
  "ready_queue_head (scheduler demo_sched) = 0x200" "ready_queue_tail (scheduler demo_sched) = 0x200"
  by (simp_all add: demo_sched_def kheap.defs)

lemma zero_process_fields [simp]:
  "p_state zero_process = PROCESS_READY" "p_time_slice_remaining zero_process = 20"
  "p_total_ticks zero_process = 0" "p_next zero_process = 0" "p_prev zero_process = 0"
  by (simp_all add: zero_process_def)

lemma demo_sched_at: "sched_at [0x100, 0x200] demo_sched"
  by (simp add: sched_at_def queue_wf_def)

lemma demo_sched_queue: "queue_ok demo_sched" "ready_queue demo_sched = [0x200]"
  using queue_okI [of "[0x200]" demo_sched] by (simp_all add: queue_wf_def)

subsection \<open>One tick\<close>

text \<open>
  Property C13. With a process running, the timer interrupt always returns. It acknowledges the
  interrupt first, counts the tick for the system and for the running process and for nobody
  else, and leaves \<open>timer_ticks\<close> alone. While the slice lasts, the running process keeps the
  processor and its stack; when the slice is used up, its stack pointer is saved, it goes to the
  end of the queue, and the head of the queue runs with a full slice, on the stack it saved.
\<close>

theorem preempt_handler_tick:
  fixes s :: "'a sched_scheme"
  assumes "sched_at (x # xs) s"
  shows "\<exists>q t. preempt_handler sp s = Some (q, t) \<and>
    (\<forall>z. p_total_ticks (proc t z) = p_total_ticks (proc s z) + (if z = x then 1 else 0)) \<and>
    timer_ticks t = timer_ticks s \<and> total_ticks (scheduler t) = total_ticks (scheduler s) + 1 \<and>
    hw_trace t = hw_trace s @ [Out 0x20 0x20] \<and>
    (if p_time_slice_remaining (proc s x) = 1
     then sched_at (xs @ [x]) t \<and> p_time_slice_remaining (proc t (hd (xs @ [x]))) = 20 \<and>
       q = (if xs = [] then sp else rsp (p_registers (proc s (hd xs)))) \<and>
       (\<forall>z. p_registers (proc t z) =
          (if z = x then (p_registers (proc s x))\<lparr>rsp := sp\<rparr> else p_registers (proc s z)))
     else sched_at (x # xs) t \<and>
       p_time_slice_remaining (proc t x) = p_time_slice_remaining (proc s x) - 1 \<and> q = sp \<and>
       (\<forall>z. p_registers (proc t z) = p_registers (proc s z)))"
  by (rule preempt_tick [OF assms])

theorem preempt_handler_tick_witness:
  "\<exists>q t. preempt_handler 0x9000 demo_sched = Some (q, t) \<and> q = 0x9000 \<and> sched_at [0x100, 0x200] t \<and>
     p_total_ticks (proc t 0x100) = 1 \<and> p_total_ticks (proc t 0x200) = 0"
  using preempt_handler_tick [OF demo_sched_at, where sp = "0x9000"] by auto

subsection \<open>Round robin\<close>

lemma round:
  assumes "sched_at l s" and "p_time_slice_remaining (proc s (hd l)) = 20"
    and "length sps = 20 * length l"
  shows "\<exists>t. run_ticks sps s = Some t \<and> sched_at l t \<and> p_time_slice_remaining (proc t (hd l)) = 20 \<and>
    (\<forall>z. p_total_ticks (proc t z) = p_total_ticks (proc s z) + (if z \<in> set l then 20 else 0))"
  using turns [OF assms order_refl] by simp

lemma rounds:
  assumes "sched_at l s" and "p_time_slice_remaining (proc s (hd l)) = 20"
    and "length sps = n * (20 * length l)"
  shows "\<exists>t. run_ticks sps s = Some t \<and> sched_at l t \<and> p_time_slice_remaining (proc t (hd l)) = 20 \<and>
    (\<forall>z. p_total_ticks (proc t z) = p_total_ticks (proc s z) + (if z \<in> set l then 20 * word_of_nat n else 0))"
  using assms(3)
proof (induction n arbitrary: sps)
  case 0
  then show ?case using assms(1,2) by simp
next
  case (Suc n)
  define as where "as = take (n * (20 * length l)) sps"
  define bs where "bs = drop (n * (20 * length l)) sps"
  have sps: "sps = as @ bs" and len: "length as = n * (20 * length l)" "length bs = 20 * length l"
    using Suc.prems by (simp_all add: as_def bs_def)
  from Suc.IH [OF len(1)] obtain t where t: "run_ticks as s = Some t" "sched_at l t"
    "p_time_slice_remaining (proc t (hd l)) = 20"
    "\<forall>z. p_total_ticks (proc t z) = p_total_ticks (proc s z) + (if z \<in> set l then 20 * word_of_nat n else 0)"
    by blast
  from round [OF t(2,3) len(2)] obtain u where u: "run_ticks bs t = Some u" "sched_at l u"
    "p_time_slice_remaining (proc u (hd l)) = 20"
    "\<forall>z. p_total_ticks (proc u z) = p_total_ticks (proc t z) + (if z \<in> set l then 20 else 0)"
    by blast
  have "run_ticks sps s = Some u" using t(1) u(1) by (simp add: sps run_ticks_append)
  then show ?case using u(2,3,4) t(4) by (auto simp: algebra_simps)
qed

text \<open>
  Property C10. Round robin: from the start of a slice, any \<open>n\<close> times 20 ticks for each of the
  processes bring the same process back to run with the queue in its old order, and every process
  has run for exactly \<open>20 * n\<close> ticks more. No tick is lost and nobody starves.
\<close>

theorem round_robin_fair:
  assumes "sched_at l s" and "p_time_slice_remaining (proc s (hd l)) = 20"
    and "length sps = n * (20 * length l)"
  shows "\<exists>t. run_ticks sps s = Some t \<and> sched_at l t \<and> ready_queue t = tl l \<and>
    (\<forall>z\<in>set l. p_total_ticks (proc t z) = p_total_ticks (proc s z) + 20 * word_of_nat n) \<and>
    (\<forall>z. z \<notin> set l \<longrightarrow> p_total_ticks (proc t z) = p_total_ticks (proc s z))"
proof -
  obtain t where t: "run_ticks sps s = Some t" "sched_at l t"
    "\<forall>z. p_total_ticks (proc t z) = p_total_ticks (proc s z) + (if z \<in> set l then 20 * word_of_nat n else 0)"
    using rounds [OF assms] by blast
  have "ready_queue t = tl l" using t(2) by (simp add: sched_at_def queue_wf_ready)
  then show ?thesis using t by auto
qed

theorem round_robin_fair_witness:
  "\<exists>t. run_ticks (replicate 120 0x9000) demo_sched = Some t \<and> sched_at [0x100, 0x200] t \<and>
     p_total_ticks (proc t 0x100) = 60 \<and> p_total_ticks (proc t 0x200) = 60"
  using round_robin_fair [OF demo_sched_at, where sps = "replicate 120 0x9000" and n = 3] by auto

subsection \<open>The order of the queue\<close>

lemma enqueue_all:
  "queue_ok s \<Longrightarrow> distinct ps \<Longrightarrow> 0 \<notin> set ps \<Longrightarrow> set ps \<inter> set (ready_queue s) = {} \<Longrightarrow>
    queue_ok (fold queue_enqueue ps s) \<and> ready_queue (fold queue_enqueue ps s) = ready_queue s @ ps"
proof (induction ps arbitrary: s)
  case Nil
  then show ?case by simp
next
  case (Cons p ps)
  have p: "p \<noteq> 0 \<and> p \<notin> set (ready_queue s)" using Cons.prems by auto
  note step = rq.push_inv [OF Cons.prems(1) p] rq.push_items [OF Cons.prems(1) p]
  show ?case using Cons.IH [OF step(1)] Cons.prems step(2) by auto
qed

text \<open>
  Property C24. The ready queue is first in, first out: processes that are enqueued, none of them
  in the queue yet, are dequeued in that order after the ones that were there, and then the queue
  is empty.
\<close>

theorem ready_queue_fifo:
  assumes "queue_ok s" and "distinct ps" and "0 \<notin> set ps" and "set ps \<inter> set (ready_queue s) = {}"
  shows "\<exists>t. pop_list queue_dequeue (length (ready_queue s) + length ps) (fold queue_enqueue ps s)
      = (ready_queue s @ ps, t) \<and> ready_queue t = [] \<and> queue_dequeue t = (0, t)"
proof -
  define u where "u = fold queue_enqueue ps s"
  have u: "queue_ok u" "ready_queue u = ready_queue s @ ps" using enqueue_all [OF assms] by (simp_all add: u_def)
  have "length (ready_queue u) = length (ready_queue s) + length ps" by (simp add: u(2))
  with rq.pop_list_all [OF u(1)] rq.pop_list_items [OF u(1) order_refl] show ?thesis
    unfolding u_def [symmetric] u(2) by (metis prod.collapse queue_dequeue_empty queue_ok_def)
qed

theorem ready_queue_fifo_witness:
  "\<exists>t. pop_list queue_dequeue 3 (fold queue_enqueue [0x300, 0x400] demo_sched) = ([0x200, 0x300, 0x400], t) \<and>
     ready_queue t = []"
  using ready_queue_fifo [OF demo_sched_queue(1), of "[0x300, 0x400]"] by (auto simp: demo_sched_queue numeral_3_eq_3)

subsection \<open>Sleeping under the scheduler\<close>

text \<open>What a timer interrupt does to the state while somebody halts.\<close>

definition tick_env :: "(nat \<Rightarrow> u64) \<Rightarrow> nat \<Rightarrow> 'a sched_scheme \<Rightarrow> 'a sched_scheme" where
  "tick_env sps k s = (case preempt_handler (sps k) s of None \<Rightarrow> s | Some (q, t) \<Rightarrow> t)"

text \<open>
  Property C33. The scheduler's timer handler does not advance \<open>timer_ticks\<close>: if it is what the
  timer interrupt runs, \<open>pit_sleep\<close> for one tick or more never returns.
\<close>

theorem pit_sleep_starves:
  assumes "0 < ticks" and "unat (timer_ticks s) + unat ticks < 2 ^ 64"
  shows "pit_sleep (tick_env sps) ticks s = None"
proof -
  have "timer_ticks (tick_env sps k t) = timer_ticks t" for k t
    by (auto simp: tick_env_def preempt_handler_timer split: option.splits)
  moreover have "timer_ticks s < timer_ticks s + ticks"
    using assms by (simp add: word_less_nat_alt unat_add_exact)
  ultimately show ?thesis unfolding pit_sleep_def Let_def by (rule pit_sleep_loop_stuck)
qed

theorem pit_sleep_starves_witness:
  "pit_sleep (tick_env (\<lambda>_. 0x9000)) 1 (demo_sched\<lparr>timer_ticks := 5\<rparr>) = None"
  using pit_sleep_starves [of 1 "demo_sched\<lparr>timer_ticks := 5\<rparr>" "\<lambda>_. 0x9000"] by simp

subsection \<open>Counting and yielding\<close>

lemma scheduler_tick_spec:
  fixes s :: "'a sched_scheme"
  assumes at: "sched_at (x # xs) s"
  defines "t \<equiv> scheduler_tick s"
  shows "sched_at (x # xs) t"
    "proc t = (proc s)(x := (proc s x)\<lparr>p_total_ticks := p_total_ticks (proc s x) + 1,
       p_time_slice_remaining := p_time_slice_remaining (proc s x) - 1\<rparr>)"
    "total_ticks (scheduler t) = total_ticks (scheduler s) + 1"
    "need_reschedule t = (if p_time_slice_remaining (proc s x) = 1 then 1 else need_reschedule s)"
    "scheduler t = (scheduler s)\<lparr>total_ticks := total_ticks (scheduler s) + 1\<rparr>" "hw_trace t = hw_trace s"
proof -
  have cur: "current_process (scheduler s) = x" "x \<noteq> 0" using at by (simp_all add: sched_at_def)
  show p: "proc t = (proc s)(x := (proc s x)\<lparr>p_total_ticks := p_total_ticks (proc s x) + 1,
       p_time_slice_remaining := p_time_slice_remaining (proc s x) - 1\<rparr>)"
    by (simp add: t_def scheduler_tick_def cur Let_def)
  show c: "scheduler t = (scheduler s)\<lparr>total_ticks := total_ticks (scheduler s) + 1\<rparr>"
    by (simp add: t_def scheduler_tick_def cur Let_def)
  then show "total_ticks (scheduler t) = total_ticks (scheduler s) + 1" by simp
  show "hw_trace t = hw_trace s" by (simp add: t_def scheduler_tick_def cur Let_def upd_proc_def upd_sched_def)
  show "need_reschedule t = (if p_time_slice_remaining (proc s x) = 1 then 1 else need_reschedule s)"
    by (simp add: t_def scheduler_tick_def cur Let_def upd_proc_def upd_sched_def)
  have "queue_wf xs t = queue_wf xs s" by (rule queue_wf_cong) (simp_all add: p c)
  then show "sched_at (x # xs) t" using at by (auto simp: sched_at_def p c)
qed

lemma do_schedule_keeps:
  assumes "sched_at (x # xs) s" and "p_time_slice_remaining (proc s x) \<noteq> 0"
  shows "do_schedule switch s = s"
  using assms by (auto simp: do_schedule_def scheduler_pick_next_def sched_at_def word_neq_0_conv)

text \<open>What yielding does once the slice is used up, before the registers are switched.\<close>

definition yield_switch :: "'a sched_scheme \<Rightarrow> 'a sched_scheme" where
  "yield_switch s =
     (let s = upd_proc (current_process (scheduler s)) (\<lambda>t. t\<lparr>p_state := PROCESS_READY\<rparr>) s;
          (nx, s) = queue_dequeue (queue_enqueue (current_process (scheduler s)) s);
          s = upd_proc nx (\<lambda>t. t\<lparr>p_state := PROCESS_RUNNING\<rparr>) s;
          s = upd_proc nx (\<lambda>t. t\<lparr>p_time_slice_remaining := TIME_SLICE_TICKS\<rparr>) s
      in upd_sched (\<lambda>c. c\<lparr>current_process := nx\<rparr>) s)"

lemma current_process_same: "current_process (scheduler s) = y \<Longrightarrow> upd_sched (\<lambda>c. c\<lparr>current_process := y\<rparr>) s = s"
  by (cases s; cases "scheduler s") (simp add: upd_sched_def)

lemma do_schedule_switches:
  fixes s :: "'a sched_scheme"
  assumes at: "sched_at (x # xs) s" and slice: "p_time_slice_remaining (proc s x) = 0"
  defines "t \<equiv> yield_switch s"
  shows "do_schedule switch s = (if xs = [] then t else switch x (hd xs) t)" "sched_at (xs @ [x]) t"
    "need_reschedule t = need_reschedule s" "hw_trace t = hw_trace s"
    "total_ticks (scheduler t) = total_ticks (scheduler s)"
    "\<And>z. p_registers (proc t z) = p_registers (proc s z)"
proof -
  define y where "y = hd (xs @ [x])"
  have cur: "current_process (scheduler s) = x" and x: "x \<noteq> 0" "x \<notin> set xs" "distinct xs"
    and wf: "queue_wf xs s" and ready: "\<forall>z\<in>set xs. p_state (proc s z) = PROCESS_READY"
    using at by (simp_all add: sched_at_def)
  define u where "u = upd_proc x (\<lambda>t. t\<lparr>p_state := PROCESS_READY\<rparr>) s"
  have wfu: "queue_wf xs u" using wf by (subst queue_wf_cong [where s = s]) (simp_all add: u_def)
  have cur_u: "current_process (scheduler u) = x" using cur by (simp add: u_def)
  define v where "v = snd (queue_dequeue (queue_enqueue x u))"
  note rq = requeue [OF wfu x(1,2), folded y_def, folded v_def]
  note fr = queue_frame_fields [OF rq(3)]
  have nr: "need_reschedule v = need_reschedule s"
    using rq(3) by (auto simp: queue_frame_def u_def upd_proc_def)
  define w where "w = upd_proc y (\<lambda>t. t\<lparr>p_time_slice_remaining := TIME_SLICE_TICKS\<rparr>)
    (upd_proc y (\<lambda>t. t\<lparr>p_state := PROCESS_RUNNING\<rparr>) v)"
  have t_w: "t = upd_sched (\<lambda>c. c\<lparr>current_process := y\<rparr>) w"
    using rq(1) by (simp add: t_def yield_switch_def cur u_def [symmetric] cur_u v_def w_def Let_def split_def)
  have pick: "scheduler_pick_next s = (y, w)"
    using rq(1,4) slice by (simp add: scheduler_pick_next_def cur x u_def [symmetric] v_def w_def Let_def split_def)
  have yx: "y = x \<longleftrightarrow> xs = []" using x by (cases xs) (auto simp: y_def)
  have "t = w" if "xs = []"
    unfolding t_w using that yx cur by (intro current_process_same) (simp add: w_def fr u_def)
  moreover have "y = hd xs" if "xs \<noteq> []" using that by (simp add: y_def)
  ultimately show "do_schedule switch s = (if xs = [] then t else switch x (hd xs) t)"
    using rq(4) yx by (auto simp: do_schedule_def pick cur t_w)
  have t: "proc t = (proc v)(y := (proc v y)\<lparr>p_state := PROCESS_RUNNING, p_time_slice_remaining := 20\<rparr>)"
    "scheduler t = (scheduler v)\<lparr>current_process := y\<rparr>"
    by (simp_all add: t_w w_def TIME_SLICE_TICKS_def)
  have st: "p_state (proc v z) = PROCESS_READY" if "z \<in> set (xs @ [x])" for z
    using that ready by (auto simp: fr u_def)
  have d: "distinct (xs @ [x])" using x by simp
  then have ny: "z \<noteq> y" if "z \<in> set (tl (xs @ [x]))" for z
    using that unfolding y_def by (cases "xs @ [x]") auto
  have "queue_wf (tl (xs @ [x])) t" using rq(2) by (subst queue_wf_cong [where s = v]) (simp_all add: t)
  moreover have "p_state (proc t z) = PROCESS_READY" if "z \<in> set (tl (xs @ [x]))" for z
    using st [of z] list.set_sel(2) [OF _ that] ny [OF that] by (simp add: t)
  ultimately show "sched_at (xs @ [x]) t"
    using d rq(4) by (simp add: sched_at_def t y_def [symmetric])
  have "hw_trace u = hw_trace s" by (simp add: u_def upd_proc_def)
  then show "need_reschedule t = need_reschedule s" "hw_trace t = hw_trace s"
    by (simp_all add: t_w w_def nr fr upd_proc_def upd_sched_def)
  show "total_ticks (scheduler t) = total_ticks (scheduler s)" by (simp add: t fr u_def)
  show "p_registers (proc t z) = p_registers (proc s z)" for z by (simp add: t fr u_def)
qed

text \<open>
  Two states in lockstep: the same scheduler and the same control blocks, but that in the second the
  stack pointer of \<open>x\<close> has been saved. What both paths do to queue, states and slices keeps this.
\<close>

definition stack_saved :: "u64 \<Rightarrow> process_t \<Rightarrow> process_t" where
  "stack_saved sp t = t\<lparr>p_registers := p_registers t\<lparr>rsp := sp\<rparr>\<rparr>"

definition lockstep :: "u64 \<Rightarrow> u64 \<Rightarrow> 'a sched_scheme \<Rightarrow> 'b sched_scheme \<Rightarrow> bool" where
  "lockstep x sp s u \<longleftrightarrow> scheduler u = scheduler s \<and> proc u = (proc s)(x := stack_saved sp (proc s x))"

lemma stack_saved_fields [simp]:
  "p_next (stack_saved sp t) = p_next t" "p_prev (stack_saved sp t) = p_prev t"
  by (simp_all add: stack_saved_def)

lemma lockstep_fields:
  assumes "lockstep x sp s u"
  shows "scheduler u = scheduler s" "p_next (proc u z) = p_next (proc s z)"
  using assms by (simp_all add: lockstep_def)

lemma lockstep_upd:
  assumes "lockstep x sp s u"
  shows "(\<And>t. f (stack_saved sp t) = stack_saved sp (f t)) \<Longrightarrow> lockstep x sp (upd_proc p f s) (upd_proc p f u)"
    "lockstep x sp (upd_sched g s) (upd_sched g u)"
  using assms by (simp_all add: lockstep_def fun_upd_twist)

lemma stack_saved_commutes:
  "(stack_saved sp t)\<lparr>p_next := a\<rparr> = stack_saved sp (t\<lparr>p_next := a\<rparr>)"
  "(stack_saved sp t)\<lparr>p_prev := a\<rparr> = stack_saved sp (t\<lparr>p_prev := a\<rparr>)"
  "(stack_saved sp t)\<lparr>p_state := b\<rparr> = stack_saved sp (t\<lparr>p_state := b\<rparr>)"
  "(stack_saved sp t)\<lparr>p_time_slice_remaining := c\<rparr> = stack_saved sp (t\<lparr>p_time_slice_remaining := c\<rparr>)"
  by (simp_all add: stack_saved_def)

lemmas lockstep_steps = lockstep_upd stack_saved_commutes

lemma lockstep_enqueue:
  assumes "lockstep x sp s u"
  shows "lockstep x sp (queue_enqueue p s) (queue_enqueue p u)"
  using assms lockstep_fields [OF assms] by (simp add: queue_enqueue_def Let_def lockstep_steps)

lemma lockstep_dequeue:
  assumes "lockstep x sp s u"
  shows "fst (queue_dequeue u) = fst (queue_dequeue s)"
    "lockstep x sp (snd (queue_dequeue s)) (snd (queue_dequeue u))"
  using assms lockstep_fields [OF assms] by (simp_all add: queue_dequeue_def Let_def lockstep_steps)

text \<open>The two switches keep in step, one saving the stack pointer that the other leaves to \<open>switch\<close>.\<close>

lemma switches_lockstep:
  assumes "proc u = proc s" and "scheduler u = scheduler s" and "current_process (scheduler s) = x"
  shows "lockstep x sp (yield_switch s) (snd (tick_switch sp u))"
proof -
  have "lockstep x sp s (upd_proc x (\<lambda>t. t\<lparr>p_registers := p_registers t\<lparr>rsp := sp\<rparr>\<rparr>) u)"
    using assms by (simp add: lockstep_def stack_saved_def)
  then have "lockstep x sp (upd_proc x (\<lambda>t. t\<lparr>p_state := PROCESS_READY\<rparr>) s)
    (upd_proc x (\<lambda>t. t\<lparr>p_state := PROCESS_READY\<rparr>)
      (upd_proc x (\<lambda>t. t\<lparr>p_registers := p_registers t\<lparr>rsp := sp\<rparr>\<rparr>) u))"
    by (rule lockstep_upd(1)) (rule stack_saved_commutes)
  note dq = lockstep_dequeue [OF lockstep_enqueue [OF this]]
  show ?thesis
    using dq by (simp add: yield_switch_def tick_switch_def assms Let_def split_def lockstep_steps)
qed

text \<open>
  Property C32. The cooperative path agrees with the timer's. From any state with a process \<open>x\<close>
  running, take one timer interrupt (\<open>preempt_handler\<close>), or count a tick and yield
  (\<open>scheduler_tick\<close>, then \<open>do_schedule\<close>): both leave the same scheduler and the same control blocks,
  but that the interrupt that ends the slice has saved its stack pointer in \<open>x\<close>, where yielding
  leaves all the registers to the context switch. Both pass the processor on exactly when the slice is
  used up and somebody else is ready, to the same process: the interrupt by returning the stack
  pointer saved there, yielding by switching from \<open>x\<close> to it. With time left, yielding changes nothing. Only the timer path acknowledges an
  interrupt, only the other one asks for a reschedule.
\<close>

theorem tick_then_yield:
  fixes s :: "'a sched_scheme"
  assumes "sched_at (x # xs) s"
  shows "\<exists>q u t. preempt_handler sp s = Some (q, u) \<and>
    (\<forall>switch. do_schedule switch (scheduler_tick s) =
      (if p_time_slice_remaining (proc s x) = 1 \<and> xs \<noteq> [] then switch x (hd xs) t else t)) \<and>
    scheduler u = scheduler t \<and> total_ticks (scheduler t) = total_ticks (scheduler s) + 1 \<and>
    (\<forall>z. proc u z = (if z = x \<and> p_time_slice_remaining (proc s x) = 1
      then (proc t z)\<lparr>p_registers := (p_registers (proc t z))\<lparr>rsp := sp\<rparr>\<rparr> else proc t z)) \<and>
    (\<forall>z. p_registers (proc t z) = p_registers (proc s z)) \<and>
    q = (if p_time_slice_remaining (proc s x) = 1 \<and> xs \<noteq> [] then rsp (p_registers (proc t (hd xs))) else sp) \<and>
    sched_at (if p_time_slice_remaining (proc s x) = 1 then xs @ [x] else x # xs) t \<and>
    hw_trace u = hw_trace s @ [Out 0x20 0x20] \<and> hw_trace t = hw_trace s \<and>
    need_reschedule t = (if p_time_slice_remaining (proc s x) = 1 then 1 else need_reschedule s) \<and>
    (p_time_slice_remaining (proc s x) \<noteq> 1 \<longrightarrow> t = scheduler_tick s)"
proof -
  have "queue_wf xs s" and x: "current_process (scheduler s) = x" "x \<noteq> 0" "x \<notin> set xs"
    using assms by (simp_all add: sched_at_def)
  then obtain v where v: "tick_entry s = Some v" "proc v = proc s"
    "scheduler v = (scheduler s)\<lparr>total_ticks := total_ticks (scheduler s) + 1\<rparr>"
    "hw_trace v = hw_trace s @ [Out 0x20 0x20]"
    using tick_entry_returns by blast
  have "sched_at (x # xs) v" using assms sched_at_cong [OF v(2,3)] by simp
  note ct = count_tick_spec [OF this] and st = scheduler_tick_spec [OF assms]
  note ph = preempt_handler_steps [OF v(1), of sp]
  have same: "proc (count_tick v) = proc (scheduler_tick s)" "scheduler (count_tick v) = scheduler (scheduler_tick s)"
    by (simp_all add: ct(2,3) v(2,3) st(2) st(5))
  show ?thesis
  proof (cases "p_time_slice_remaining (proc s x) = 1")
    case False
    have "do_schedule switch (scheduler_tick s) = scheduler_tick s" for switch
      by (rule do_schedule_keeps [OF st(1)]) (use False in \<open>simp add: st(2)\<close>)
    moreover have "preempt_handler sp s = Some (sp, count_tick v)"
      using x False by (simp add: ph v Let_def)
    ultimately show ?thesis
      using False by (intro exI [of _ sp] exI [of _ "count_tick v"] exI [of _ "scheduler_tick s"])
        (simp add: same ct(5) v(4) st)
  next
    case True
    have "p_time_slice_remaining (proc (scheduler_tick s) x) = 0" using True by (simp add: st(2))
    note ds = do_schedule_switches [OF st(1) this]
    note sw = tick_switch_spec [OF sched_at_queue [OF ct(1)], of sp]
    define u where "u = snd (tick_switch sp (count_tick v))"
    define t where "t = yield_switch (scheduler_tick s)"
    have regs: "p_registers (proc t z) = p_registers (proc s z)" for z
      by (simp add: t_def ds(6) st(2))
    have call: "preempt_handler sp s = Some (tick_switch sp (count_tick v))"
      using x True sw(10) by (simp add: ph v Let_def)
    have q: "fst (tick_switch sp (count_tick v)) = (if xs \<noteq> [] then rsp (p_registers (proc t (hd xs))) else sp)"
      unfolding sw(3) by (simp add: regs ct(2) v(2))
    have "preempt_handler sp s = Some (if xs \<noteq> [] then rsp (p_registers (proc t (hd xs))) else sp, u)"
      unfolding call u_def q [symmetric] by simp
    moreover have "lockstep x sp t u"
      unfolding t_def u_def using x(1) by (intro switches_lockstep same) (simp add: st(5))
    then have "scheduler u = scheduler t" "\<forall>z. proc u z = (if z = x
      then (proc t z)\<lparr>p_registers := (p_registers (proc t z))\<lparr>rsp := sp\<rparr>\<rparr> else proc t z)"
      by (simp_all add: lockstep_def stack_saved_def)
    moreover have "hw_trace u = hw_trace s @ [Out 0x20 0x20]" "hw_trace t = hw_trace s" "need_reschedule t = 1"
      "total_ticks (scheduler t) = total_ticks (scheduler s) + 1"
      unfolding u_def t_def using True by (simp_all add: sw(8) ct(5) v(4) ds st)
    moreover have "do_schedule switch (scheduler_tick s) = (if xs \<noteq> [] then switch x (hd xs) t else t)" for switch
      by (simp add: ds(1) t_def)
    moreover have "sched_at (xs @ [x]) t" unfolding t_def by (rule ds(2))
    ultimately show ?thesis using True regs by (intro exI [of _ u] exI [of _ t] exI) simp
  qed
qed

definition demo_last_tick :: sched where
  "demo_last_tick = upd_proc 0x100 (\<lambda>t. t\<lparr>p_time_slice_remaining := 1\<rparr>) demo_sched"

lemma demo_last_tick_at: "sched_at [0x100, 0x200] demo_last_tick"
  by (simp add: demo_last_tick_def sched_at_def queue_wf_def)

theorem tick_then_yield_witness:
  "\<exists>u t. preempt_handler 0x9000 demo_last_tick = Some (0, u) \<and>
     do_schedule (\<lambda>a b s. s\<lparr>hw_trace := [Out (ucast a) 0, Out (ucast b) 0]\<rparr>) (scheduler_tick demo_last_tick)
       = t\<lparr>hw_trace := [Out 0x100 0, Out 0x200 0]\<rparr> \<and>
     scheduler u = scheduler t \<and> sched_at [0x200, 0x100] t \<and> proc u 0x200 = proc t 0x200 \<and>
     rsp (p_registers (proc t 0x100)) = 0 \<and> rsp (p_registers (proc u 0x100)) = 0x9000"
proof -
  have regs: "p_registers (proc demo_last_tick z) = zero_regs" for z
    by (simp add: demo_last_tick_def zero_process_def)
  have "p_time_slice_remaining (proc demo_last_tick 0x100) = 1" by (simp add: demo_last_tick_def)
  with tick_then_yield [OF demo_last_tick_at, of "0x9000"] obtain u t where
    "preempt_handler 0x9000 demo_last_tick = Some (0, u)" "scheduler u = scheduler t" "sched_at [0x200, 0x100] t"
    "\<forall>switch. do_schedule switch (scheduler_tick demo_last_tick) = switch 0x100 0x200 t"
    "\<forall>z. proc u z = (if z = 0x100
      then (proc t z)\<lparr>p_registers := (p_registers (proc t z))\<lparr>rsp := 0x9000\<rparr>\<rparr> else proc t z)"
    "\<forall>z. p_registers (proc t z) = zero_regs"
    by (auto simp: regs zero_regs_def)
  then show ?thesis by (intro exI [of _ u] exI [of _ t]) (simp add: zero_regs_def)
qed

text \<open>The percentages of the summary wrap around at 42949673 ticks, after five days at 100 Hz.\<close>

lemma percent_wraps: "percent 42949672 42949672 = 100" "percent 42949673 42949673 = 0"
  by (simp_all add: percent_def)

end
