(* ===== verification/Process.thy ===== *)
theory Process
  imports Scheduling
begin

text \<open>
  Creation and removal of processes (\<open>process_create\<close>, \<open>process_kill\<close> and the two string helpers of
  \<open>kernel/proc/process.c\<close>). A control block and the two stacks of a process are blocks of the
  kernel heap; the stacks are bytes of \<open>mem8\<close>, the control blocks are kept by address in \<open>proc\<close>.
\<close>

definition PROCESS_STACK_SIZE :: u64 where "PROCESS_STACK_SIZE = 8192"
definition DEFAULT_PRIORITY :: u32 where "DEFAULT_PRIORITY = 128"

text \<open>\<open>sizeof(process_t)\<close> and \<open>sizeof(proc->name)\<close>.\<close>

definition PROCESS_T_SIZE :: u64 where "PROCESS_T_SIZE = 256"
definition PROCESS_NAME_SIZE :: u64 where "PROCESS_NAME_SIZE = 32"

subsection \<open>Names\<close>

text \<open>
  A C string argument is the list of its characters before the terminator. The loop copies up to
  \<open>n\<close> of them and no terminator; only the last cell of the destination is always cleared.
\<close>

primrec strncpy_loop :: "nat \<Rightarrow> char_array \<Rightarrow> string \<Rightarrow> u64 \<Rightarrow> char_array" where
  "strncpy_loop i dest [] n = dest"
| "strncpy_loop i dest (c # src) n =
     (if i < unat n \<and> c \<noteq> CHR 0x00 then strncpy_loop (Suc i) (dest(i := c)) src n else dest)"

definition strncpy_safe :: "char_array \<Rightarrow> string \<Rightarrow> u64 \<Rightarrow> char_array" where
  "strncpy_safe dest src n = (strncpy_loop 0 dest src n)(unat (n - 1) := CHR 0x00)"

text \<open>The prefix, the digits of the number (least significant first), and the digits backwards.\<close>

primrec snprintf_prefix :: "nat \<Rightarrow> char_array \<Rightarrow> string \<Rightarrow> u64 \<Rightarrow> nat \<times> char_array" where
  "snprintf_prefix i buf [] sz = (i, buf)"
| "snprintf_prefix i buf (c # p) sz =
     (if i < unat (sz - 1) \<and> c \<noteq> CHR 0x00 then snprintf_prefix (Suc i) (buf(i := c)) p sz else (i, buf))"

function snprintf_digits :: "u32 \<Rightarrow> u32 list" where
  "snprintf_digits temp = (if 0 < temp then (temp mod 10) # snprintf_digits (temp div 10) else [])"
  by pat_completeness auto
termination
proof (relation "measure unat")
  show "(temp div 10, temp) \<in> measure unat" if "0 < temp" for temp :: u32
  proof -
    from that have "0 < unat temp" by (simp add: unat_gt_0)
    then show ?thesis by (simp add: unat_div_distrib)
  qed
qed simp

declare snprintf_digits.simps [simp del]

primrec snprintf_number :: "nat \<Rightarrow> char_array \<Rightarrow> u32 list \<Rightarrow> u64 \<Rightarrow> nat \<times> char_array" where
  "snprintf_number i buf [] sz = (i, buf)"
| "snprintf_number i buf (d # ds) sz =
     (if i < unat (sz - 1) then snprintf_number (Suc i) (buf(i := char_of (48 + unat d))) ds sz else (i, buf))"

text \<open>The format string is ignored; the result is the index of the terminator and the buffer.\<close>

definition snprintf_safe :: "char_array \<Rightarrow> u64 \<Rightarrow> string \<Rightarrow> u32 \<Rightarrow> nat \<times> char_array" where
  "snprintf_safe buf sz fmt val =
     (let (i, buf) = snprintf_prefix 0 buf ''proc_'' sz;
          digits = (if val = 0 then [0] else snprintf_digits val);
          (i, buf) = snprintf_number i buf (rev digits) sz
      in (i, buf(i := CHR 0x00)))"

subsection \<open>Creation\<close>

text \<open>\<open>stack--; *stack = v\<close>.\<close>

definition push_word :: "u64 \<Rightarrow> u64 \<times> (u64 \<Rightarrow> u8) \<Rightarrow> u64 \<times> (u64 \<Rightarrow> u8)" where
  "push_word v = (\<lambda>(stack, m). (stack - 8, store64 (stack - 8) v m))"

text \<open>
  What \<open>iretq\<close> pops (\<open>SS\<close>, \<open>RSP\<close>, \<open>RFLAGS\<close>, \<open>CS\<close>, \<open>RIP\<close>, pushed in this order), then the interrupt
  number, the error code and the fifteen registers that the interrupt stub restores.
\<close>

definition initial_frame :: "u64 \<Rightarrow> u64 \<Rightarrow> u64 list" where
  "initial_frame stack_top entry =
     [0x10, stack_top, 0x202, 0x08, entry,
      0, 0,
      0, 0, 0, 0, 0, 0, 0,
      0, 0, 0, 0, 0, 0, 0, 0]"

definition init_block :: "u64 \<Rightarrow> string option \<Rightarrow> u32 \<Rightarrow> 'a sched_scheme \<Rightarrow> 'a sched_scheme" where
  "init_block p name priority s =
     (let s = upd_proc p (\<lambda>t. t\<lparr>p_pid := next_pid (scheduler s)\<rparr>) s;
          s = upd_sched (\<lambda>c. c\<lparr>next_pid := next_pid c + 1\<rparr>) s;
          cur = current_process (scheduler s);
          s = upd_proc p (\<lambda>t. t\<lparr>p_parent_pid := (if cur \<noteq> 0 then p_pid (proc s cur) else 0)\<rparr>) s;
          s = (case name of
                 Some str \<Rightarrow> upd_proc p (\<lambda>t. t\<lparr>p_name := strncpy_safe (p_name t) str PROCESS_NAME_SIZE\<rparr>) s
               | None \<Rightarrow> upd_proc p (\<lambda>t. t\<lparr>p_name :=
                   snd (snprintf_safe (p_name t) PROCESS_NAME_SIZE ''proc_%u'' (p_pid t))\<rparr>) s);
          s = upd_proc p (\<lambda>t. t\<lparr>p_state := PROCESS_READY\<rparr>) s;
          s = upd_proc p (\<lambda>t. t\<lparr>p_priority := priority\<rparr>) s;
          s = upd_proc p (\<lambda>t. t\<lparr>p_time_slice_remaining := TIME_SLICE_TICKS\<rparr>) s;
          s = upd_proc p (\<lambda>t. t\<lparr>p_total_ticks := 0\<rparr>) s
      in upd_proc p (\<lambda>t. t\<lparr>p_wake_time := 0\<rparr>) s)"

definition init_stack :: "u64 \<Rightarrow> u64 \<Rightarrow> 'a sched_scheme \<Rightarrow> 'a sched_scheme" where
  "init_stack p entry s =
     (let s = upd_proc p (\<lambda>t. t\<lparr>p_kernel_stack_top := p_kernel_stack t + PROCESS_STACK_SIZE\<rparr>) s;
          stack_top = p_kernel_stack_top (proc s p);
          (stack, m) = fold push_word (initial_frame stack_top entry) (stack_top, mem8 s);
          s = s\<lparr>mem8 := m\<rparr>;
          s = upd_proc p (\<lambda>t. t\<lparr>p_registers := (p_registers t)\<lparr>rsp := stack\<rparr>\<rparr>) s;
          s = upd_proc p (\<lambda>t. t\<lparr>p_registers := (p_registers t)\<lparr>rbp := p_kernel_stack_top t\<rparr>\<rparr>) s;
          s = upd_proc p (\<lambda>t. t\<lparr>p_registers := (p_registers t)\<lparr>rip := entry\<rparr>\<rparr>) s;
          s = upd_proc p (\<lambda>t. t\<lparr>p_registers := (p_registers t)\<lparr>rflags := 0x202\<rparr>\<rparr>) s
      in upd_proc p (\<lambda>t. t\<lparr>p_page_table := 0\<rparr>) s)"

text \<open>The two lines of an error message.\<close>

definition sched_error :: "string \<Rightarrow> 'a sched_scheme \<Rightarrow> 'a sched_scheme" where
  "sched_error msg s = vga_print (line '''') VGA_COLOR_WHITE (vga_print msg VGA_COLOR_LIGHT_RED s)"

definition created_message :: "u64 \<Rightarrow> 'a sched_scheme \<Rightarrow> 'a sched_scheme" where
  "created_message p s =
     (let c = VGA_COLOR_LIGHT_CYAN;
          s = vga_print ''[SCHED] Created process: '' c s;
          s = vga_print (proc_name (proc s p)) c s;
          s = vga_print '' (PID: '' c s;
          s = vga_print_int (p_pid (proc s p)) c s;
          s = vga_print '')'' c s
      in vga_print (line '''') VGA_COLOR_WHITE s)"

text \<open>The second half of \<open>process_create\<close>, from the allocation of the stacks on.\<close>

definition give_stacks :: "u64 \<Rightarrow> u64 \<Rightarrow> 'a sched_scheme \<Rightarrow> (u64 \<times> 'a sched_scheme) option" where
  "give_stacks p entry s =
     (case kmalloc PROCESS_STACK_SIZE s of None \<Rightarrow> None | Some (ks, s) \<Rightarrow>
        (let s = upd_proc p (\<lambda>t. t\<lparr>p_kernel_stack := ks\<rparr>) s
         in if ks = 0 then Some (0, sched_error ''[ERR] Failed to allocate kernel stack'' (kfree p s))
         else (case kmalloc PROCESS_STACK_SIZE s of None \<Rightarrow> None | Some (us, s) \<Rightarrow>
           (let s = upd_proc p (\<lambda>t. t\<lparr>p_user_stack := us\<rparr>) s
            in if us = 0 then
                 (let s = kfree (p_kernel_stack (proc s p)) s;
                      s = kfree p s
                  in Some (0, sched_error ''[ERR] Failed to allocate user stack'' s))
               else
                 (let s = init_stack p entry s;
                      s = queue_enqueue p s;
                      s = upd_sched (\<lambda>c. c\<lparr>process_count := process_count c + 1\<rparr>) s;
                      s = created_message p s
                  in Some (p, s))))))"

definition process_create ::
  "string option \<Rightarrow> u64 \<Rightarrow> u32 \<Rightarrow> 'a sched_scheme \<Rightarrow> (u64 \<times> 'a sched_scheme) option" where
  "process_create name entry priority s =
     (if MAX_PROCESSES \<le> process_count (scheduler s)
      then Some (0, sched_error ''[ERR] Max processes reached'' s)
      else (case kmalloc PROCESS_T_SIZE s of None \<Rightarrow> None | Some (p, s) \<Rightarrow>
        if p = 0 then Some (0, sched_error ''[ERR] Failed to allocate process'' s)
        else give_stacks p entry (init_block p name priority s)))"

subsection \<open>Removal\<close>

text \<open>The state and the links of the process to remove, before its memory is released.\<close>

definition unlink_process :: "u64 \<Rightarrow> 'a sched_scheme \<Rightarrow> 'a sched_scheme" where
  "unlink_process p s =
     (let s = upd_proc p (\<lambda>t. t\<lparr>p_state := PROCESS_TERMINATED\<rparr>) s;
          s = (if p_prev (proc s p) \<noteq> 0
               then upd_proc (p_prev (proc s p)) (\<lambda>t. t\<lparr>p_next := p_next (proc s p)\<rparr>) s else s);
          s = (if p_next (proc s p) \<noteq> 0
               then upd_proc (p_next (proc s p)) (\<lambda>t. t\<lparr>p_prev := p_prev (proc s p)\<rparr>) s else s);
          s = (if ready_queue_head (scheduler s) = p
               then upd_sched (\<lambda>c. c\<lparr>ready_queue_head := p_next (proc s p)\<rparr>) s else s)
      in if ready_queue_tail (scheduler s) = p
         then upd_sched (\<lambda>c. c\<lparr>ready_queue_tail := p_prev (proc s p)\<rparr>) s else s)"

definition process_kill :: "u64 \<Rightarrow> 'a sched_scheme \<Rightarrow> 'a sched_scheme" where
  "process_kill p s =
     (if p = 0 then s
      else
        (let s = unlink_process p s;
             s = (if p_kernel_stack (proc s p) \<noteq> 0 then kfree (p_kernel_stack (proc s p)) s else s);
             s = (if p_user_stack (proc s p) \<noteq> 0 then kfree (p_user_stack (proc s p)) s else s);
             s = kfree p s
         in upd_sched (\<lambda>c. c\<lparr>process_count := process_count c - 1\<rparr>) s))"

end
