(* ===== verification/Heap_Client.thy ===== *)
theory Heap_Client
  imports Process
begin

text \<open>
  The kernel heap as the process code uses it: the code's own writes (control blocks, scheduler,
  screen, and the bytes of blocks it owns) leave the heap in order, and an allocation leaves
  control blocks and scheduler alone.
\<close>

subsection \<open>States with the same heap\<close>

definition heap_eq :: "'a kheap_scheme \<Rightarrow> 'a kheap_scheme \<Rightarrow> bool" where
  "heap_eq s t \<longleftrightarrow> mem8 t = mem8 s \<and> bitmap t = bitmap s \<and> total_pages t = total_pages s \<and>
     used_pages t = used_pages s \<and> heap_start t = heap_start s \<and> total_heap_size t = total_heap_size s \<and>
     used_heap_size t = used_heap_size s"

lemma heap_eq_refl [simp, intro]: "heap_eq s s"
  by (simp add: heap_eq_def)

lemma heap_eq_trans: "heap_eq s t \<Longrightarrow> heap_eq t u \<Longrightarrow> heap_eq s u"
  by (simp add: heap_eq_def)

lemma heap_eq_same:
  assumes "heap_eq s t"
  shows "heap_ok t = heap_ok s" "heap_live t = heap_live s" "heap_solo t = heap_solo s" "mem8 t = mem8 s"
    "heap_blocks t = heap_blocks s" "free_pfns t = free_pfns s"
proof -
  note e = assms [unfolded heap_eq_def]
  show b: "heap_blocks t = heap_blocks s" by (simp add: heap_blocks_def e)
  have "heap_inv bs t = heap_inv bs s" for bs by (rule heap_inv_same) (simp_all add: e)
  then show "heap_ok t = heap_ok s" by (simp add: heap_ok_def b)
  show "heap_live t = heap_live s" by (simp add: heap_live_def b e)
  show f: "free_pfns t = free_pfns s" by (rule pool_cong(4)) (simp_all add: e)
  show "heap_solo t = heap_solo s" by (rule heap_solo_cong [OF f]) (simp_all add: e)
  show "mem8 t = mem8 s" by (simp add: e)
qed

lemma heap_eq_steps [simp]:
  "heap_eq s (upd_proc p f s)" "heap_eq s (upd_sched g s)" "heap_eq s (vga_print cs c s)"
  "heap_eq s (vga_print_int v c s)" for s :: "'a sched_scheme"
  by (simp_all add: heap_eq_def upd_proc_def upd_sched_def
      vga_frame_sched [OF vga_print_frame] vga_frame_sched [OF vga_print_int_frame])

lemma queue_frame_heap: "queue_frame s t \<Longrightarrow> heap_eq s t"
  by (auto simp: queue_frame_def heap_eq_def)

lemma heap_eq_queue [simp]: "heap_eq s (queue_enqueue p s)" "heap_eq s (snd (queue_dequeue s))"
  by (intro queue_frame_heap queue_enqueue_frame queue_dequeue_frame)+

lemmas heap_same [simp] = heap_eq_same [OF heap_eq_steps(1)] heap_eq_same [OF heap_eq_steps(2)]
  heap_eq_same [OF heap_eq_steps(3)] heap_eq_same [OF heap_eq_steps(4)] heap_eq_same [OF heap_eq_queue(1)]

subsection \<open>Writing into a block\<close>

text \<open>The owner of a block may store anything in its bytes.\<close>

lemma heap_data_write:
  fixes s t :: "'a kheap_scheme"
  assumes ok: "heap_ok s" and q: "heap_live s q = Some j"
    and m: "\<And>x. x \<notin> bytes_at q (unat j) \<Longrightarrow> mem8 t x = mem8 s x"
    and t: "bitmap t = bitmap s" "total_pages t = total_pages s" "used_pages t = used_pages s"
      "heap_start t = heap_start s" "total_heap_size t = total_heap_size s"
  shows "heap_ok t" "heap_live t = heap_live s" "heap_solo t = heap_solo s" "heap_blocks t = heap_blocks s"
    "free_pfns t = free_pfns s"
proof -
  let ?a = "heap_start s"
  obtain xs ys where bs: "heap_blocks s = xs @ (j, False) # ys" "q = addr_after ?a xs + 32"
    using live_split [OF q [unfolded heap_live_def]] by blast
  have inv: "heap_inv (xs @ (j, False) # ys) s" using ok bs(1) by (simp add: heap_ok_def)
  then have I: "blocks_at (mem8 s) 0 ?a (xs @ (j, False) # ys) 0"
    "unat ?a + extent (xs @ (j, False) # ys) < 2 ^ 64"
    "heap_apart s ?a (extent (xs @ (j, False) # ys))"
    by (simp_all only: heap_inv_def)
  note u = addr_after_middle [OF I(2)]
  have same: "mem8 t x = mem8 s x" if "unat x < unat (addr_after ?a xs) + 32 \<or>
      unat (addr_after ?a xs) + 32 + unat j \<le> unat x" for x
    by (rule m) (use that u(1,2) in \<open>auto simp: bytes_at_def bs(2)\<close>)
  have front: "blocks_at (mem8 t) 0 ?a xs n = blocks_at (mem8 s) 0 ?a xs n" for n
    by (rule blocks_at_cong) (use I(2) u(1) in \<open>auto intro!: same simp: bytes_at_def\<close>)
  have header: "read_header (mem8 t) (addr_after ?a xs) = read_header (mem8 s) (addr_after ?a xs)"
    by (rule read_header_cong) (use I(2) u(1) in \<open>auto intro!: same simp: bytes_at_def\<close>)
  have rear: "blocks_at (mem8 t) p (addr_after ?a xs + 32 + j) ys n =
      blocks_at (mem8 s) p (addr_after ?a xs + 32 + j) ys n" for p n
    by (rule blocks_at_cong) (use I(2) u in \<open>auto intro!: same simp: bytes_at_def\<close>)
  have blk: "blocks_at (mem8 t) 0 ?a (xs @ (j, False) # ys) 0"
    using I(1) by (simp add: front header rear)
  have "bytes_at q (unat j) \<subseteq> bytes_at ?a (extent (xs @ (j, False) # ys))"
    using u by (auto simp: bytes_at_def bs(2))
  then have cells: "\<forall>x\<in>bitmap_cells s. mem8 t x = mem8 s x"
    using I(3) by (auto simp: heap_apart_def intro!: m)
  note pc = pool_cong [OF t(1-3) cells]
  have "heap_inv (xs @ (j, False) # ys) t"
    using inv blk unfolding heap_inv_def t pc by blast
  note inv_t = this heap_okI [OF this]
  show "heap_ok t" using inv_t by simp
  show "heap_blocks t = heap_blocks s" using inv_t bs(1) by simp
  then show "heap_live t = heap_live s" using t(4) by (simp add: heap_live_def)
  show "free_pfns t = free_pfns s" by (rule pc(4))
  then show "heap_solo t = heap_solo s" by (rule heap_solo_cong [OF _ t(4,5)])
qed

subsection \<open>Allocating under the scheduler\<close>

lemma kheap_frame_sched:
  assumes "kheap_frame s (t :: 'a sched_scheme)"
  shows "proc t = proc s" "scheduler t = scheduler s" "need_reschedule t = need_reschedule s"
proof -
  have "kheap.more t = kheap.more s" using assms by (simp add: kheap_frame_def)
  then show "proc t = proc s" "scheduler t = scheduler s" "need_reschedule t = need_reschedule s"
    by (cases s, cases t, simp)+
qed

lemmas kmalloc_sched = kheap_frame_sched [OF kmalloc_frame]
lemmas kfree_sched [simp] = kheap_frame_sched [OF kfree_frame]

text \<open>One allocation, with all that the process code needs to know of it.\<close>

definition new_block :: "u64 \<Rightarrow> u64 \<Rightarrow> 'a sched_scheme \<Rightarrow> 'a sched_scheme \<Rightarrow> bool" where
  "new_block n p s t \<longleftrightarrow> heap_live s p = None \<and> 8 dvd unat p \<and>
     (\<exists>k\<ge>n. heap_live t = (heap_live s)(p \<mapsto> k)) \<and> (\<forall>q k. heap_live s q = Some k \<longrightarrow>
       heap_live t q = Some k \<and> bytes_at p (unat n) \<inter> bytes_at q (unat k) = {})"

lemma kmalloc_client:
  fixes s :: "'a sched_scheme"
  assumes ok: "heap_ok s" "heap_solo s" and n: "unat n < 2 ^ 63"
  shows "\<exists>p t. kmalloc n s = Some (p, t) \<and> heap_ok t \<and> heap_solo t \<and> proc t = proc s \<and>
    scheduler t = scheduler s \<and> need_reschedule t = need_reschedule s \<and>
    (\<forall>q k x. heap_live s q = Some k \<longrightarrow> x \<in> bytes_at q (unat k) \<longrightarrow> mem8 t x = mem8 s x) \<and>
    (if p = 0 then heap_live t = heap_live s else new_block n p s t)"
proof -
  obtain p t where t: "kmalloc n s = Some (p, t)" "heap_ok t" "heap_solo t"
    using kmalloc_solo(2) [OF ok n] by blast
  note ready = kmalloc_solo(1) [OF ok n]
  note sched = kmalloc_sched [OF t(1)]
  have data: "\<forall>q k x. heap_live s q = Some k \<longrightarrow> x \<in> bytes_at q (unat k) \<longrightarrow> mem8 t x = mem8 s x"
    using hp.malloc_byte [OF ok(1) ready t(1)] by blast
  have "new_block n p s t" if p: "p \<noteq> 0"
  proof -
    have "8 dvd unat p" using kmalloc_contract_of(3) [OF ok(1) ready t(1)] p by simp
    moreover note hp.malloc_new [OF ok(1) ready t(1) p] hp.malloc_apart [OF ok(1) ready t(1) p]
    ultimately show ?thesis by (simp add: new_block_def)
  qed
  moreover have "heap_live t = heap_live s" if "p = 0"
    using hp.malloc_null [OF ok(1) ready] t(1) that by blast
  ultimately show ?thesis using t sched data by auto
qed

text \<open>A free block that is large enough is room for an allocation, and the rest of it stays free.\<close>

lemma kmalloc_room:
  fixes s :: "'a sched_scheme"
  assumes ok: "heap_ok s" "heap_solo s" and n: "n \<noteq> 0" "8 dvd unat n" "unat n < 2 ^ 62"
    and k: "(k, True) \<in> set (heap_blocks s)" "unat n + 48 \<le> unat k"
  shows "\<exists>p t j. kmalloc n s = Some (p, t) \<and> p \<noteq> 0 \<and> (j, True) \<in> set (heap_blocks t) \<and> unat k - unat n - 32 \<le> unat j"
proof -
  have small: "unat n < 2 ^ 63" using n(3) by simp
  have "unat (align_up n 8) = (unat n + 7) div 8 * 8"
    using align_up_spec [of 3 n] small by simp
  also have "\<dots> = unat n" using n(2) by (auto elim!: dvdE)
  finally have al: "align_up n 8 = n" by (simp add: word_unat_eq_iff)
  have grow: "grows_in_place (align_up n 8 + 32) s"
    using kmalloc_solo(1) [OF ok small] by (simp add: kheap_ready_def)
  have "n \<le> k" using k(2) by (simp add: word_le_nat_alt)
  then have "bl_fit n (heap_blocks s) \<noteq> None" using k(1) bl_fit_None [of n "heap_blocks s"] by auto
  then obtain xs j ys where fit: "bl_fit n (heap_blocks s) = Some (xs, j, ys)" by (cases "bl_fit n (heap_blocks s)") auto
  note bs = bl_fit_Some [OF fit]
  obtain p t where t: "kmalloc n s = Some (p, t)" "p \<noteq> 0" "heap_blocks t = xs @ bl_cut n j @ ys"
    using kmalloc_spec [OF ok(1) n(1) small grow] unfolding al fit by auto
  show ?thesis
  proof (cases "(k, True) \<in> set xs \<union> set ys")
    case True
    then show ?thesis using t by (intro exI [of _ p] exI [of _ t] exI [of _ k]) auto
  next
    case False
    then have "j = k" using k(1) bs(1) by auto
    have "unat (k - n - 32) = unat k - unat n - 32"
      using k(2) by (simp add: unat_sub_exact word_le_nat_alt)
    moreover have "(k - n - 32, True) \<in> set (bl_cut n k)"
      using k(2) \<open>n \<le> k\<close> n(3) by (simp add: bl_cut_def)
    ultimately show ?thesis using t \<open>j = k\<close> by (intro exI [of _ p] exI [of _ t] exI [of _ "k - n - 32"]) auto
  qed
qed

end
