(* ===== verification/Process_Create.thy ===== *)
theory Process_Create
  imports Heap_Client
begin

text \<open>
  What \<open>process_create\<close> does: the name in the control block, the frame on the new stack, the three
  blocks of the heap, and the queue; and that a failure leaves nothing behind.
\<close>

subsection \<open>Names\<close>

text \<open>What the copy loop leaves in the buffer: the characters copied, then what was there.\<close>

lemma strncpy_loop_eq:
  "strncpy_loop i dest src n j =
    (if i \<le> j \<and> j < unat n \<and> j - i < length (takeWhile (\<lambda>c. c \<noteq> CHR 0x00) src) then src ! (j - i) else dest j)"
proof (induction src arbitrary: i dest j)
  case Nil
  then show ?case by simp
next
  case (Cons c src)
  show ?case
  proof (cases "i < unat n \<and> c \<noteq> CHR 0x00")
    case True
    then show ?thesis
      by (cases "j = i"; cases "i \<le> j") (auto simp: Cons.IH nth_Cons' Suc_diff_le less_diff_conv)
  next
    case False
    then show ?thesis by auto
  qed
qed

lemma c_str_map: "c_str n buf = takeWhile (\<lambda>c. c \<noteq> CHR 0x00) (map buf [0..<n])"
  by (simp add: c_str_def)

subsection \<open>The first frame of a stack\<close>

lemma push_words:
  fixes a :: u64 and m :: "u64 \<Rightarrow> u8"
  assumes "8 * length ws < 2 ^ 60"
  defines "b \<equiv> a - 8 * word_of_nat (length ws)" and "m' \<equiv> snd (fold push_word ws (a, m))"
  shows "fst (fold push_word ws (a, m)) = b"
    "\<And>x. 8 * length ws \<le> unat (x - b) \<Longrightarrow> m' x = m x"
    "\<And>k. k < length ws \<Longrightarrow> load64 m' (b + 8 * word_of_nat k) = rev ws ! k"
proof -
  have "fst (fold push_word ws (a, m)) = a - 8 * word_of_nat (length ws) \<and>
    (\<forall>x. 8 * length ws \<le> unat (x - (a - 8 * word_of_nat (length ws))) \<longrightarrow> snd (fold push_word ws (a, m)) x = m x) \<and>
    (\<forall>k<length ws. load64 (snd (fold push_word ws (a, m))) (a - 8 * word_of_nat (length ws) + 8 * word_of_nat k) = rev ws ! k)"
    using assms(1)
  proof (induction ws rule: rev_induct)
    case Nil
    then show ?case by simp
  next
    case (snoc w ws)
    define c where "c = a - 8 * word_of_nat (length ws)"
    define m1 where "m1 = snd (fold push_word ws (a, m))"
    have IH: "fst (fold push_word ws (a, m)) = c" "\<And>x. 8 * length ws \<le> unat (x - c) \<Longrightarrow> m1 x = m x"
      "\<And>k. k < length ws \<Longrightarrow> load64 m1 (c + 8 * word_of_nat k) = rev ws ! k"
      using snoc by (simp_all add: c_def m1_def)
    have step: "fold push_word (ws @ [w]) (a, m) = (c - 8, store64 (c - 8) w m1)"
      using IH(1) by (simp add: push_word_def m1_def split_def)
    have base: "a - 8 * word_of_nat (length (ws @ [w])) = c - 8" by (simp add: c_def algebra_simps)
    have "store64 (c - 8) w m1 x = m x" if x: "8 * length (ws @ [w]) \<le> unat (x - (c - 8))" for x
    proof -
      have "8 \<le> unat (x - (c - 8))" using x by simp
      then have "unat (x - (c - 8) - 8) = unat (x - (c - 8)) - 8"
        by (subst unat_sub_exact) (simp_all add: word_le_nat_alt)
      then have "8 * length ws \<le> unat (x - c)" using x by (simp add: algebra_simps)
      then show ?thesis using IH(2) x by (simp add: store64_byte)
    qed
    moreover have "load64 (store64 (c - 8) w m1) (c - 8 + 8 * word_of_nat k) = rev (ws @ [w]) ! k"
      if k: "k < length (ws @ [w])" for k
    proof (cases k)
      case 0
      then show ?thesis by simp
    next
      case (Suc j)
      have d: "unat (8 * word_of_nat k :: u64) = 8 * k"
        using k snoc.prems by (simp add: unat_word_ariths unat_of_nat)
      have "(c - 8) - (c - 8 + 8 * word_of_nat k) = 0 - 8 * word_of_nat k" by simp
      moreover have "0 < k" using Suc by simp
      ultimately have "unat ((c - 8) - (c - 8 + 8 * word_of_nat k)) = 2 ^ 64 - 8 * k"
        by (simp only: unat_sub_if_size d) (simp add: word_size)
      moreover have "unat ((c - 8 + 8 * word_of_nat k) - (c - 8)) = 8 * k" using d by simp
      ultimately have "load64 (store64 (c - 8) w m1) (c - 8 + 8 * word_of_nat k) =
          load64 m1 (c - 8 + 8 * word_of_nat k)"
        using Suc k snoc.prems by (intro load_store_apart) simp_all
      also have "c - 8 + 8 * word_of_nat k = c + 8 * word_of_nat j" by (simp add: Suc algebra_simps)
      finally show ?thesis using IH(3) [of j] k Suc by simp
    qed
    ultimately show ?case by (simp only: step base fst_conv snd_conv) blast
  qed
  then show "fst (fold push_word ws (a, m)) = b"
    "\<And>x. 8 * length ws \<le> unat (x - b) \<Longrightarrow> m' x = m x"
    "\<And>k. k < length ws \<Longrightarrow> load64 m' (b + 8 * word_of_nat k) = rev ws ! k"
    by (simp_all add: b_def m'_def)
qed

lemma initial_frame_length [simp]: "length (initial_frame a e) = 22"
  by (simp add: initial_frame_def)

text \<open>The frame as the interrupt stub finds it, from the saved stack pointer up.\<close>

definition frame_at :: "(u64 \<Rightarrow> u8) \<Rightarrow> u64 \<Rightarrow> u64 \<Rightarrow> u64 \<Rightarrow> bool" where
  "frame_at m sp stack_top entry \<longleftrightarrow> sp = stack_top - 176 \<and>
     (\<forall>k<17. load64 m (sp + 8 * word_of_nat k) = 0) \<and>
     load64 m (sp + 136) = entry \<and> load64 m (sp + 144) = 0x08 \<and> load64 m (sp + 152) = 0x202 \<and>
     load64 m (sp + 160) = stack_top \<and> load64 m (sp + 168) = 0x10"

lemma initial_frame_at:
  "frame_at (snd (fold push_word (initial_frame a e) (a, m))) (fst (fold push_word (initial_frame a e) (a, m))) a e"
proof -
  note pw = push_words [where ws = "initial_frame a e" and a = a and m = m]
  let ?sp = "fst (fold push_word (initial_frame a e) (a, m))" and ?m = "snd (fold push_word (initial_frame a e) (a, m))"
  have sp: "?sp = a - 176" using pw(1) by simp
  have ld: "load64 ?m (?sp + 8 * word_of_nat k) = rev (initial_frame a e) ! k" if "k < 22" for k
    using pw(1,3) that by simp
  have "rev (initial_frame a e) ! k = 0" if "k < 17" for k
    using that by (auto simp: initial_frame_def less_Suc_eq numeral_eq_Suc)
  moreover have "rev (initial_frame a e) ! 17 = e" "rev (initial_frame a e) ! 18 = 0x08"
    "rev (initial_frame a e) ! 19 = 0x202" "rev (initial_frame a e) ! 20 = a" "rev (initial_frame a e) ! 21 = 0x10"
    by (simp_all add: initial_frame_def)
  ultimately show ?thesis
    using ld [of 17] ld [of 18] ld [of 19] ld [of 20] ld [of 21] ld sp by (simp add: frame_at_def)
qed

lemma takeWhile_zero: "CHR 0x00 \<notin> set cs \<Longrightarrow>
    takeWhile (\<lambda>c. c \<noteq> CHR 0x00) (cs @ ds) = cs @ takeWhile (\<lambda>c. c \<noteq> CHR 0x00) ds"
  by (induction cs) auto

lemma strncpy_safe_name:
  fixes n :: u64 and src :: string
  assumes "0 < n"
  defines "cs \<equiv> takeWhile (\<lambda>c. c \<noteq> CHR 0x00) src"
  shows "c_str (unat n) (strncpy_safe dest src n) = take (unat n - 1) cs @
      takeWhile (\<lambda>c. c \<noteq> CHR 0x00) (map dest [length cs..<unat n - 1])"
    "\<And>j. unat n \<le> j \<Longrightarrow> strncpy_safe dest src n j = dest j"
proof -
  define N where "N = unat n - 1"
  have n: "unat n = Suc N" "unat (n - 1) = N" using assms(1) by (auto simp: N_def unat_gt_0 unat_minus_one)
  let ?b = "strncpy_safe dest src n"
  have b: "?b j = (if j = N then CHR 0x00 else if j < N \<and> j < length cs then cs ! j else dest j)" for j
    by (auto simp: strncpy_safe_def n strncpy_loop_eq cs_def takeWhile_nth)
  have front: "map ?b [0..<N] = take N cs @ map dest [length cs..<N]"
    by (rule nth_equalityI) (auto simp: b nth_append)
  have nz: "CHR 0x00 \<notin> set (take N cs)"
    by (auto simp: cs_def dest!: in_set_takeD set_takeWhileD)
  have "c_str (unat n) ?b = takeWhile (\<lambda>c. c \<noteq> CHR 0x00) (take N cs @ map dest [length cs..<N] @ [CHR 0x00])"
    by (simp add: c_str_def n front b)
  then show "c_str (unat n) ?b = take (unat n - 1) cs @
      takeWhile (\<lambda>c. c \<noteq> CHR 0x00) (map dest [length cs..<unat n - 1])"
    by (simp add: takeWhile_zero [OF nz] takeWhile_tail n)
  show "?b j = dest j" if "unat n \<le> j" for j using that n by (simp add: b)
qed

text \<open>A string laid over an array.\<close>

definition laid :: "nat \<Rightarrow> string \<Rightarrow> char_array \<Rightarrow> char_array" where
  "laid i q buf = (\<lambda>j. if i \<le> j \<and> j < i + length q then q ! (j - i) else buf j)"

lemma laid_Nil [simp]: "laid i [] buf = buf"
  by (auto simp: laid_def fun_eq_iff)

lemma laid_Cons: "laid i (c # q) buf = laid (Suc i) q (buf(i := c))"
  by (auto simp: laid_def fun_eq_iff nth_Cons' Suc_diff_le)

lemma snprintf_prefix_eq:
  "CHR 0x00 \<notin> set p \<Longrightarrow> snprintf_prefix i buf p sz =
    (i + length (take (unat (sz - 1) - i) p), laid i (take (unat (sz - 1) - i) p) buf)"
  by (induction p arbitrary: i buf) (auto simp: laid_Cons take_Cons' Suc_diff_Suc)

lemma snprintf_number_eq:
  "snprintf_number i buf ds sz =
    (i + length (take (unat (sz - 1) - i) ds),
     laid i (take (unat (sz - 1) - i) (map (\<lambda>d. char_of (48 + unat d)) ds)) buf)"
  by (induction ds arbitrary: i buf) (auto simp: laid_Cons take_Cons' Suc_diff_Suc)

lemma snprintf_digits_eq:
  "map (\<lambda>d. char_of (48 + unat d)) (rev (if v = 0 then [0] else snprintf_digits v)) = dec_string (unat v)"
proof -
  have "map (\<lambda>d. char_of (48 + unat d)) (rev (snprintf_digits v)) = dec_string (unat v)" if "0 < v"
    using that
  proof (induction v rule: snprintf_digits.induct)
    case (1 v)
    have m: "unat (v mod 10) = unat v mod 10" "unat (v div 10) = unat v div 10"
      by (simp_all add: unat_mod_distrib unat_div_distrib)
    show ?case
    proof (cases "unat v < 10")
      case True
      then have "v div 10 = 0" using m(2) by (simp flip: unat_eq_zero)
      then show ?thesis using "1.prems" True m
        by (subst snprintf_digits.simps, subst dec_string.simps)
          (simp add: snprintf_digits.simps [of 0] digit_char_def)
    next
      case False
      then have "0 < unat (v div 10)" using m by simp
      then have pos: "0 < v div 10" by (simp only: unat_gt_0 word_neq_0_conv)
      show ?thesis using "1.IH" [OF "1.prems" pos] "1.prems" False m
        by (subst snprintf_digits.simps, subst dec_string.simps) (simp add: digit_char_def)
    qed
  qed
  moreover have "dec_string 0 = [char_of (48 :: nat)]"
    by (subst dec_string.simps) (simp add: digit_char_def)
  ultimately show ?thesis by (cases "v = 0") (auto simp: word_neq_0_conv)
qed

lemma laid_laid: "laid (i + length p) q (laid i p buf) = laid i (p @ q) buf"
  by (auto simp: laid_def fun_eq_iff nth_append)

lemma snprintf_safe_name:
  fixes sz :: u64 and v :: u32
  assumes "0 < sz"
  defines "cs \<equiv> take (unat sz - 1) (''proc_'' @ dec_string (unat v))"
  shows "snprintf_safe buf sz fmt v = (length cs, (laid 0 cs buf)(length cs := CHR 0x00))"
    "c_str (unat sz) (snd (snprintf_safe buf sz fmt v)) = cs"
proof -
  define N where "N = unat sz - 1"
  have n: "unat sz = Suc N" "unat (sz - 1) = N" using assms(1) by (auto simp: N_def unat_gt_0 unat_minus_one)
  let ?p = "take N ''proc_''" and ?q = "take (N - 5) (dec_string (unat v))"
  have cs: "cs = ?p @ ?q" unfolding cs_def n by (subst take_append) (simp add: eval_nat_numeral)
  let ?ds = "rev (if v = 0 then [0] else snprintf_digits v)"
  have len: "length (take k ?ds) = length (take k (dec_string (unat v)))" for k
    by (metis length_map snprintf_digits_eq take_map)
  have pl: "N - length ?p = N - 5" by simp
  have pre: "snprintf_prefix 0 buf ''proc_'' sz = (length ?p, laid 0 ?p buf)"
    by (subst snprintf_prefix_eq) (simp_all add: n)
  have num: "snprintf_number (length ?p) b ?ds sz = (length ?p + length ?q, laid (length ?p) ?q b)" for b
    unfolding snprintf_number_eq n pl snprintf_digits_eq len ..
  have "snprintf_safe buf sz fmt v =
      (length ?p + length ?q, (laid (length ?p) ?q (laid 0 ?p buf))(length ?p + length ?q := CHR 0x00))"
    by (simp only: snprintf_safe_def Let_def pre num prod.case)
  then show e: "snprintf_safe buf sz fmt v = (length cs, (laid 0 cs buf)(length cs := CHR 0x00))"
    using laid_laid [of 0 ?p ?q buf] by (simp add: cs)
  show "c_str (unat sz) (snd (snprintf_safe buf sz fmt v)) = cs"
  proof (rule c_str_eqI)
    show "length cs < unat sz" by (simp add: cs_def n)
    have "CHR 0x00 \<notin> set (dec_string (unat v))"
      using dec_string_digits [of "CHR 0x00"] digit_char_not_special(1) by metis
    then show "CHR 0x00 \<notin> set cs" by (auto simp: cs_def dest!: in_set_takeD)
  qed (simp_all add: e laid_def)
qed

subsection \<open>The control block and the stack\<close>

text \<open>The name a new process gets: the caller's, cut at 31 characters, or its number.\<close>

definition given_name :: "string option \<Rightarrow> u32 \<Rightarrow> char_array \<Rightarrow> char_array" where
  "given_name nm pid buf = (case nm of
     Some str \<Rightarrow> strncpy_safe buf str PROCESS_NAME_SIZE
   | None \<Rightarrow> snd (snprintf_safe buf PROCESS_NAME_SIZE ''proc_%u'' pid))"

lemma init_block_spec:
  fixes s :: "'a sched_scheme" and p :: u64 and nm :: "string option" and pr :: u32
  defines "t \<equiv> init_block p nm pr s"
  assumes "current_process (scheduler s) \<noteq> p"
  shows "proc t = (proc s)(p := (proc s p)\<lparr>p_pid := next_pid (scheduler s),
      p_parent_pid := (if current_process (scheduler s) \<noteq> 0 then p_pid (proc s (current_process (scheduler s))) else 0),
      p_name := given_name nm (next_pid (scheduler s)) (p_name (proc s p)),
      p_state := PROCESS_READY, p_priority := pr, p_time_slice_remaining := 20, p_total_ticks := 0, p_wake_time := 0\<rparr>)"
    "scheduler t = (scheduler s)\<lparr>next_pid := next_pid (scheduler s) + 1\<rparr>" "heap_eq s t"
proof -
  show "proc t = (proc s)(p := (proc s p)\<lparr>p_pid := next_pid (scheduler s),
      p_parent_pid := (if current_process (scheduler s) \<noteq> 0 then p_pid (proc s (current_process (scheduler s))) else 0),
      p_name := given_name nm (next_pid (scheduler s)) (p_name (proc s p)),
      p_state := PROCESS_READY, p_priority := pr, p_time_slice_remaining := 20, p_total_ticks := 0, p_wake_time := 0\<rparr>)"
    using assms(2) by (simp add: t_def init_block_def given_name_def Let_def TIME_SLICE_TICKS_def split: option.splits)
  show "scheduler t = (scheduler s)\<lparr>next_pid := next_pid (scheduler s) + 1\<rparr>"
    by (simp add: t_def init_block_def Let_def split: option.splits)
  show "heap_eq s t"
    by (simp add: t_def init_block_def Let_def heap_eq_def upd_proc_def upd_sched_def split: option.splits)
qed

lemma init_stack_spec:
  fixes s :: "'a sched_scheme" and p entry :: u64
  defines "t \<equiv> init_stack p entry s" and "a \<equiv> p_kernel_stack (proc s p) + 8192"
  shows "proc t = (proc s)(p := (proc s p)\<lparr>p_kernel_stack_top := a,
      p_registers := (p_registers (proc s p))\<lparr>rsp := a - 176, rbp := a, rip := entry, rflags := 0x202\<rparr>,
      p_page_table := 0\<rparr>)"
    "scheduler t = scheduler s" "frame_at (mem8 t) (a - 176) a entry"
    "\<And>x. 176 \<le> unat (x - (a - 176)) \<Longrightarrow> mem8 t x = mem8 s x"
    "bitmap t = bitmap s" "total_pages t = total_pages s" "used_pages t = used_pages s"
    "heap_start t = heap_start s" "total_heap_size t = total_heap_size s"
proof -
  define f where "f = fold push_word (initial_frame a entry) (a, mem8 s)"
  note pw = push_words [where ws = "initial_frame a entry" and a = a and m = "mem8 s", folded f_def]
  have sp: "fst f = a - 176" using pw(1) by simp
  have f: "f = (a - 176, snd f)" using sp by (simp add: prod_eq_iff)
  have t: "t = upd_proc p (\<lambda>t. t\<lparr>p_page_table := 0\<rparr>)
    (upd_proc p (\<lambda>t. t\<lparr>p_registers := (p_registers t)\<lparr>rflags := 0x202\<rparr>\<rparr>)
    (upd_proc p (\<lambda>t. t\<lparr>p_registers := (p_registers t)\<lparr>rip := entry\<rparr>\<rparr>)
    (upd_proc p (\<lambda>t. t\<lparr>p_registers := (p_registers t)\<lparr>rbp := p_kernel_stack_top t\<rparr>\<rparr>)
    (upd_proc p (\<lambda>t. t\<lparr>p_registers := (p_registers t)\<lparr>rsp := a - 176\<rparr>\<rparr>)
      ((upd_proc p (\<lambda>t. t\<lparr>p_kernel_stack_top := p_kernel_stack t + PROCESS_STACK_SIZE\<rparr>) s)\<lparr>mem8 := snd f\<rparr>)))))"
    unfolding t_def init_stack_def Let_def
    by (simp add: a_def [symmetric] PROCESS_STACK_SIZE_def f_def [symmetric] split_def sp)
  have m: "mem8 t = snd f" by (simp add: t upd_proc_def)
  show "proc t = (proc s)(p := (proc s p)\<lparr>p_kernel_stack_top := a,
      p_registers := (p_registers (proc s p))\<lparr>rsp := a - 176, rbp := a, rip := entry, rflags := 0x202\<rparr>,
      p_page_table := 0\<rparr>)"
    by (simp add: t PROCESS_STACK_SIZE_def a_def)
  show "scheduler t = scheduler s" by (simp add: t)
  show "frame_at (mem8 t) (a - 176) a entry"
    using initial_frame_at [of a entry "mem8 s", folded f_def] by (simp add: m sp)
  show "mem8 t x = mem8 s x" if "176 \<le> unat (x - (a - 176))" for x
    using pw(2) [of x] that by (simp add: m)
  show "bitmap t = bitmap s" "total_pages t = total_pages s" "used_pages t = used_pages s"
    "heap_start t = heap_start s" "total_heap_size t = total_heap_size s"
    by (simp_all add: t upd_proc_def)
qed

text \<open>The frame lies in the stack's block.\<close>

lemma stack_frame_inside:
  assumes "heap_ok s" and "heap_live s ks = Some k" and "8192 \<le> k" and "x \<notin> bytes_at ks (unat k)"
  shows "176 \<le> unat (x - (ks + 8192 - 176))"
proof (rule ccontr)
  assume *: "\<not> 176 \<le> unat (x - (ks + 8192 - 176))"
  define d where "d = unat (x - (ks + 8192 - 176))"
  have "unat ks + unat k \<le> unat (heap_start s) + extent (heap_blocks s)"
    by (rule live_bounds(2)) (use assms(1,2) in \<open>simp_all add: heap_live_def heap_ok_def heap_inv_def\<close>)
  moreover have "unat (heap_start s) + extent (heap_blocks s) < 2 ^ 64"
    using assms(1) by (simp add: heap_ok_def heap_inv_def)
  ultimately have fit: "unat ks + unat k \<le> 2 ^ 64" by simp
  have "x = ks + 8192 - 176 + word_of_nat d" by (simp add: d_def)
  then have x: "x = ks + word_of_nat (8016 + d)" by simp
  have "8016 + d < unat k" using * assms(3) by (simp add: d_def word_le_nat_alt)
  from bytes_atI [OF fit this] assms(4) show False by (simp add: x)
qed

subsection \<open>Heaps that grow by whole blocks\<close>

text \<open>
  \<open>heap_grows B s t\<close>: the live blocks of \<open>t\<close> are those of \<open>s\<close>, with their bytes, and the blocks \<open>B\<close>.
\<close>

definition heap_grows :: "(u64 \<Rightarrow> u64 option) \<Rightarrow> 'a sched_scheme \<Rightarrow> 'a sched_scheme \<Rightarrow> bool" where
  "heap_grows B s t \<longleftrightarrow> heap_ok t \<and> heap_solo t \<and> dom B \<inter> dom (heap_live s) = {} \<and>
     heap_live t = heap_live s ++ B \<and>
     (\<forall>q k x. heap_live s q = Some k \<longrightarrow> x \<in> bytes_at q (unat k) \<longrightarrow> mem8 t x = mem8 s x)"

lemma grows_refl: "heap_ok s \<Longrightarrow> heap_solo s \<Longrightarrow> heap_grows Map.empty s s"
  by (simp add: heap_grows_def)

lemma grows_eq: "heap_grows B s t \<Longrightarrow> heap_eq t u \<Longrightarrow> heap_grows B s u"
  by (simp add: heap_grows_def heap_eq_same)

lemma grows_live: "heap_grows B s t \<Longrightarrow> B q = Some k \<Longrightarrow> heap_live t q = Some k \<and> heap_live s q = None"
  by (auto simp: heap_grows_def map_add_def)

lemma grows_old: "heap_grows B s t \<Longrightarrow> heap_live s q = Some k \<Longrightarrow> heap_live t q = Some k \<and> B q = None"
  by (auto simp: heap_grows_def map_add_def dom_def split: option.splits)

lemma grows_malloc:
  fixes s t :: "'a sched_scheme"
  assumes g: "heap_grows B s t" and n: "unat n < 2 ^ 63"
  shows "\<exists>p u. kmalloc n t = Some (p, u) \<and> proc u = proc t \<and> scheduler u = scheduler t \<and>
    (if p = 0 then heap_grows B s u
     else B p = None \<and> heap_live s p = None \<and> 8 dvd unat p \<and> (\<exists>k\<ge>n. heap_grows (B(p \<mapsto> k)) s u))"
proof -
  have ok: "heap_ok t" "heap_solo t" using g by (simp_all add: heap_grows_def)
  obtain p u where u: "kmalloc n t = Some (p, u)" "heap_ok u" "heap_solo u" "proc u = proc t"
    "scheduler u = scheduler t"
    "\<forall>q k x. heap_live t q = Some k \<longrightarrow> x \<in> bytes_at q (unat k) \<longrightarrow> mem8 u x = mem8 t x"
    "if p = 0 then heap_live u = heap_live t else new_block n p t u"
    using kmalloc_client [OF ok n] by blast
  have old: "mem8 u x = mem8 s x" if "heap_live s q = Some k" "x \<in> bytes_at q (unat k)" for q k x
  proof -
    have "mem8 u x = mem8 t x" using u(6) grows_old [OF g that(1)] that(2) by blast
    then show ?thesis using g that by (simp add: heap_grows_def)
  qed
  show ?thesis
  proof (cases "p = 0")
    case True
    then have "heap_grows B s u" using u(2,3,7) old g by (simp add: heap_grows_def)
    then show ?thesis using True u by auto
  next
    case False
    then obtain k where k: "n \<le> k" "heap_live t p = None" "8 dvd unat p" "heap_live u = (heap_live t)(p \<mapsto> k)"
      using u(7) by (auto simp: new_block_def)
    have new: "B p = None" "heap_live s p = None"
      using k(2) g by (auto simp: heap_grows_def map_add_def split: option.splits)
    have "heap_live u = heap_live s ++ B(p \<mapsto> k)" using k(4) g by (simp add: heap_grows_def)
    then have "heap_grows (B(p \<mapsto> k)) s u"
      using u(2,3) old g new by (auto simp: heap_grows_def)
    then show ?thesis using False u(1,4,5) new k(1,3) by auto
  qed
qed

lemma grows_free:
  fixes s t :: "'a sched_scheme"
  assumes g: "heap_grows B s t" and p: "B p = Some k"
  shows "heap_grows (B(p := None)) s (kfree p t)"
proof -
  have t: "heap_ok t" "heap_solo t" "heap_live t = heap_live s ++ B" using g by (simp_all add: heap_grows_def)
  have live: "heap_live t p = Some k" "heap_live s p = None" using grows_live [OF g p] by simp_all
  note f = kfree_spec [OF t(1) live(1)]
  have "heap_live (kfree p t) = heap_live s ++ B(p := None)"
    using f live(2) by (auto simp: t(3) map_add_def fun_eq_iff)
  moreover have "mem8 (kfree p t) x = mem8 s x" if "heap_live s q = Some j" "x \<in> bytes_at q (unat j)" for q j x
  proof -
    have "q \<noteq> p" using that(1) live(2) by auto
    then have "mem8 (kfree p t) x = mem8 t x" using f grows_old [OF g that(1)] that(2) by blast
    then show ?thesis using g that by (simp add: heap_grows_def)
  qed
  moreover have "dom (B(p := None)) \<inter> dom (heap_live s) = {}" using g by (auto simp: heap_grows_def)
  ultimately show ?thesis using f t(2) by (simp add: heap_grows_def)
qed

lemma grows_write:
  fixes s t u :: "'a sched_scheme"
  assumes g: "heap_grows B s t" and q: "B q = Some j"
    and m: "\<And>x. x \<notin> bytes_at q (unat j) \<Longrightarrow> mem8 u x = mem8 t x"
    and u: "bitmap u = bitmap t" "total_pages u = total_pages t" "used_pages u = used_pages t"
      "heap_start u = heap_start t" "total_heap_size u = total_heap_size t"
  shows "heap_grows B s u"
proof -
  have ok: "heap_ok t" using g by (simp add: heap_grows_def)
  have live: "heap_live t q = Some j" "heap_live s q = None" using grows_live [OF g q] by simp_all
  note w = heap_data_write [OF ok live(1) m u]
  have "mem8 u x = mem8 s x" if "heap_live s r = Some i" "x \<in> bytes_at r (unat i)" for r i x
  proof -
    have r: "heap_live t r = Some i" "r \<noteq> q" using grows_old [OF g that(1)] that(1) live(2) by auto
    have "x \<notin> bytes_at q (unat j)"
      using hp.live_disjoint [OF ok r(1) live(1) r(2)] that(2) by blast
    from m [OF this] show ?thesis using g that by (simp add: heap_grows_def)
  qed
  then show ?thesis using g w by (simp add: heap_grows_def)
qed

lemma sched_error_same [simp]:
  "heap_eq s (sched_error msg s)" "proc (sched_error msg s) = proc s" "scheduler (sched_error msg s) = scheduler s"
  unfolding sched_error_def
  by (rule heap_eq_trans [OF heap_eq_steps(3) heap_eq_steps(3)]) simp_all

lemma created_message_same [simp]:
  "heap_eq s (created_message p s)" "proc (created_message p s) = proc s"
  "scheduler (created_message p s) = scheduler s"
proof -
  show "heap_eq s (created_message p s)"
    unfolding created_message_def Let_def by (intro heap_eq_trans [OF _ heap_eq_steps(3)]
      heap_eq_trans [OF _ heap_eq_steps(4)] heap_eq_refl)
  show "proc (created_message p s) = proc s" "scheduler (created_message p s) = scheduler s"
    unfolding created_message_def Let_def by simp_all
qed

lemma heap_live_0: "heap_ok s \<Longrightarrow> heap_live s 0 = None"
proof -
  assume "heap_ok s"
  then have "unat (heap_start s) + extent (heap_blocks s) < 2 ^ 64"
    by (simp add: heap_ok_def heap_inv_def)
  from live_outside [OF this, of 0] show "heap_live s 0 = None" by (simp add: heap_live_def)
qed

subsection \<open>\<open>process_create\<close>\<close>

text \<open>A call that fails: the heap is as before, and so are all processes, the queue and the count.\<close>

definition create_failed :: "'a sched_scheme \<Rightarrow> 'a sched_scheme \<Rightarrow> bool" where
  "create_failed s t \<longleftrightarrow> heap_grows Map.empty s t \<and> (\<forall>q. heap_live s q \<noteq> None \<longrightarrow> proc t q = proc s q) \<and>
     (\<exists>n. scheduler t = (scheduler s)\<lparr>next_pid := n\<rparr>)"

text \<open>A call that succeeds: three new blocks, the control block filled in, the frame on the stack.\<close>

definition new_process ::
  "string option \<Rightarrow> u64 \<Rightarrow> u32 \<Rightarrow> u64 \<Rightarrow> 'a sched_scheme \<Rightarrow> process_t \<Rightarrow> bool" where
  "new_process nm entry pr p s tcb \<longleftrightarrow>
     p_pid tcb = next_pid (scheduler s) \<and>
     p_parent_pid tcb = (if current_process (scheduler s) \<noteq> 0 then p_pid (proc s (current_process (scheduler s))) else 0) \<and>
     p_name tcb = given_name nm (next_pid (scheduler s)) (p_name (proc s p)) \<and>
     p_state tcb = PROCESS_READY \<and> p_priority tcb = pr \<and> p_time_slice_remaining tcb = 20 \<and> p_total_ticks tcb = 0 \<and>
     p_kernel_stack_top tcb = p_kernel_stack tcb + 8192 \<and>
     p_registers tcb = (p_registers (proc s p))\<lparr>rsp := p_kernel_stack_top tcb - 176,
       rbp := p_kernel_stack_top tcb, rip := entry, rflags := 0x202\<rparr>"

definition created ::
  "string option \<Rightarrow> u64 \<Rightarrow> u32 \<Rightarrow> u64 \<Rightarrow> 'a sched_scheme \<Rightarrow> 'a sched_scheme \<Rightarrow> bool" where
  "created nm entry pr p s t \<longleftrightarrow>
     (let tcb = proc t p; ks = p_kernel_stack tcb; us = p_user_stack tcb
      in distinct [0, p, ks, us] \<and>
         (\<exists>i\<ge>256. \<exists>j\<ge>8192. \<exists>k\<ge>8192. heap_grows [p \<mapsto> i, ks \<mapsto> j, us \<mapsto> k] s t) \<and>
         new_process nm entry pr p s tcb \<and> frame_at (mem8 t) (rsp (p_registers tcb)) (p_kernel_stack_top tcb) entry \<and>
         (\<forall>q. q \<noteq> p \<longrightarrow> unlinked (proc t q) = unlinked (proc s q)) \<and>
         current_process (scheduler t) = current_process (scheduler s) \<and>
         next_pid (scheduler t) = next_pid (scheduler s) + 1 \<and>
         process_count (scheduler t) = process_count (scheduler s) + 1 \<and>
         total_ticks (scheduler t) = total_ticks (scheduler s))"

text \<open>Writing a control block outside the queue does not matter to it.\<close>

lemma queue_wf_upd:
  assumes "\<And>x. x \<in> set qs \<Longrightarrow> proc t x = proc s x"
    and "ready_queue_head (scheduler t) = ready_queue_head (scheduler s)"
    and "ready_queue_tail (scheduler t) = ready_queue_tail (scheduler s)"
  shows "queue_wf qs t = queue_wf qs s"
proof -
  have "(\<And>x. x \<in> set xs \<Longrightarrow> proc t x = proc s x) \<Longrightarrow> dll (proc t) p xs = dll (proc s) p xs" for p xs
    by (induction xs arbitrary: p) simp_all
  from this [OF assms(1)] show ?thesis by (simp add: queue_wf_def assms(2,3))
qed

text \<open>The last steps of a successful call, from the state in which all three blocks are there.\<close>

lemma create_finish:
  fixes s u :: "'a sched_scheme" and entry :: u64
  assumes g: "heap_grows B s u" and B: "B = [p \<mapsto> i, ks \<mapsto> j, us \<mapsto> k]"
    and big: "256 \<le> i" "8192 \<le> j" "8192 \<le> k"
    and d: "distinct [0, p, ks, us]"
    and pu: "proc u = (proc s)(p := tcb\<lparr>p_kernel_stack := ks, p_user_stack := us\<rparr>)"
    and tcb: "p_pid tcb = next_pid (scheduler s)"
      "p_parent_pid tcb = (if current_process (scheduler s) \<noteq> 0 then p_pid (proc s (current_process (scheduler s))) else 0)"
      "p_name tcb = given_name nm (next_pid (scheduler s)) (p_name (proc s p))"
      "p_state tcb = PROCESS_READY" "p_priority tcb = pr" "p_time_slice_remaining tcb = 20" "p_total_ticks tcb = 0"
      "p_registers tcb = p_registers (proc s p)"
    and su: "scheduler u = (scheduler s)\<lparr>next_pid := next_pid (scheduler s) + 1\<rparr>"
    and wf: "queue_wf qs s" "p \<notin> set qs"
  defines "v \<equiv> queue_enqueue p (init_stack p entry u)"
  defines "t \<equiv> created_message p (upd_sched (\<lambda>c. c\<lparr>process_count := process_count c + 1\<rparr>) v)"
  shows "created nm entry pr p s t" "queue_wf (qs @ [p]) t"
proof -
  define w where "w = init_stack p entry u"
  have ks: "p_kernel_stack (proc u p) = ks" "p_user_stack (proc u p) = us" by (simp_all add: pu)
  note ist = init_stack_spec [where p = p and entry = entry and s = u, unfolded ks, folded w_def]
  have Bks: "B ks = Some j" using d by (simp add: B)
  have gw: "heap_grows B s w"
  proof (rule grows_write [OF g Bks _ ist(5-9)])
    fix x assume x: "x \<notin> bytes_at ks (unat j)"
    have "heap_ok u" "heap_live u ks = Some j" using g grows_live [OF g Bks] by (simp_all add: heap_grows_def)
    from stack_frame_inside [OF this big(2) x] show "mem8 w x = mem8 u x" by (rule ist(4))
  qed
  have pw: "proc w = (proc s)(p := tcb\<lparr>p_kernel_stack := ks, p_user_stack := us, p_kernel_stack_top := ks + 8192,
      p_registers := (p_registers (proc s p))\<lparr>rsp := ks + 8192 - 176, rbp := ks + 8192, rip := entry, rflags := 0x202\<rparr>,
      p_page_table := 0\<rparr>)"
    using ist(1) by (simp add: pu tcb(8))
  have sw: "scheduler w = (scheduler s)\<lparr>next_pid := next_pid (scheduler s) + 1\<rparr>" using ist(2) su by simp
  have fr: "queue_frame w v" unfolding v_def w_def [symmetric] by (rule queue_enqueue_frame)
  have vp: "unlinked (proc v q) = unlinked (proc w q)" for q using fr by (simp add: queue_frame_def)
  have t: "proc t = proc v" "scheduler t = (scheduler v)\<lparr>process_count := process_count (scheduler v) + 1\<rparr>"
    by (simp_all add: t_def)
  have hv: "heap_eq w v" by (rule queue_frame_heap [OF fr])
  have "heap_eq v t"
    unfolding t_def by (rule heap_eq_trans [OF heap_eq_steps(2) created_message_same(1)])
  then have wt: "heap_eq w t" using hv heap_eq_trans by blast
  have gt: "heap_grows B s t" by (rule grows_eq [OF gw wt])
  note fp = unlinked_fields [OF vp [of p]]
  have np: "next_pid (scheduler v) = next_pid (scheduler w)"
    using fr by (auto simp: queue_frame_def)
  have sp: "rsp (p_registers (proc v p)) = ks + 8192 - 176" using fp by (simp add: pw)
  have "new_process nm entry pr p s (proc t p)"
    using fp by (simp add: new_process_def t(1) pw tcb)
  moreover have "frame_at (mem8 t) (rsp (p_registers (proc t p))) (p_kernel_stack_top (proc t p)) entry"
    using ist(3) fp heap_eq_same(4) [OF wt] by (simp add: t(1) pw)
  moreover have "p_kernel_stack (proc t p) = ks" "p_user_stack (proc t p) = us"
    using fp by (simp_all add: t(1) pw)
  moreover have "unlinked (proc t q) = unlinked (proc s q)" if "q \<noteq> p" for q
    using that by (simp add: t(1) vp pw)
  moreover have "\<exists>i\<ge>256. \<exists>j\<ge>8192. \<exists>k\<ge>8192. heap_grows [p \<mapsto> i, ks \<mapsto> j, us \<mapsto> k] s t"
    using gt big unfolding B by blast
  ultimately show "created nm entry pr p s t"
    using d queue_frame_fields(5,6,8) [OF fr] np unfolding created_def Let_def t(2) by (simp add: sw)
  have "queue_wf qs w"
    using wf by (subst queue_wf_upd [where s = s]) (auto simp: pw sw)
  then have "queue_wf (qs @ [p]) v"
    unfolding v_def w_def [symmetric] by (rule queue_enqueue_wf) (use d wf(2) in auto)
  then show "queue_wf (qs @ [p]) t" by (subst queue_wf_cong [where s = v]) (simp_all add: t)
qed

lemma grows_error: "heap_grows B s t \<Longrightarrow> heap_grows B s (sched_error msg t)"
  using grows_eq [OF _ sched_error_same(1)] .

lemma grows_upd: "heap_grows B s t \<Longrightarrow> heap_grows B s (upd_proc p f t)"
  using grows_eq [OF _ heap_eq_steps(1)] .

text \<open>One allocation, by cases.\<close>

lemma grows_malloc_cases:
  fixes s t :: "'a sched_scheme"
  assumes "heap_grows B s t" and "unat n < 2 ^ 63"
  obtains u where "kmalloc n t = Some (0, u)" "proc u = proc t" "scheduler u = scheduler t" "heap_grows B s u"
  | p k u where "kmalloc n t = Some (p, u)" "p \<noteq> 0" "proc u = proc t" "scheduler u = scheduler t"
      "B p = None" "heap_live s p = None" "n \<le> k" "heap_grows (B(p \<mapsto> k)) s u"
proof -
  obtain p u where u: "kmalloc n t = Some (p, u)" "proc u = proc t" "scheduler u = scheduler t"
    "if p = 0 then heap_grows B s u
     else B p = None \<and> heap_live s p = None \<and> 8 dvd unat p \<and> (\<exists>k\<ge>n. heap_grows (B(p \<mapsto> k)) s u)"
    using grows_malloc [OF assms] by blast
  show ?thesis
  proof (cases "p = 0")
    case True
    then show ?thesis using u that(1) by simp
  next
    case False
    then obtain k where "n \<le> k" "heap_grows (B(p \<mapsto> k)) s u" using u(4) by auto
    then show ?thesis using False u by (intro that(2) [of p u k]) simp_all
  qed
qed

lemma give_stacks_cases:
  fixes s r :: "'a sched_scheme"
  assumes g: "heap_grows [p \<mapsto> i] s r" and i: "256 \<le> i" and p: "p \<noteq> 0" "p \<notin> set qs" "heap_live s p = None"
    and pr: "proc r = (proc s)(p := tcb)"
    and tcb: "p_pid tcb = next_pid (scheduler s)"
      "p_parent_pid tcb = (if current_process (scheduler s) \<noteq> 0 then p_pid (proc s (current_process (scheduler s))) else 0)"
      "p_name tcb = given_name nm (next_pid (scheduler s)) (p_name (proc s p))"
      "p_state tcb = PROCESS_READY" "p_priority tcb = pri" "p_time_slice_remaining tcb = 20" "p_total_ticks tcb = 0"
      "p_registers tcb = p_registers (proc s p)"
    and sr: "scheduler r = (scheduler s)\<lparr>next_pid := next_pid (scheduler s) + 1\<rparr>"
    and wf: "queue_wf qs s"
  shows "\<exists>q t. give_stacks p entry r = Some (q, t) \<and>
    (if q = 0 then create_failed s t \<and> queue_wf qs t else q = p \<and> created nm entry pri p s t \<and> queue_wf (qs @ [p]) t)"
proof -
  have small: "unat PROCESS_STACK_SIZE < 2 ^ 63" by (simp add: PROCESS_STACK_SIZE_def)
  have failed: "create_failed s t \<and> queue_wf qs t" if "heap_grows B s t" "B = Map.empty"
    "proc t = (proc s)(p := c)" "scheduler t = scheduler r" for B t c
  proof -
    have "queue_wf qs t" using wf p(2) by (subst queue_wf_upd [where s = s]) (auto simp: that(3,4) sr)
    moreover have "proc t q = proc s q" if "heap_live s q \<noteq> None" for q
      using that p(3) \<open>proc t = (proc s)(p := c)\<close> by auto
    ultimately show ?thesis using that unfolding create_failed_def sr by auto
  qed
  show ?thesis
  proof (cases rule: grows_malloc_cases [OF g small])
    case (1 u)
    have "heap_grows ([p \<mapsto> i](p := None)) s (kfree p (upd_proc p (\<lambda>t. t\<lparr>p_kernel_stack := 0\<rparr>) u))"
      by (rule grows_free [OF grows_upd [OF 1(4)]]) simp
    from failed [OF grows_error [OF this]] show ?thesis
      using 1 by (simp add: give_stacks_def pr)
  next
    case (2 ks j u)
    define v where "v = upd_proc p (\<lambda>t. t\<lparr>p_kernel_stack := ks\<rparr>) u"
    have gv: "heap_grows [p \<mapsto> i, ks \<mapsto> j] s v" using 2(8) by (simp add: v_def grows_upd)
    have pk: "ks \<noteq> p" using 2(5) by auto
    have v: "proc v = (proc s)(p := tcb\<lparr>p_kernel_stack := ks\<rparr>)" "scheduler v = scheduler r"
      by (simp_all add: v_def 2 pr)
    have step: "give_stacks p entry r = (case kmalloc PROCESS_STACK_SIZE v of None \<Rightarrow> None | Some (us, s) \<Rightarrow>
           (let s = upd_proc p (\<lambda>t. t\<lparr>p_user_stack := us\<rparr>) s
            in if us = 0 then
                 Some (0, sched_error ''[ERR] Failed to allocate user stack'' (kfree p (kfree (p_kernel_stack (proc s p)) s)))
               else Some (p, created_message p (upd_sched (\<lambda>c. c\<lparr>process_count := process_count c + 1\<rparr>)
                  (queue_enqueue p (init_stack p entry s))))))"
      using 2(1,2) unfolding give_stacks_def v_def Let_def by simp
    show ?thesis
    proof (cases rule: grows_malloc_cases [OF gv small])
      case (1 w)
      let ?w = "upd_proc p (\<lambda>t. t\<lparr>p_user_stack := 0\<rparr>) w"
      have "heap_grows ([p \<mapsto> i, ks \<mapsto> j](ks := None, p := None)) s (kfree p (kfree ks ?w))"
        by (rule grows_free [OF grows_free [OF grows_upd [OF 1(4)]]]) (use pk in simp_all)
      from failed [OF grows_error [OF this]] show ?thesis
        unfolding step using pk by (simp add: 1 v fun_upd_twist)
    next
      case (2 us k w)
      let ?w = "upd_proc p (\<lambda>t. t\<lparr>p_user_stack := us\<rparr>) w"
      have g3: "heap_grows [p \<mapsto> i, ks \<mapsto> j, us \<mapsto> k] s ?w" using 2(8) by (rule grows_upd)
      have d: "distinct [0, p, ks, us]" using p(1) pk 2(2,5) \<open>ks \<noteq> 0\<close> by (auto split: if_splits)
      have pw: "proc ?w = (proc s)(p := tcb\<lparr>p_kernel_stack := ks, p_user_stack := us\<rparr>)"
        by (simp add: 2 v)
      have sw: "scheduler ?w = (scheduler s)\<lparr>next_pid := next_pid (scheduler s) + 1\<rparr>" by (simp add: 2 v sr)
      have big: "8192 \<le> j" "8192 \<le> k" using 2(7) \<open>PROCESS_STACK_SIZE \<le> j\<close> by (simp_all add: PROCESS_STACK_SIZE_def)
      note fin = create_finish [OF g3 refl i big d pw tcb sw wf p(2), of entry]
      show ?thesis
        unfolding step 2(1) by (simp add: 2(2) p(1) fin)
    qed
  qed
qed

lemma process_create_cases:
  fixes s :: "'a sched_scheme"
  assumes ok: "heap_ok s" "heap_solo s" and wf: "queue_wf qs s"
    and live: "\<forall>q\<in>set qs. heap_live s q \<noteq> None"
    and cur: "current_process (scheduler s) \<noteq> 0 \<Longrightarrow> heap_live s (current_process (scheduler s)) \<noteq> None"
  shows "\<exists>p t. process_create nm entry pr s = Some (p, t) \<and>
    (if p = 0 then create_failed s t \<and> queue_wf qs t
     else process_count (scheduler s) < MAX_PROCESSES \<and> created nm entry pr p s t \<and> queue_wf (qs @ [p]) t)"
proof (cases "MAX_PROCESSES \<le> process_count (scheduler s)")
  case True
  let ?t = "sched_error ''[ERR] Max processes reached'' s"
  have "create_failed s ?t"
    using grows_eq [OF grows_refl [OF ok] sched_error_same(1)] unfolding create_failed_def
    by (simp add: exI [of _ "next_pid (scheduler s)"])
  moreover have "queue_wf qs ?t" using wf by (subst queue_wf_cong [where s = s]) simp_all
  ultimately show ?thesis using True by (simp add: process_create_def)
next
  case False
  have small: "unat PROCESS_T_SIZE < 2 ^ 63" by (simp add: PROCESS_T_SIZE_def)
  show ?thesis
  proof (cases rule: grows_malloc_cases [OF grows_refl [OF ok] small])
    case (1 s1)
    let ?t = "sched_error ''[ERR] Failed to allocate process'' s1"
    have "create_failed s ?t"
      using 1 grows_error unfolding create_failed_def by (simp add: exI [of _ "next_pid (scheduler s)"])
    moreover have "queue_wf qs ?t" using wf by (subst queue_wf_cong [where s = s]) (simp_all add: 1)
    ultimately show ?thesis using False 1(1) by (simp add: process_create_def)
  next
    case (2 p i s1)
    have pq: "p \<notin> set qs" "current_process (scheduler s1) \<noteq> p" using live cur 2(2,4,6) by auto
    define s2 where "s2 = init_block p nm pr s1"
    note ib = init_block_spec [OF pq(2), of nm pr, folded s2_def]
    have i: "256 \<le> i" using 2(7) by (simp add: PROCESS_T_SIZE_def)
    have pr: "process_create nm entry pr s = give_stacks p entry s2"
      using False 2(1,2) by (simp add: process_create_def s2_def)
    have "\<exists>q t. give_stacks p entry s2 = Some (q, t) \<and>
      (if q = 0 then create_failed s t \<and> queue_wf qs t else q = p \<and> created nm entry pr p s t \<and> queue_wf (qs @ [p]) t)"
      by (rule give_stacks_cases [OF grows_eq [OF 2(8) ib(3)] i 2(2) pq(1) 2(6) ib(1) [unfolded 2(3,4)] _ _ _ _ _ _ _ _
          ib(2) [unfolded 2(4)] wf]) simp_all
    then obtain q t where q: "give_stacks p entry s2 = Some (q, t)"
      "if q = 0 then create_failed s t \<and> queue_wf qs t
       else q = p \<and> created nm entry pr p s t \<and> queue_wf (qs @ [p]) t" by blast
    then show ?thesis using False 2(2) unfolding pr by (intro exI [of _ q] exI [of _ t]) auto
  qed
qed

end
