(* ===== verification/Process_Kill.thy ===== *)
theory Process_Kill
  imports Process_Create
begin

text \<open>
  \<open>process_kill\<close> of a process in the ready queue: the queue without it, and its three blocks back in
  the heap.
\<close>

subsection \<open>Unlinking\<close>

lemma dll_cong:
  "(\<And>x. x \<in> set xs \<Longrightarrow> p_next (h' x) = p_next (h x) \<and> p_prev (h' x) = p_prev (h x)) \<Longrightarrow>
    dll h' q xs = dll h q xs"
  by (induction xs arbitrary: q) simp_all

lemma dll_remove:
  assumes "dll h q (xs @ p # ys)" and "distinct (xs @ p # ys)"
    and "\<And>x. x \<in> set (xs @ ys) \<Longrightarrow>
      p_next (h' x) = (if xs \<noteq> [] \<and> x = last xs then p_next (h p) else p_next (h x))"
    and "\<And>x. x \<in> set (xs @ ys) \<Longrightarrow>
      p_prev (h' x) = (if ys \<noteq> [] \<and> x = hd ys then p_prev (h p) else p_prev (h x))"
  shows "dll h' q (xs @ ys)"
  using assms
proof (induction xs arbitrary: q)
  case Nil
  show ?case
  proof (cases ys)
    case (Cons y zs)
    have "dll h' y zs = dll h y zs"
      by (rule dll_cong) (use Nil.prems Cons in auto)
    then show ?thesis using Nil.prems Cons by auto
  qed simp
next
  case (Cons x xs)
  have "dll h' x (xs @ ys)"
  proof (rule Cons.IH)
    fix z assume z: "z \<in> set (xs @ ys)"
    show "p_next (h' z) = (if xs \<noteq> [] \<and> z = last xs then p_next (h p) else p_next (h z))"
      using Cons.prems(2,3) z by (cases "xs = []") auto
    show "p_prev (h' z) = (if ys \<noteq> [] \<and> z = hd ys then p_prev (h p) else p_prev (h z))"
      using Cons.prems(4) z by simp
  qed (use Cons.prems in auto)
  moreover have "p_prev (h' x) = q"
    using Cons.prems(1,2) Cons.prems(4) [of x] by (cases ys) auto
  moreover have "p_next (h' x) = (if xs @ ys = [] then 0 else hd (xs @ ys))"
  proof (cases "xs = []")
    case True
    then show ?thesis using Cons.prems(1) Cons.prems(3) [of x] by auto
  next
    case False
    then have "x \<noteq> last xs" using Cons.prems(2) by auto
    then show ?thesis using False Cons.prems(1) Cons.prems(3) [of x] by auto
  qed
  ultimately show ?case using Cons.prems(1) by simp
qed

lemma dll_middle:
  "dll h q (xs @ p # ys) \<Longrightarrow> p \<noteq> 0 \<and> p_prev (h p) = (if xs = [] then q else last xs) \<and>
    p_next (h p) = (if ys = [] then 0 else hd ys)"
  by (induction xs arbitrary: q) auto

lemma heap_eq_branch:
  "heap_eq s t \<Longrightarrow> heap_eq s (if b then upd_proc p f t else t)"
  "heap_eq s t \<Longrightarrow> heap_eq s (if b then upd_sched g t else t)"
  using heap_eq_trans heap_eq_steps(1,2) by (simp_all, blast+)

lemma unlink_process_spec:
  fixes s :: "'a sched_scheme"
  assumes wf: "queue_wf (xs @ p # ys) s"
  defines "t \<equiv> unlink_process p s"
  shows "queue_wf (xs @ ys) t" "heap_eq s t"
    "\<And>q. unlinked (proc t q) = unlinked (if q = p then (proc s p)\<lparr>p_state := PROCESS_TERMINATED\<rparr> else proc s q)"
    "\<exists>a b. scheduler t = (scheduler s)\<lparr>ready_queue_head := a, ready_queue_tail := b\<rparr>"
proof -
  have d: "dll (proc s) 0 (xs @ p # ys)" "distinct (xs @ p # ys)"
    and ends: "ready_queue_head (scheduler s) = hd (xs @ [p])" "ready_queue_tail (scheduler s) = last (p # ys)"
    using wf by (simp_all add: queue_wf_def hd_append)
  note m = dll_middle [OF d(1)]
  have out: "0 \<notin> set xs" "0 \<notin> set ys" "p \<notin> set xs" "p \<notin> set ys" "set xs \<inter> set ys = {}"
    using dll_nonzero [OF d(1)] d(2) by auto
  have nz: "last xs \<noteq> 0 \<and> last xs \<noteq> p" if "xs \<noteq> []"
    using last_in_set [OF that] out by auto
  have nz': "hd ys \<noteq> 0 \<and> hd ys \<noteq> p" if "ys \<noteq> []"
    using hd_in_set [OF that] out by auto
  have apart: "last xs \<noteq> hd ys" if "xs \<noteq> []" "ys \<noteq> []"
    using last_in_set [OF that(1)] hd_in_set [OF that(2)] out(5) by auto
  have hd: "hd (xs @ [p]) = p \<longleftrightarrow> xs = []" and tl: "last (p # ys) = p \<longleftrightarrow> ys = []"
    using d(2) by (cases xs, auto)+
  define h where "h = (proc s)(p := (proc s p)\<lparr>p_state := PROCESS_TERMINATED\<rparr>)"
  define h1 where "h1 = (if xs = [] then h else h(last xs := (h (last xs))\<lparr>p_next := p_next (proc s p)\<rparr>))"
  define h2 where "h2 = (if ys = [] then h1 else h1(hd ys := (h1 (hd ys))\<lparr>p_prev := p_prev (proc s p)\<rparr>))"
  define s1 where "s1 = upd_proc p (\<lambda>t. t\<lparr>p_state := PROCESS_TERMINATED\<rparr>) s"
  define s2 where "s2 = (if p_prev (proc s1 p) \<noteq> 0
    then upd_proc (p_prev (proc s1 p)) (\<lambda>t. t\<lparr>p_next := p_next (proc s1 p)\<rparr>) s1 else s1)"
  define s3 where "s3 = (if p_next (proc s2 p) \<noteq> 0
    then upd_proc (p_next (proc s2 p)) (\<lambda>t. t\<lparr>p_prev := p_prev (proc s2 p)\<rparr>) s2 else s2)"
  define s4 where "s4 = (if ready_queue_head (scheduler s3) = p
    then upd_sched (\<lambda>c. c\<lparr>ready_queue_head := p_next (proc s3 p)\<rparr>) s3 else s3)"
  have t4: "t = (if ready_queue_tail (scheduler s4) = p
    then upd_sched (\<lambda>c. c\<lparr>ready_queue_tail := p_prev (proc s4 p)\<rparr>) s4 else s4)"
    unfolding t_def unlink_process_def s4_def s3_def s2_def s1_def Let_def ..
  have 1: "proc s1 = h" "scheduler s1 = scheduler s" by (simp_all add: s1_def h_def)
  have 2: "proc s2 = h1" "scheduler s2 = scheduler s"
    using m nz nz' by (auto simp: s2_def 1 h1_def h_def)
  have 3: "proc s3 = h2" "scheduler s3 = scheduler s"
    using m nz nz' by (auto simp: s3_def 2 h2_def h1_def h_def)
  have links: "p_next (h2 p) = p_next (proc s p)" "p_prev (h2 p) = p_prev (proc s p)"
    using nz nz' by (auto simp: h2_def h1_def h_def)
  have 4: "proc s4 = h2" "scheduler s4 = (scheduler s)\<lparr>ready_queue_head :=
      (if xs = [] then p_next (proc s p) else ready_queue_head (scheduler s))\<rparr>"
    using hd ends by (auto simp: s4_def 3 links)
  have t: "proc t = h2" by (simp add: t4 4)
  have sch: "scheduler t = (scheduler s)\<lparr>ready_queue_head := (if xs = [] then p_next (proc s p) else ready_queue_head (scheduler s)),
      ready_queue_tail := (if ys = [] then p_prev (proc s p) else ready_queue_tail (scheduler s))\<rparr>"
    using tl ends by (auto simp: t4 4 links)
  show "\<exists>a b. scheduler t = (scheduler s)\<lparr>ready_queue_head := a, ready_queue_tail := b\<rparr>" using sch by blast
  have "heap_eq s s1" by (simp add: s1_def)
  then have "heap_eq s s2" unfolding s2_def by (rule heap_eq_branch)
  then have "heap_eq s s3" unfolding s3_def by (rule heap_eq_branch)
  then have "heap_eq s s4" unfolding s4_def by (rule heap_eq_branch)
  then show "heap_eq s t" unfolding t4 by (rule heap_eq_branch)
  have "unlinked (h2 q) = unlinked (h1 q)" for q by (simp only: h2_def fun_upd_apply unlinked_upd split: if_split) simp
  moreover have "unlinked (h1 q) = unlinked (h q)" for q by (simp only: h1_def fun_upd_apply unlinked_upd split: if_split) simp
  ultimately show "unlinked (proc t q) = unlinked (if q = p then (proc s p)\<lparr>p_state := PROCESS_TERMINATED\<rparr> else proc s q)" for q
    by (simp only: t h_def fun_upd_apply)
  have nx: "p_next (h2 x) = (if xs \<noteq> [] \<and> x = last xs then p_next (proc s p) else p_next (proc s x))" for x
    by (simp add: h2_def h1_def h_def)
  have pv: "p_prev (h2 x) = (if ys \<noteq> [] \<and> x = hd ys then p_prev (proc s p) else p_prev (proc s x))" for x
    by (simp add: h2_def h1_def h_def)
  have "dll (proc t) 0 (xs @ ys)"
    unfolding t by (rule dll_remove [OF d nx pv])
  moreover have "ready_queue_head (scheduler t) = (if xs @ ys = [] then 0 else hd (xs @ ys))"
    unfolding sch using m ends(1) by (cases xs) simp_all
  moreover have "ready_queue_tail (scheduler t) = (if xs @ ys = [] then 0 else last (xs @ ys))"
    unfolding sch using m ends(2) by (cases "ys = []") simp_all
  ultimately show "queue_wf (xs @ ys) t"
    using d(2) by (simp add: queue_wf_def)
qed

subsection \<open>Releasing\<close>

text \<open>Releasing several live blocks.\<close>

lemma release_all:
  fixes s :: "'a sched_scheme"
  assumes "heap_ok s" and "heap_solo s" and "distinct bs" and "\<forall>b\<in>set bs. heap_live s b \<noteq> None"
  defines "t \<equiv> fold kfree bs s"
  shows "heap_ok t \<and> heap_solo t \<and> heap_live t = heap_live s |` (- set bs) \<and> proc t = proc s \<and>
    scheduler t = scheduler s \<and>
    (\<forall>q k x. q \<notin> set bs \<longrightarrow> heap_live s q = Some k \<longrightarrow> x \<in> bytes_at q (unat k) \<longrightarrow> mem8 t x = mem8 s x)"
  using assms(1-4) unfolding t_def
proof (induction bs arbitrary: s)
  case Nil
  then show ?case by (simp add: restrict_map_def fun_eq_iff)
next
  case (Cons b bs)
  obtain n where n: "heap_live s b = Some n" using Cons.prems(4) by auto
  note f = kfree_spec [OF Cons.prems(1) n]
  have live: "\<forall>c\<in>set bs. heap_live (kfree b s) c \<noteq> None" using Cons.prems(3,4) f by auto
  have "heap_ok (kfree b s)" "heap_solo (kfree b s)" "distinct bs" using f Cons.prems(2,3) by simp_all
  note IH = Cons.IH [OF this live]
  have "mem8 (fold kfree bs (kfree b s)) x = mem8 s x"
    if "q \<notin> set (b # bs)" "heap_live s q = Some k" "x \<in> bytes_at q (unat k)" for q k x
  proof -
    have "heap_live (kfree b s) q = Some k" using that(1,2) f by simp
    then have "mem8 (fold kfree bs (kfree b s)) x = mem8 (kfree b s) x" using IH that(1,3) by auto
    then show ?thesis using f that by auto
  qed
  moreover have "heap_live (fold kfree bs (kfree b s)) = heap_live s |` (- set (b # bs))"
    using IH f by (auto simp: restrict_map_def fun_eq_iff)
  ultimately show ?case using IH by simp
qed

lemma process_kill_spec:
  fixes s :: "'a sched_scheme"
  assumes wf: "queue_wf (xs @ p # ys) s" and ok: "heap_ok s" "heap_solo s"
    and blocks: "distinct [p, p_kernel_stack (proc s p), p_user_stack (proc s p)]"
      "\<forall>b\<in>{p, p_kernel_stack (proc s p), p_user_stack (proc s p)}. heap_live s b \<noteq> None"
  defines "t \<equiv> process_kill p s"
  shows "queue_wf (xs @ ys) t" "heap_ok t" "heap_solo t"
    "heap_live t = heap_live s |` (- {p, p_kernel_stack (proc s p), p_user_stack (proc s p)})"
    "\<And>q. q \<noteq> p \<Longrightarrow> unlinked (proc t q) = unlinked (proc s q)"
    "process_count (scheduler t) = process_count (scheduler s) - 1"
    "current_process (scheduler t) = current_process (scheduler s)"
    "\<And>q k x. q \<notin> {p, p_kernel_stack (proc s p), p_user_stack (proc s p)} \<Longrightarrow> heap_live s q = Some k \<Longrightarrow>
       x \<in> bytes_at q (unat k) \<Longrightarrow> mem8 t x = mem8 s x"
proof -
  let ?ks = "p_kernel_stack (proc s p)" and ?us = "p_user_stack (proc s p)"
  define u where "u = unlink_process p s"
  note ul = unlink_process_spec [OF wf, folded u_def]
  note same = heap_eq_same [OF ul(2)]
  have "dll (proc s) 0 (xs @ p # ys)" using wf by (simp add: queue_wf_def)
  from dll_middle [OF this] have p: "p \<noteq> 0" by simp
  have nz: "?ks \<noteq> 0" "?us \<noteq> 0"
    using blocks(2) heap_live_0 [OF ok(1)] by (metis insertCI)+
  have "unlinked (proc u p) = unlinked ((proc s p)\<lparr>p_state := PROCESS_TERMINATED\<rparr>)" using ul(3) [of p] by simp
  from unlinked_fields(5,7) [OF this] have st: "p_kernel_stack (proc u p) = ?ks" "p_user_stack (proc u p) = ?us"
    by simp_all
  define v where "v = fold kfree [?ks, ?us, p] u"
  have t: "t = upd_sched (\<lambda>c. c\<lparr>process_count := process_count c - 1\<rparr>) v"
    unfolding t_def process_kill_def u_def [symmetric] Let_def v_def using p nz by (simp add: st)
  have "distinct [?ks, ?us, p]" using blocks(1) by auto
  then have rel: "heap_ok v \<and> heap_solo v \<and> heap_live v = heap_live u |` (- set [?ks, ?us, p]) \<and> proc v = proc u \<and>
    scheduler v = scheduler u \<and> (\<forall>q k x. q \<notin> set [?ks, ?us, p] \<longrightarrow> heap_live u q = Some k \<longrightarrow>
      x \<in> bytes_at q (unat k) \<longrightarrow> mem8 v x = mem8 u x)"
    unfolding v_def using ok blocks(2) by (intro release_all) (simp_all add: same)
  note tv = heap_eq_same [OF heap_eq_steps(2) [of v], folded t]
  show "heap_ok t" "heap_solo t" using rel tv by (simp_all add: t)
  have sets: "set [?ks, ?us, p] = {p, ?ks, ?us}" by auto
  show "heap_live t = heap_live s |` (- {p, ?ks, ?us})"
    using rel unfolding sets same(2) by (simp add: t)
  show "mem8 t x = mem8 s x" if "q \<notin> {p, ?ks, ?us}" "heap_live s q = Some k" "x \<in> bytes_at q (unat k)" for q k x
    using rel that unfolding sets same(2,4) by (simp add: t)
  have pt: "proc t = proc u" using rel by (simp add: t)
  show "unlinked (proc t q) = unlinked (proc s q)" if "q \<noteq> p" for q using ul(3) [of q] that by (simp add: pt)
  obtain a b where su: "scheduler u = (scheduler s)\<lparr>ready_queue_head := a, ready_queue_tail := b\<rparr>" using ul(4) by blast
  then have stt: "scheduler t = (scheduler s)\<lparr>ready_queue_head := a, ready_queue_tail := b,
      process_count := process_count (scheduler s) - 1\<rparr>"
    using rel by (simp add: t)
  then show "process_count (scheduler t) = process_count (scheduler s) - 1"
    "current_process (scheduler t) = current_process (scheduler s)" by simp_all
  show "queue_wf (xs @ ys) t"
    using ul(1) by (subst queue_wf_cong [where s = u]) (simp_all add: pt stt su)
qed

end
