(* ===== verification/System.thy ===== *)
theory System
  imports Process_Kill
begin

text \<open>
  The scheduler as a whole: creation, removal, start, timer ticks and yields in any order, and what
  holds of processes, queue and heap in every state they lead to.
\<close>

subsection \<open>What switching leaves alone\<close>

definition keeps :: "'a sched_scheme \<Rightarrow> 'a sched_scheme \<Rightarrow> bool" where
  "keeps s t \<longleftrightarrow> heap_eq s t \<and> process_count (scheduler t) = process_count (scheduler s) \<and>
     (\<forall>z. p_kernel_stack (proc t z) = p_kernel_stack (proc s z) \<and> p_user_stack (proc t z) = p_user_stack (proc s z))"

lemma keeps_refl [simp, intro]: "keeps s s"
  by (simp add: keeps_def)

lemma keeps_trans: "keeps s t \<Longrightarrow> keeps t u \<Longrightarrow> keeps s u"
  by (auto simp: keeps_def intro: heap_eq_trans)

lemma keeps_queue: "queue_frame s t \<Longrightarrow> keeps s t"
proof -
  assume f: "queue_frame s t"
  then have "unlinked (proc t z) = unlinked (proc s z)" for z by (simp add: queue_frame_def)
  from unlinked_fields(5,7) [OF this] queue_frame_fields(8) [OF f] queue_frame_heap [OF f] show ?thesis
    by (simp add: keeps_def)
qed

lemma keeps_vga: "vga_frame s t \<Longrightarrow> keeps s t" for s :: "'a sched_scheme"
proof -
  assume f: "vga_frame s t"
  from vga_frame_sched [OF f] show ?thesis by (simp add: keeps_def heap_eq_def)
qed

lemma keeps_proc: "(\<And>t. p_kernel_stack (f t) = p_kernel_stack t \<and> p_user_stack (f t) = p_user_stack t) \<Longrightarrow>
    keeps s (upd_proc p f s)"
  by (simp add: keeps_def)

lemma keeps_sched: "(\<And>c. process_count (g c) = process_count c) \<Longrightarrow> keeps s (upd_sched g s)"
  by (simp add: keeps_def)

lemma keeps_outb: "keeps s (outb p v s)"
  by (simp add: keeps_def heap_eq_def machine_defs)

lemma keeps_steps:
  "keeps s t \<Longrightarrow> (\<And>t. p_kernel_stack (f t) = p_kernel_stack t \<and> p_user_stack (f t) = p_user_stack t) \<Longrightarrow>
    keeps s (upd_proc p f t)"
  "keeps s t \<Longrightarrow> (\<And>c. process_count (g c) = process_count c) \<Longrightarrow> keeps s (upd_sched g t)"
  "keeps s t \<Longrightarrow> keeps s (queue_enqueue p t)"
  "keeps s t \<Longrightarrow> keeps s (vga_print cs c t)"
  "keeps s t \<Longrightarrow> queue_dequeue t = (q, u) \<Longrightarrow> keeps s u"
proof -
  assume st: "keeps s t"
  note tr = keeps_trans [OF st]
  show "keeps s (upd_proc p f t)" if "\<And>t. p_kernel_stack (f t) = p_kernel_stack t \<and> p_user_stack (f t) = p_user_stack t"
    by (rule tr, rule keeps_proc) (use that in simp)
  show "keeps s (upd_sched g t)" if "\<And>c. process_count (g c) = process_count c"
    by (rule tr, rule keeps_sched) (use that in simp)
  show "keeps s (queue_enqueue p t)" by (rule tr, rule keeps_queue, rule queue_enqueue_frame)
  show "keeps s (vga_print cs c t)" by (rule tr, rule keeps_vga) simp
  show "keeps s u" if "queue_dequeue t = (q, u)"
    using tr [OF keeps_queue [OF queue_dequeue_frame [of t]]] that by simp
qed

lemma print_summary_vga: "print_summary s = Some t \<Longrightarrow> vga_frame s t"
proof -
  assume *: "print_summary s = Some t"
  define r where "r = vga_print ''] '' VGA_COLOR_LIGHT_CYAN (vga_print_int (total_ticks (scheduler
    (vga_print (line '''' @ ''[SUM T='') VGA_COLOR_LIGHT_CYAN s))) VGA_COLOR_LIGHT_CYAN
    (vga_print (line '''' @ ''[SUM T='') VGA_COLOR_LIGHT_CYAN s))"
  define u where "u = (if current_process (scheduler r) \<noteq> 0
    then vga_print '' | '' VGA_COLOR_DARK_GREY (summary_entry (current_process (scheduler r)) r) else r)"
  have "vga_frame s r" by (simp add: r_def)
  moreover have "vga_frame r u" by (simp add: u_def)
  ultimately have su: "vga_frame s u" by (rule vga_frame_trans)
  obtain w where w: "summary_queue (ready_queue_head (scheduler u)) u = Some w" "t = vga_print (line '''') VGA_COLOR_WHITE w"
    using * unfolding print_summary_def Let_def r_def [symmetric] u_def [symmetric] by auto
  have "vga_frame u t" using summary_queue_frame [OF w(1)] w(2) vga_frame_trans by simp
  then show ?thesis by (rule vga_frame_trans [OF su])
qed

lemma preempt_handler_keeps:
  assumes "preempt_handler sp s = Some (q, t)"
  shows "keeps s t"
proof -
  obtain u where u: "tick_entry s = Some u"
    using assms by (auto simp: preempt_handler_def tick_entry_def Let_def split: option.splits if_splits)
  have "keeps s (upd_sched (\<lambda>c. c\<lparr>total_ticks := total_ticks c + 1\<rparr>) (outb 0x20 0x20 s))"
    by (rule keeps_steps(2) [OF keeps_outb]) simp
  then have su: "keeps s u"
    using u keeps_vga [OF print_summary_vga] keeps_trans by (fastforce simp: tick_entry_def Let_def split: if_splits)
  show ?thesis
    using assms u su by (auto simp: preempt_handler_def tick_entry_def Let_def split: if_splits prod.splits
        intro!: keeps_steps(1-3) keeps_outb elim!: keeps_steps(5) [rotated])
qed

subsection \<open>Starting\<close>

lemma scheduler_start_spec:
  fixes s :: "'a sched_scheme"
  assumes wf: "queue_wf (x # xs) s" and ready: "\<forall>z\<in>set (x # xs). p_state (proc s z) = PROCESS_READY"
  shows "\<exists>t. (\<forall>switch. scheduler_start switch s = vga_print (line '''') VGA_COLOR_WHITE
        (vga_print ''[ERR] Context switch returned!'' VGA_COLOR_LIGHT_RED (switch 0 x t))) \<and>
    sched_at (x # xs) t \<and> keeps s t \<and> total_ticks (scheduler t) = total_ticks (scheduler s) \<and> mem8 t = mem8 s \<and>
    (\<forall>z. p_time_slice_remaining (proc t z) = p_time_slice_remaining (proc s z)) \<and>
    (\<forall>z. p_total_ticks (proc t z) = p_total_ticks (proc s z)) \<and>
    (\<forall>z. p_registers (proc t z) = p_registers (proc s z)) \<and> (\<forall>z. p_name (proc t z) = p_name (proc s z))"
proof -
  define u where "u = snd (queue_dequeue s)"
  note dq = queue_dequeue_wf [OF wf, folded u_def]
  have q: "queue_dequeue s = (x, u)" using dq(1) by (simp add: u_def prod_eq_iff)
  have fr: "queue_frame s u" unfolding u_def by (rule queue_dequeue_frame)
  note fields = queue_frame_fields [OF fr]
  have x: "x \<noteq> 0" "x \<notin> set xs" "distinct xs" using wf by (simp_all add: queue_wf_def)
  define v where "v = vga_print (line (line '''')) VGA_COLOR_WHITE (vga_print (proc_name (proc
      (vga_print ''[*] Starting first process: '' VGA_COLOR_LIGHT_GREEN u) x)) VGA_COLOR_LIGHT_GREEN
      (vga_print ''[*] Starting first process: '' VGA_COLOR_LIGHT_GREEN u))"
  have v: "proc v = proc u" "scheduler v = scheduler u" "mem8 v = mem8 u" by (simp_all add: v_def)
  define t where "t = upd_sched (\<lambda>c. c\<lparr>current_process := x\<rparr>) (upd_proc x (\<lambda>t. t\<lparr>p_state := PROCESS_RUNNING\<rparr>) v)"
  have t: "proc t = (proc u)(x := (proc u x)\<lparr>p_state := PROCESS_RUNNING\<rparr>)"
    "scheduler t = (scheduler u)\<lparr>current_process := x\<rparr>" "mem8 t = mem8 u"
    by (simp_all add: t_def v upd_proc_def upd_sched_def)
  have "queue_wf xs t" using dq(2) by (subst queue_wf_cong [where s = u]) (simp_all add: t)
  then have "sched_at (x # xs) t" using x ready by (auto simp: sched_at_def t fields)
  moreover have "scheduler_start switch s = vga_print (line '''') VGA_COLOR_WHITE
        (vga_print ''[ERR] Context switch returned!'' VGA_COLOR_LIGHT_RED (switch 0 x t))" for switch
    using x(1) by (simp add: scheduler_start_def q Let_def t_def v_def)
  moreover have "keeps s t"
    unfolding t_def v_def by (intro keeps_steps(1,2,4) keeps_queue [OF fr]) simp_all
  moreover have "mem8 u = mem8 s" using fr by (auto simp: queue_frame_def)
  moreover have "p_name (proc u z) = p_name (proc s z)" for z
    using fr by (auto simp: queue_frame_def dest: unlinked_fields)
  ultimately show ?thesis by (intro exI [of _ t]) (simp add: t fields)
qed

subsection \<open>The invariant\<close>

text \<open>The processes of the system: the running one, if there is one, and the ready ones in order.\<close>

definition all_procs :: "'a sched_scheme \<Rightarrow> u64 list" where
  "all_procs s = (if current_process (scheduler s) = 0 then [] else [current_process (scheduler s)]) @ ready_queue s"

definition sched_state :: "u64 list \<Rightarrow> 'a sched_scheme \<Rightarrow> bool" where
  "sched_state l s \<longleftrightarrow>
     (if current_process (scheduler s) = 0
      then queue_wf l s \<and> (\<forall>p\<in>set l. p_state (proc s p) = PROCESS_READY) else sched_at l s)"

text \<open>Every process has three live blocks of its own, large enough.\<close>

definition live_block :: "u64 \<Rightarrow> u64 \<Rightarrow> 'a sched_scheme \<Rightarrow> bool" where
  "live_block n b s \<longleftrightarrow> (\<exists>k\<ge>n. heap_live s b = Some k)"

definition proc_blocks :: "'a sched_scheme \<Rightarrow> u64 \<Rightarrow> u64 list" where
  "proc_blocks s p = [p, p_kernel_stack (proc s p), p_user_stack (proc s p)]"

definition blocks_owned :: "u64 list \<Rightarrow> 'a sched_scheme \<Rightarrow> bool" where
  "blocks_owned l s \<longleftrightarrow> distinct (concat (map (proc_blocks s) l)) \<and>
     (\<forall>p\<in>set l. live_block 256 p s \<and> live_block 8192 (p_kernel_stack (proc s p)) s \<and>
        live_block 8192 (p_user_stack (proc s p)) s)"

definition sys_inv :: "u64 list \<Rightarrow> 'a sched_scheme \<Rightarrow> bool" where
  "sys_inv l s \<longleftrightarrow> heap_ok s \<and> heap_solo s \<and> sched_state l s \<and> blocks_owned l s \<and>
     unat (process_count (scheduler s)) = length l \<and> length l \<le> 256"

lemma sched_state_procs: "sched_state l s \<Longrightarrow> all_procs s = l"
  by (cases "current_process (scheduler s) = 0"; cases l)
    (simp_all add: sched_state_def all_procs_def sched_at_def queue_wf_ready)

lemma live_block_live: "live_block n b s \<Longrightarrow> heap_live s b \<noteq> None"
  by (auto simp: live_block_def)

text \<open>Steps that neither allocate nor release, and at most rotate the list.\<close>

lemma proc_blocks_keeps: "keeps s t \<Longrightarrow> proc_blocks t = proc_blocks s"
  by (simp add: keeps_def proc_blocks_def fun_eq_iff)

lemma live_block_keeps: "keeps s t \<Longrightarrow> live_block n b t = live_block n b s"
  using heap_eq_same(2) [of s t] by (simp add: keeps_def live_block_def)

lemma blocks_owned_keeps: "keeps s t \<Longrightarrow> blocks_owned l t = blocks_owned l s"
  by (simp add: blocks_owned_def proc_blocks_keeps live_block_keeps) (simp add: keeps_def)

lemma blocks_owned_rotate: "blocks_owned (rotate1 l) s = blocks_owned l s"
  by (cases l) (auto simp: blocks_owned_def)

lemma sys_inv_step:
  assumes "sys_inv l s" and "keeps s t" and "sched_state l' t" and "l' = l \<or> l' = rotate1 l"
  shows "sys_inv l' t"
proof -
  have "blocks_owned l' t"
    using assms(1,4) blocks_owned_keeps [OF assms(2)] blocks_owned_rotate by (auto simp: sys_inv_def)
  moreover have "heap_ok t = heap_ok s" "heap_solo t = heap_solo s"
    "process_count (scheduler t) = process_count (scheduler s)"
    using assms(2) by (simp_all add: keeps_def heap_eq_same)
  ultimately show ?thesis using assms(1,3,4) by (auto simp: sys_inv_def)
qed

lemma tick_inv:
  fixes s :: "'a sched_scheme"
  assumes inv: "sys_inv l s"
  shows "\<exists>q t. preempt_handler sp s = Some (q, t) \<and> sys_inv (all_procs t) t \<and>
    (all_procs t = l \<or> all_procs t = rotate1 l)"
proof (cases "current_process (scheduler s) = 0")
  case True
  then have l: "queue_wf l s" "\<forall>p\<in>set l. p_state (proc s p) = PROCESS_READY"
    using inv by (simp_all add: sys_inv_def sched_state_def)
  obtain u where u: "tick_entry s = Some u" "proc u = proc s"
    "scheduler u = (scheduler s)\<lparr>total_ticks := total_ticks (scheduler s) + 1\<rparr>"
    using tick_entry_returns [OF l(1)] by blast
  have p: "preempt_handler sp s = Some (sp, u)"
    using preempt_handler_steps [OF u(1), of sp] True u(3) by simp
  have "queue_wf l u" using l(1) by (subst queue_wf_cong [where s = s]) (simp_all add: u)
  then have st: "sched_state l u" using l(2) True by (simp add: sched_state_def u)
  from sys_inv_step [OF inv preempt_handler_keeps [OF p] st] sched_state_procs [OF st] p show ?thesis by auto
next
  case False
  then have at: "sched_at l s" using inv by (simp add: sys_inv_def sched_state_def)
  obtain x xs where l: "l = x # xs" using at by (cases l) (auto simp: sched_at_def)
  obtain q t where t: "preempt_handler sp s = Some (q, t)" "sched_at (xs @ [x]) t \<or> sched_at (x # xs) t"
    using preempt_tick [OF at [unfolded l], of sp] by metis
  then obtain l' where l': "sched_at l' t" "l' = l \<or> l' = rotate1 l" using l by auto
  then have "current_process (scheduler t) \<noteq> 0" by (auto simp: sched_at_def)
  then have st: "sched_state l' t" using l'(1) by (simp add: sched_state_def)
  from sys_inv_step [OF inv preempt_handler_keeps [OF t(1)] st l'(2)] sched_state_procs [OF st] t(1) l'(2)
  show ?thesis by auto
qed

subsection \<open>Creation and removal keep the invariant\<close>

lemma sched_state_queue:
  "sched_state l s \<Longrightarrow> queue_wf (ready_queue s) s \<and> (\<forall>q\<in>set (ready_queue s). p_state (proc s q) = PROCESS_READY \<and> q \<in> set l)"
  by (cases "current_process (scheduler s) = 0"; cases l)
    (auto simp: sched_state_def sched_at_def queue_wf_ready)

lemma sched_state_list:
  assumes "sched_state l s" and "queue_wf qs t" and "current_process (scheduler t) = current_process (scheduler s)"
    and "\<forall>q\<in>set qs. p_state (proc t q) = PROCESS_READY"
    and "current_process (scheduler s) \<noteq> 0 \<Longrightarrow> current_process (scheduler s) \<notin> set qs \<and>
      p_state (proc t (current_process (scheduler s))) = PROCESS_RUNNING"
  shows "sched_state ((if current_process (scheduler s) = 0 then [] else [current_process (scheduler s)]) @ qs) t"
  using assms by (auto simp: sched_state_def sched_at_def queue_wf_def)

lemma blocks_owned_grows:
  assumes "blocks_owned l s" and "heap_grows B s t" and "\<And>p. p \<in> set l \<Longrightarrow> proc_blocks t p = proc_blocks s p"
  shows "blocks_owned l t"
proof -
  have "live_block n b t" if "live_block n b s" for n b
    using that grows_old [OF assms(2)] by (auto simp: live_block_def)
  moreover have "map (proc_blocks t) l = map (proc_blocks s) l" using assms(3) by simp
  then have "distinct (concat (map (proc_blocks t) l))" using assms(1) by (simp only: blocks_owned_def)
  moreover have "p_kernel_stack (proc t p) = p_kernel_stack (proc s p)" "p_user_stack (proc t p) = p_user_stack (proc s p)"
    if "p \<in> set l" for p using assms(3) [OF that] by (simp_all add: proc_blocks_def)
  ultimately show ?thesis using assms(1) by (simp add: blocks_owned_def)
qed

lemma sys_inv_facts:
  assumes inv: "sys_inv l s"
  shows "heap_ok s" "heap_solo s" "sched_state l s" "blocks_owned l s"
    "l = (if current_process (scheduler s) = 0 then [] else [current_process (scheduler s)]) @ ready_queue s"
    "current_process (scheduler s) \<noteq> 0 \<Longrightarrow> current_process (scheduler s) \<notin> set (ready_queue s) \<and>
       p_state (proc s (current_process (scheduler s))) = PROCESS_RUNNING"
    "p \<in> set l \<Longrightarrow> b \<in> set (proc_blocks s p) \<Longrightarrow> heap_live s b \<noteq> None"
proof -
  show ss: "heap_ok s" "heap_solo s" "sched_state l s" "blocks_owned l s"
    using inv by (simp_all add: sys_inv_def)
  then show l: "l = (if current_process (scheduler s) = 0 then [] else [current_process (scheduler s)]) @ ready_queue s"
    using sched_state_procs [of l s] by (simp add: all_procs_def)
  show "current_process (scheduler s) \<notin> set (ready_queue s) \<and>
      p_state (proc s (current_process (scheduler s))) = PROCESS_RUNNING" if "current_process (scheduler s) \<noteq> 0"
    using ss(3) l that by (auto simp: sched_state_def sched_at_def)
  show "heap_live s b \<noteq> None" if "p \<in> set l" "b \<in> set (proc_blocks s p)"
    using ss(4) that by (auto simp: blocks_owned_def proc_blocks_def dest!: live_block_live)
qed

lemma create_failed_inv:
  assumes inv: "sys_inv l s" and f: "create_failed s t" "queue_wf (ready_queue s) t"
  shows "sys_inv l t"
proof -
  note i = sys_inv_facts [OF inv]
  have same: "proc t p = proc s p" if "heap_live s p \<noteq> None" for p
    using f(1) that by (simp add: create_failed_def)
  have g: "heap_grows Map.empty s t" and sc: "current_process (scheduler t) = current_process (scheduler s)"
    "process_count (scheduler t) = process_count (scheduler s)"
    using f(1) by (auto simp: create_failed_def)
  have self: "heap_live s p \<noteq> None" if "p \<in> set l" for p using i(7) that by (auto simp: proc_blocks_def)
  have "sched_state l t"
    unfolding i(5)
    by (rule sched_state_list [OF i(3) f(2)])
      (use sc sched_state_queue [OF i(3)] i(5,6) self same in auto)
  moreover have "blocks_owned l t"
    using i(4) g by (rule blocks_owned_grows) (use same self in \<open>simp add: proc_blocks_def\<close>)
  ultimately show ?thesis using g inv sc by (auto simp: sys_inv_def heap_grows_def)
qed

text \<open>A new process owns blocks that no other process has, and the others are as they were.\<close>

lemma created_owned:
  assumes inv: "sys_inv l s" and c: "created nm entry pr p s t"
  shows "blocks_owned (l @ [p]) t" "p \<notin> set l" "\<And>q. q \<in> set l \<Longrightarrow> p_state (proc t q) = p_state (proc s q)"
proof -
  let ?ks = "p_kernel_stack (proc t p)" and ?us = "p_user_stack (proc t p)"
  note live = sys_inv_facts(7) [OF inv]
  obtain i j k where g: "256 \<le> i" "8192 \<le> j" "8192 \<le> k" "heap_grows [p \<mapsto> i, ?ks \<mapsto> j, ?us \<mapsto> k] s t"
    and d: "distinct [0, p, ?ks, ?us]"
    and un: "\<forall>q. q \<noteq> p \<longrightarrow> unlinked (proc t q) = unlinked (proc s q)"
    using c unfolding created_def Let_def by blast
  have bp: "heap_live t p = Some i \<and> heap_live s p = None"
    and bk: "heap_live t ?ks = Some j \<and> heap_live s ?ks = None"
    and bu: "heap_live t ?us = Some k \<and> heap_live s ?us = None"
    using d by (intro grows_live [OF g(4)]; simp)+
  have new: "b \<noteq> p \<and> b \<noteq> ?ks \<and> b \<noteq> ?us" if "q \<in> set l" "b \<in> set (proc_blocks s q)" for q b
    using live [OF that] bp bk bu by metis
  then show pl: "p \<notin> set l" by (auto simp: proc_blocks_def)
  have same: "unlinked (proc t q) = unlinked (proc s q)" if "q \<in> set l" for q
    using un pl that by metis
  show "p_state (proc t q) = p_state (proc s q)" if "q \<in> set l" for q
    by (rule unlinked_fields(3) [OF same [OF that]])
  have pb: "proc_blocks t q = proc_blocks s q" if "q \<in> set l" for q
    using unlinked_fields(5,7) [OF same [OF that]] by (simp add: proc_blocks_def)
  have o: "blocks_owned l t" using inv g(4) pb by (auto simp: sys_inv_def intro: blocks_owned_grows)
  have "b \<notin> set (proc_blocks t p)" if "q \<in> set l" "b \<in> set (proc_blocks t q)" for q b
    using new [OF that(1)] that(2) pb [OF that(1)] by (auto simp: proc_blocks_def [of t p])
  then have "set (concat (map (proc_blocks t) l)) \<inter> set (proc_blocks t p) = {}" by auto
  moreover have "distinct (proc_blocks t p)" using d by (simp add: proc_blocks_def)
  moreover have "live_block 256 p t" "live_block 8192 ?ks t" "live_block 8192 ?us t"
    using bp bk bu g(1-3) by (simp_all add: live_block_def)
  ultimately show "blocks_owned (l @ [p]) t" using o by (simp add: blocks_owned_def)
qed

lemma created_inv:
  assumes inv: "sys_inv l s" and c: "created nm entry pr p s t" "queue_wf (ready_queue s @ [p]) t"
    and room: "process_count (scheduler s) < MAX_PROCESSES"
  shows "sys_inv (l @ [p]) t"
proof -
  note i = sys_inv_facts [OF inv]
  have ct: "current_process (scheduler t) = current_process (scheduler s)"
      "process_count (scheduler t) = process_count (scheduler s) + 1"
    and np: "new_process nm entry pr p s (proc t p)"
    and g: "heap_ok t" "heap_solo s \<longrightarrow> heap_solo t"
    using c(1) unfolding created_def Let_def heap_grows_def by blast+
  note o = created_owned [OF inv c(1)]
  have "sched_state (l @ [p]) t"
    by (subst i(5), subst append_assoc, rule sched_state_list [OF i(3) c(2)])
      (use ct np sched_state_queue [OF i(3)] i(5,6) o(2,3) in \<open>auto simp: new_process_def\<close>)
  moreover have "unat (process_count (scheduler t)) = length (l @ [p])" "length (l @ [p]) \<le> 256"
    using ct(2) room inv by (simp_all add: sys_inv_def MAX_PROCESSES_def word_less_nat_alt unat_add_exact)
  ultimately show ?thesis using o(1) g i(2) by (simp add: sys_inv_def)
qed

lemma create_inv:
  fixes s :: "'a sched_scheme"
  assumes inv: "sys_inv l s"
  shows "\<exists>p t. process_create nm entry pr s = Some (p, t) \<and> sys_inv (if p = 0 then l else l @ [p]) t"
proof -
  note i = sys_inv_facts [OF inv]
  have self: "heap_live s p \<noteq> None" if "p \<in> set l" for p using i(7) that by (auto simp: proc_blocks_def)
  have "\<forall>p\<in>set (ready_queue s). heap_live s p \<noteq> None" using self i(5) by auto
  moreover have "current_process (scheduler s) \<noteq> 0 \<Longrightarrow> heap_live s (current_process (scheduler s)) \<noteq> None"
    using self i(5) by auto
  ultimately obtain p t where t: "process_create nm entry pr s = Some (p, t)"
    "if p = 0 then create_failed s t \<and> queue_wf (ready_queue s) t
     else process_count (scheduler s) < MAX_PROCESSES \<and> created nm entry pr p s t \<and> queue_wf (ready_queue s @ [p]) t"
    using process_create_cases [OF i(1,2) conjunct1 [OF sched_state_queue [OF i(3)]]] by metis
  then show ?thesis using create_failed_inv [OF inv] created_inv [OF inv] by (cases "p = 0") auto
qed

lemma blocks_owned_removed:
  assumes own: "blocks_owned (as @ p # ys) s"
    and live: "heap_live t = heap_live s |` (- set (proc_blocks s p))"
    and pb: "\<And>r. r \<in> set (as @ ys) \<Longrightarrow> proc_blocks t r = proc_blocks s r"
  shows "blocks_owned (as @ ys) t"
proof -
  have d: "distinct (concat (map (proc_blocks s) (as @ p # ys)))" using own by (simp add: blocks_owned_def)
  have m: "map (proc_blocks t) (as @ ys) = map (proc_blocks s) (as @ ys)" using pb by (rule map_cong [OF refl])
  have "distinct (concat (map (proc_blocks s) (as @ ys)))" using d by auto
  then have "distinct (concat (map (proc_blocks t) (as @ ys)))" unfolding m .
  moreover have "live_block 256 r t \<and> live_block 8192 (p_kernel_stack (proc t r)) t \<and>
      live_block 8192 (p_user_stack (proc t r)) t" if r: "r \<in> set (as @ ys)" for r
  proof -
    have kept: "live_block n b t" if "live_block n b s" "b \<in> set (proc_blocks s r)" for n b
    proof -
      have "b \<notin> set (proc_blocks s p)" using that(2) d r by auto
      then show ?thesis using that(1) by (simp add: live_block_def live)
    qed
    have "live_block 256 r s \<and> live_block 8192 (p_kernel_stack (proc s r)) s \<and>
      live_block 8192 (p_user_stack (proc s r)) s"
      using own r by (auto simp: blocks_owned_def)
    moreover have "p_kernel_stack (proc t r) = p_kernel_stack (proc s r)" "p_user_stack (proc t r) = p_user_stack (proc s r)"
      using pb [OF r] by (simp_all add: proc_blocks_def)
    ultimately show ?thesis using kept by (simp add: proc_blocks_def)
  qed
  ultimately show ?thesis unfolding blocks_owned_def by blast
qed

lemma kill_inv:
  fixes s :: "'a sched_scheme"
  assumes inv: "sys_inv l s" and p: "p \<in> set (ready_queue s)"
  defines "t \<equiv> process_kill p s"
  shows "sys_inv (remove1 p l) t"
    "heap_live t = heap_live s |` (- set (proc_blocks s p))" "ready_queue t = remove1 p (ready_queue s)"
    "\<And>q k x. q \<notin> set (proc_blocks s p) \<Longrightarrow> heap_live s q = Some k \<Longrightarrow> x \<in> bytes_at q (unat k) \<Longrightarrow>
       mem8 t x = mem8 s x"
proof -
  let ?cur = "current_process (scheduler s)" and ?qs = "ready_queue s"
  note i = sys_inv_facts [OF inv]
  note q = sched_state_queue [OF i(3)]
  obtain xs ys where qs: "?qs = xs @ p # ys" using p by (auto dest: split_list)
  have wf: "queue_wf (xs @ p # ys) s" using q qs by simp
  have dq: "distinct (xs @ p # ys)" using wf by (simp add: queue_wf_def)
  obtain as where as: "l = as @ p # ys" "remove1 p l = as @ ys" "as = (if ?cur = 0 then [] else [?cur]) @ xs"
    using i(5,6) qs dq p by (cases "?cur = 0") (auto simp: remove1_append)
  note own = i(4) [unfolded as(1)]
  then have d: "distinct (concat (map (proc_blocks s) (as @ p # ys)))" by (simp add: blocks_owned_def)
  then have dp: "distinct [p, p_kernel_stack (proc s p), p_user_stack (proc s p)]"
    by (simp add: proc_blocks_def)
  have pb: "{p, p_kernel_stack (proc s p), p_user_stack (proc s p)} = set (proc_blocks s p)"
    by (simp add: proc_blocks_def)
  have lp: "\<forall>b\<in>{p, p_kernel_stack (proc s p), p_user_stack (proc s p)}. heap_live s b \<noteq> None"
    unfolding pb using i(7) [of p] as(1) by auto
  note k = process_kill_spec [OF wf i(1,2) dp lp, folded t_def, unfolded pb]
  show "heap_live t = heap_live s |` (- set (proc_blocks s p))" by (rule k(4))
  show "mem8 t x = mem8 s x" if "q \<notin> set (proc_blocks s p)" "heap_live s q = Some n" "x \<in> bytes_at q (unat n)" for q n x
    using that by (rule k(8))
  have rm: "remove1 p ?qs = xs @ ys" using dq by (simp add: qs remove1_append)
  show "ready_queue t = remove1 p ?qs" using queue_wf_ready [OF k(1)] rm by simp
  have un: "unlinked (proc t r) = unlinked (proc s r)" if "r \<in> set (as @ ys)" for r
  proof -
    have "r \<noteq> p" using d that by (auto simp: proc_blocks_def)
    then show ?thesis using k(5) by blast
  qed
  have "sched_state (as @ ys) t"
    unfolding as(3) append_assoc
    by (rule sched_state_list [OF i(3) k(1) k(7)])
      (use q qs i(6) unlinked_fields(3) [OF un] as(3) in auto)
  moreover have "blocks_owned (as @ ys) t"
    by (rule blocks_owned_removed [OF own k(4)]) (use unlinked_fields(5,7) [OF un] in \<open>simp add: proc_blocks_def\<close>)
  moreover have "unat (process_count (scheduler t)) = length (as @ ys)"
  proof -
    have "unat (process_count (scheduler s)) = Suc (length (as @ ys))" using inv as(1) by (simp add: sys_inv_def)
    moreover from this have "1 \<le> process_count (scheduler s)" by (simp add: word_le_nat_alt)
    ultimately show ?thesis by (simp add: k(6) unat_sub_exact)
  qed
  ultimately show "sys_inv (remove1 p l) t"
    using k(2,3) inv as(1,2) by (simp add: sys_inv_def)
qed

subsection \<open>Starting and yielding keep the invariant\<close>

text \<open>
  What \<open>context_switch_asm\<close> does to memory: the registers of the caller, \<open>r\<close> here, go to its control
  block, if it has one; the next process continues in the state after that.
\<close>

definition save_context :: "registers_t \<Rightarrow> u64 \<Rightarrow> u64 \<Rightarrow> 'a sched_scheme \<Rightarrow> 'a sched_scheme" where
  "save_context r cur nx s = (if cur = 0 then s else upd_proc cur (\<lambda>t. t\<lparr>p_registers := r\<rparr>) s)"

lemma save_context_same:
  "keeps s (save_context r a b s)" "sched_state l (save_context r a b s) = sched_state l s"
  "current_process (scheduler (save_context r a b s)) = current_process (scheduler s)"
proof -
  show "keeps s (save_context r a b s)" by (simp add: save_context_def keeps_proc)
  have p: "p_state (proc (save_context r a b s) z) = p_state (proc s z)" for z by (simp add: save_context_def)
  have sc: "scheduler (save_context r a b s) = scheduler s" by (simp add: save_context_def)
  then show "current_process (scheduler (save_context r a b s)) = current_process (scheduler s)" by simp
  have "queue_wf qs (save_context r a b s) = queue_wf qs s" for qs
    by (rule queue_wf_cong) (simp_all add: save_context_def)
  then show "sched_state l (save_context r a b s) = sched_state l s"
    by (simp add: sched_state_def sched_at_def sc p)
qed

lemma pick_next_keeps: "scheduler_pick_next s = (q, t) \<Longrightarrow> keeps s t"
  by (auto simp: scheduler_pick_next_def Let_def split: if_splits prod.splits
      intro!: keeps_steps(1,2,4) elim!: keeps_steps(5) [rotated] intro: keeps_steps(3))

lemma yield_inv:
  fixes s :: "'a sched_scheme" and r :: registers_t
  assumes inv: "sys_inv l s" and cur: "current_process (scheduler s) \<noteq> 0"
  defines "t \<equiv> do_schedule (save_context r) s"
  shows "sys_inv (all_procs t) t \<and> (all_procs t = l \<or> all_procs t = rotate1 l)"
proof -
  have at: "sched_at l s" using inv cur by (simp add: sys_inv_def sched_state_def)
  obtain x xs where l: "l = x # xs" using at by (cases l) (auto simp: sched_at_def)
  obtain q u where pick: "scheduler_pick_next s = (q, u)" by (metis surj_pair)
  have "t = u \<or> t = save_context r (current_process (scheduler s)) q (upd_sched (\<lambda>c. c\<lparr>current_process := q\<rparr>) u)"
    by (auto simp: t_def do_schedule_def pick Let_def)
  then have kt: "keeps s t"
  proof
    assume "t = u"
    then show ?thesis using pick_next_keeps [OF pick] by simp
  next
    assume t: "t = save_context r (current_process (scheduler s)) q (upd_sched (\<lambda>c. c\<lparr>current_process := q\<rparr>) u)"
    have "keeps s (upd_sched (\<lambda>c. c\<lparr>current_process := q\<rparr>) u)"
      by (rule keeps_steps(2) [OF pick_next_keeps [OF pick]]) simp
    then show ?thesis unfolding t by (rule keeps_trans [OF _ save_context_same(1)])
  qed
  have "\<exists>l'. sched_at l' t \<and> (l' = l \<or> l' = rotate1 l)"
  proof (cases "p_time_slice_remaining (proc s x) = 0")
    case False
    then show ?thesis using do_schedule_keeps [OF at [unfolded l] False] at by (auto simp: t_def)
  next
    case True
    obtain u where u: "t = (if xs = [] then u else save_context r x (hd xs) u)" "sched_at (xs @ [x]) u"
      using do_schedule_switches(1,2) [OF at [unfolded l] True] unfolding t_def by blast
    have c: "current_process (scheduler u) \<noteq> 0" using u(2) by (auto simp: sched_at_def)
    then have "sched_state (xs @ [x]) u" using u(2) by (simp add: sched_state_def)
    then have st: "sched_state (xs @ [x]) t" unfolding u(1) by (cases "xs = []") (simp_all add: save_context_same(2))
    have "current_process (scheduler t) \<noteq> 0" unfolding u(1) using c by (simp add: save_context_same(3))
    then have "sched_at (xs @ [x]) t" using st by (simp add: sched_state_def)
    then show ?thesis using l by auto
  qed
  then obtain l' where l': "sched_at l' t" "l' = l \<or> l' = rotate1 l" by blast
  then have "sched_state l' t" by (auto simp: sched_state_def sched_at_def)
  from sys_inv_step [OF inv kt this l'(2)] sched_state_procs [OF this] l'(2) show ?thesis by auto
qed

subsection \<open>Other users of the heap\<close>

text \<open>An allocation or a release by other code leaves the processes and their memory alone.\<close>

lemma sys_inv_heap:
  fixes s t :: "'a sched_scheme"
  assumes inv: "sys_inv l s" and same: "proc t = proc s" "scheduler t = scheduler s"
    and heap: "heap_ok t" "heap_solo t"
    and live: "\<And>p b k. p \<in> set l \<Longrightarrow> b \<in> set (proc_blocks s p) \<Longrightarrow> heap_live s b = Some k \<Longrightarrow> heap_live t b = Some k"
  shows "sys_inv l t"
proof -
  have blocks: "proc_blocks t = proc_blocks s" by (simp add: proc_blocks_def same fun_eq_iff)
  have "live_block n b t" if "p \<in> set l" "b \<in> set (proc_blocks s p)" "live_block n b s" for n b p
    using that live by (fastforce simp: live_block_def)
  then have "blocks_owned l t"
    using inv unfolding sys_inv_def blocks_owned_def blocks same by (fastforce simp: proc_blocks_def)
  moreover have "queue_wf xs t = queue_wf xs s" for xs by (rule queue_wf_cong) (simp_all add: same)
  then have "sched_state l t = sched_state l s" by (cases l) (simp_all add: sched_state_def sched_at_def same)
  ultimately show ?thesis using inv heap by (simp add: sys_inv_def same)
qed

lemma alloc_inv:
  fixes s :: "'a sched_scheme"
  assumes inv: "sys_inv l s" and n: "unat n < 2 ^ 63" and t: "kmalloc n s = Some (p, t)"
  shows "sys_inv l t"
proof -
  have ok: "heap_ok s" "heap_solo s" using inv by (simp_all add: sys_inv_def)
  have c: "heap_ok t" "heap_solo t" "proc t = proc s" "scheduler t = scheduler s"
    "if p = 0 then heap_live t = heap_live s else new_block n p s t"
    using kmalloc_client [OF ok n] t by auto
  show ?thesis
    by (rule sys_inv_heap [OF inv c(3,4,1,2)]) (use c(5) in \<open>auto simp: new_block_def split: if_splits\<close>)
qed

lemma release_inv:
  fixes s :: "'a sched_scheme"
  assumes inv: "sys_inv l s" and p: "heap_live s p = Some k" "\<forall>q\<in>set l. p \<notin> set (proc_blocks s q)"
  shows "sys_inv l (kfree p s)"
proof -
  have ok: "heap_ok s" "heap_solo s" using inv by (simp_all add: sys_inv_def)
  note f = kfree_spec [OF ok(1) p(1)]
  show ?thesis by (rule sys_inv_heap [OF inv]) (use f ok(2) p in auto)
qed

subsection \<open>Runs\<close>

text \<open>
  The steps of the scheduler: creation with its result, removal of a ready process, the start with
  the first process, a timer tick with the stack pointer it finds and the one it returns, and a
  yield of the running process with its registers. After a start or a yield, the next process
  continues in the state that is handed to the context switch. Between them other code may allocate
  from the heap and release what is not the memory of a process.
\<close>

datatype sys_event = Create "string option" u64 u32 u64 | Kill u64 | Start u64 | Tick u64 u64 | Yield registers_t
  | Alloc u64 u64 | Release u64

inductive sys_step :: "'a sched_scheme \<Rightarrow> sys_event \<Rightarrow> 'a sched_scheme \<Rightarrow> bool" where
  step_create: "process_create nm entry pr s = Some (p, t) \<Longrightarrow> sys_step s (Create nm entry pr p) t"
| step_kill: "p \<in> set (ready_queue s) \<Longrightarrow> sys_step s (Kill p) (process_kill p s)"
| step_start: "current_process (scheduler s) = 0 \<Longrightarrow> p \<noteq> 0 \<Longrightarrow>
    (\<forall>switch. scheduler_start switch s = vga_print (line '''') VGA_COLOR_WHITE
      (vga_print ''[ERR] Context switch returned!'' VGA_COLOR_LIGHT_RED (switch 0 p t))) \<Longrightarrow>
    sys_step s (Start p) t"
| step_tick: "preempt_handler sp s = Some (q, t) \<Longrightarrow> sys_step s (Tick sp q) t"
| step_yield: "current_process (scheduler s) \<noteq> 0 \<Longrightarrow> sys_step s (Yield r) (do_schedule (save_context r) s)"
| step_alloc: "unat n < 2 ^ 63 \<Longrightarrow> kmalloc n s = Some (p, t) \<Longrightarrow> sys_step s (Alloc n p) t"
| step_release: "heap_live s p = Some k \<Longrightarrow> \<forall>q\<in>set (all_procs s). p \<notin> set (proc_blocks s q) \<Longrightarrow>
    sys_step s (Release p) (kfree p s)"

inductive sys_run :: "'a sched_scheme \<Rightarrow> sys_event list \<Rightarrow> 'a sched_scheme \<Rightarrow> bool" where
  run_nil: "sys_run s [] s"
| run_cons: "sys_step s e t \<Longrightarrow> sys_run t es u \<Longrightarrow> sys_run s (e # es) u"

inductive_simps sys_run_simps: "sys_run s [] u" "sys_run s (e # es) u"

text \<open>What a sequence of events says about which processes there are.\<close>

fun alive_step :: "sys_event \<Rightarrow> u64 set \<Rightarrow> u64 set" where
  "alive_step (Create nm entry pr p) A = (if p = 0 then A else insert p A)"
| "alive_step (Kill p) A = A - {p}"
| "alive_step (Start p) A = A"
| "alive_step (Tick sp q) A = A"
| "alive_step (Yield r) A = A"
| "alive_step (Alloc n p) A = A"
| "alive_step (Release p) A = A"

definition alive :: "sys_event list \<Rightarrow> u64 set \<Rightarrow> u64 set" where
  "alive es A = fold alive_step es A"

lemma start_inv:
  fixes s t :: "'a sched_scheme"
  assumes inv: "sys_inv l s" and cur: "current_process (scheduler s) = 0" and p: "p \<noteq> 0"
    and start: "\<forall>switch. scheduler_start switch s = vga_print (line '''') VGA_COLOR_WHITE
      (vga_print ''[ERR] Context switch returned!'' VGA_COLOR_LIGHT_RED (switch 0 p t))"
  shows "sys_inv l t" "hd l = p" "\<forall>z. p_time_slice_remaining (proc t z) = p_time_slice_remaining (proc s z)"
    "\<forall>z. p_total_ticks (proc t z) = p_total_ticks (proc s z)"
proof -
  have l: "queue_wf l s" "\<forall>z\<in>set l. p_state (proc s z) = PROCESS_READY"
    using inv cur by (simp_all add: sys_inv_def sched_state_def)
  define mark where "mark q w u = (if q = p \<and> u = t then u\<lparr>hw_trace := []\<rparr> else u\<lparr>hw_trace := [w]\<rparr>)"
    for q :: u64 and w and u :: "'a sched_scheme"
  have empty: "hw_trace (scheduler_start (\<lambda>_ q. mark q Hlt) s) = []"
    using start by (simp add: mark_def)
  obtain x xs where x: "l = x # xs"
  proof (cases l)
    case Nil
    then have "queue_dequeue s = (0, s)" using l(1) queue_dequeue_empty by simp
    then have "hw_trace (scheduler_start (\<lambda>_ _ u. u\<lparr>hw_trace := Hlt # hw_trace s\<rparr>) s) = hw_trace s"
      by (simp add: scheduler_start_def)
    then show thesis using start by simp
  next
    case (Cons x xs)
    then show thesis by (rule that)
  qed
  obtain v where v: "\<forall>switch. scheduler_start switch s = vga_print (line '''') VGA_COLOR_WHITE
      (vga_print ''[ERR] Context switch returned!'' VGA_COLOR_LIGHT_RED (switch 0 x v))"
    "sched_at (x # xs) v" "keeps s v" "\<forall>z. p_time_slice_remaining (proc v z) = p_time_slice_remaining (proc s z)"
    "\<forall>z. p_total_ticks (proc v z) = p_total_ticks (proc s z)"
    using scheduler_start_spec [OF l [unfolded x]] by metis
  have "hw_trace (scheduler_start (\<lambda>_ q. mark q Hlt) s) = hw_trace (mark x Hlt v)" using v(1) by simp
  then have tv: "x = p" "v = t" using empty by (auto simp: mark_def split: if_splits)
  have "sched_state l v" using v(2) x by (auto simp: sched_state_def sched_at_def)
  from sys_inv_step [OF inv v(3) this] show "sys_inv l t" by (simp add: tv)
  show "hd l = p" using x tv by simp
  show "\<forall>z. p_time_slice_remaining (proc t z) = p_time_slice_remaining (proc s z)"
    "\<forall>z. p_total_ticks (proc t z) = p_total_ticks (proc s z)" using v(4,5) tv by simp_all
qed

lemma sys_step_inv:
  assumes step: "sys_step s e t" and inv: "sys_inv (all_procs s) s"
  shows "sys_inv (all_procs t) t \<and> set (all_procs t) = alive_step e (set (all_procs s))"
  using step
proof cases
  case (step_create nm entry pr p)
  then have "sys_inv (if p = 0 then all_procs s else all_procs s @ [p]) t"
    using create_inv [OF inv, of nm entry pr] by auto
  moreover from this have "all_procs t = (if p = 0 then all_procs s else all_procs s @ [p])"
    by (simp only: sys_inv_def sched_state_procs)
  ultimately show ?thesis using step_create by auto
next
  case (step_kill p)
  note k = kill_inv(1-3) [OF inv step_kill(3)]
  then have "all_procs t = remove1 p (all_procs s)" using step_kill by (simp only: sys_inv_def sched_state_procs)
  moreover have "distinct (all_procs s)"
    using inv by (auto simp: sys_inv_def sched_state_def sched_at_def queue_wf_def split: if_splits)
  ultimately show ?thesis using k step_kill by (simp add: set_remove1_eq)
next
  case (step_start p)
  note st = start_inv(1) [OF inv step_start(2-4)]
  then have "all_procs t = all_procs s" by (simp only: sys_inv_def sched_state_procs)
  then show ?thesis using st step_start by simp
next
  case (step_tick sp q)
  then show ?thesis using tick_inv [OF inv, of sp] by auto
next
  case (step_yield r)
  then show ?thesis using yield_inv [OF inv step_yield(3), of r] by auto
next
  case (step_alloc n p)
  note a = alloc_inv [OF inv step_alloc(2,3)]
  then have "all_procs t = all_procs s" by (simp only: sys_inv_def sched_state_procs)
  then show ?thesis using a step_alloc(1) by simp
next
  case (step_release p k)
  note r = release_inv [OF inv step_release(3,4)]
  then have "all_procs t = all_procs s" using step_release(2) by (simp only: sys_inv_def sched_state_procs)
  then show ?thesis using r step_release(1,2) by simp
qed

lemma sys_run_inv:
  "sys_run s es u \<Longrightarrow> sys_inv (all_procs s) s \<Longrightarrow>
    sys_inv (all_procs u) u \<and> set (all_procs u) = alive es (set (all_procs s))"
proof (induction rule: sys_run.induct)
  case (run_nil s)
  then show ?case by (simp add: alive_def)
next
  case (run_cons s e t es u)
  with sys_step_inv [OF run_cons.hyps(1)] show ?case by (simp add: alive_def)
qed

end
