(* ===== verification/Sched_Correct.thy ===== *)
theory Sched_Correct
  imports System
begin

text \<open>
  Properties of processes and of the scheduler as a whole: creation, names, removal, every run of
  the system, and the way from \<open>scheduler_init\<close> to processes that take turns.
\<close>

subsection \<open>Room for a process\<close>

text \<open>
  Creation succeeds if its three allocations do: \<open>R i\<close> is what suffices for the last \<open>i\<close> of them,
  and only the blocks and the free frames matter to it.
\<close>

lemma process_create_supplied:
  fixes s :: "'a sched_scheme" and R :: "nat \<Rightarrow> 'a sched_scheme \<Rightarrow> bool"
  assumes ok: "heap_ok s" "heap_solo s" and count: "process_count (scheduler s) < MAX_PROCESSES"
    and cur: "current_process (scheduler s) \<noteq> 0 \<Longrightarrow> heap_live s (current_process (scheduler s)) \<noteq> None"
    and block: "\<And>s. heap_ok s \<Longrightarrow> heap_solo s \<Longrightarrow> R 3 s \<Longrightarrow>
      \<exists>p t. kmalloc PROCESS_T_SIZE s = Some (p, t) \<and> p \<noteq> 0 \<and> R 2 t"
    and stack: "\<And>i s. heap_ok s \<Longrightarrow> heap_solo s \<Longrightarrow> i < 2 \<Longrightarrow> R (Suc i) s \<Longrightarrow>
      \<exists>p t. kmalloc PROCESS_STACK_SIZE s = Some (p, t) \<and> p \<noteq> 0 \<and> R i t"
    and same: "\<And>i s t. heap_blocks t = heap_blocks s \<Longrightarrow> free_pfns t = free_pfns s \<Longrightarrow> R i s \<Longrightarrow> R i t"
    and R: "R 3 s"
  shows "\<exists>p t. process_create nm entry pr s = Some (p, t) \<and> p \<noteq> 0 \<and> R 0 t"
proof -
  obtain p s1 where 1: "kmalloc PROCESS_T_SIZE s = Some (p, s1)" "p \<noteq> 0" "R 2 s1"
    using block [OF ok R] by blast
  obtain ok1: "heap_ok s1" "heap_solo s1" and sc1: "scheduler s1 = scheduler s" and new: "heap_live s p = None"
    using kmalloc_client [OF ok, of PROCESS_T_SIZE] 1(1,2)
    by (auto simp: PROCESS_T_SIZE_def new_block_def)
  define s2 where "s2 = init_block p nm pr s1"
  have "current_process (scheduler s1) \<noteq> p" using cur new 1(2) by (auto simp: sc1)
  from init_block_spec(3) [OF this, of nm pr, folded s2_def] have e2: "heap_eq s1 s2" .
  note same2 = heap_eq_same [OF e2]
  have ok2: "heap_ok s2" "heap_solo s2" using ok1 same2 by simp_all
  have R2: "R (Suc 1) s2" using same [OF same2(5,6) 1(3)] by (simp add: numeral_2_eq_2)
  have sz: "unat PROCESS_STACK_SIZE < 2 ^ 63" by (simp add: PROCESS_STACK_SIZE_def)
  obtain ks s3 where 3: "kmalloc PROCESS_STACK_SIZE s2 = Some (ks, s3)" "ks \<noteq> 0" "R 1 s3"
    using stack [OF ok2 _ R2] by auto
  obtain ok3: "heap_ok s3" "heap_solo s3" and nb3: "new_block PROCESS_STACK_SIZE ks s2 s3"
    using kmalloc_client [OF ok2 sz] 3(1,2) by auto
  define s4 where "s4 = upd_proc p (\<lambda>t. t\<lparr>p_kernel_stack := ks\<rparr>) s3"
  have ok4: "heap_ok s4" "heap_solo s4" using ok3 by (simp_all add: s4_def)
  have R4: "R (Suc 0) s4" using same [of s4 s3] 3(3) by (simp add: s4_def)
  obtain us s5 where 5: "kmalloc PROCESS_STACK_SIZE s4 = Some (us, s5)" "us \<noteq> 0" "R 0 s5"
    using stack [OF ok4 _ R4] by auto
  define s6 where "s6 = upd_proc p (\<lambda>t. t\<lparr>p_user_stack := us\<rparr>) s5"
  have p5: "proc s5 = proc s4" and ok5: "heap_ok s5" and nb5: "new_block PROCESS_STACK_SIZE us s4 s5"
    using kmalloc_client [OF ok4 sz] 5(1,2) by auto
  obtain j where j: "8192 \<le> j" "heap_live s3 ks = Some j"
    using nb3 by (auto simp: new_block_def PROCESS_STACK_SIZE_def)
  then have live: "heap_live s6 ks = Some j" "heap_ok s6"
    using nb5 ok5 by (simp_all add: new_block_def s6_def s4_def)
  have ks6: "p_kernel_stack (proc s6 p) = ks" by (simp add: s6_def p5 s4_def)
  define s7 where "s7 = init_stack p entry s6"
  note ist = init_stack_spec [where p = p and entry = entry and s = s6, unfolded ks6, folded s7_def]
  have "mem8 s7 x = mem8 s6 x" if "x \<notin> bytes_at ks (unat j)" for x
    by (rule ist(4), rule stack_frame_inside [OF live(2,1) j(1) that])
  note same7 = heap_data_write(4,5) [OF live(2,1) this ist(5-9)]
  define t where "t = created_message p (upd_sched (\<lambda>c. c\<lparr>process_count := process_count c + 1\<rparr>) (queue_enqueue p s7))"
  have e7: "heap_eq s7 t"
    unfolding t_def by (rule heap_eq_trans [OF heap_eq_queue(1)
        heap_eq_trans [OF heap_eq_steps(2) created_message_same(1)]])
  note samet = heap_eq_same [OF e7]
  have "R 0 t" by (rule same [OF _ _ 5(3)]) (simp_all add: samet same7 s6_def)
  moreover have "give_stacks p entry s2 = Some (p, t)"
    using 3(1,2) 5(1,2) unfolding give_stacks_def Let_def t_def s7_def s6_def s4_def by simp
  moreover have "process_create nm entry pr s = give_stacks p entry s2"
    using 1(1,2) count leD [of MAX_PROCESSES "process_count (scheduler s)"] by (auto simp: process_create_def s2_def)
  ultimately show ?thesis using 1(2) by (intro exI [of _ p] exI [of _ t]) simp
qed

text \<open>
  Room for \<open>m\<close> processes: a free block of 16752 bytes for each, or twelve free frames for each, from
  which the heap can grow.
\<close>

definition room_for :: "nat \<Rightarrow> 'a kheap_scheme \<Rightarrow> bool" where
  "room_for m s \<longleftrightarrow> (\<exists>k. (k, True) \<in> set (heap_blocks s) \<and> 16752 * m \<le> unat k) \<or> 12 * m \<le> card (free_pfns s)"

lemma process_create_room:
  fixes s :: "'a sched_scheme"
  assumes ok: "heap_ok s" "heap_solo s" and count: "process_count (scheduler s) < MAX_PROCESSES"
    and cur: "current_process (scheduler s) \<noteq> 0 \<Longrightarrow> heap_live s (current_process (scheduler s)) \<noteq> None"
    and room: "room_for (Suc m) s"
  shows "\<exists>p t. process_create nm entry pr s = Some (p, t) \<and> p \<noteq> 0 \<and> room_for m t"
proof -
  define need :: "nat \<Rightarrow> nat" where "need i = 16752 * m + (if i = 3 then 16752 else 8224 * i + 16)" for i
  have sz: "PROCESS_T_SIZE \<noteq> 0" "8 dvd unat PROCESS_T_SIZE" "unat PROCESS_T_SIZE = 256"
    "PROCESS_STACK_SIZE \<noteq> 0" "8 dvd unat PROCESS_STACK_SIZE" "unat PROCESS_STACK_SIZE = 8192"
    by (simp_all add: PROCESS_T_SIZE_def PROCESS_STACK_SIZE_def)
  consider k where "(k, True) \<in> set (heap_blocks s)" "need 3 \<le> unat k" | "12 * m + 4 * 3 \<le> card (free_pfns s)"
    using room by (auto simp: room_for_def need_def)
  then show ?thesis
  proof cases
    case 1
    let ?R = "\<lambda>i s. \<exists>k. (k, True) \<in> set (heap_blocks s) \<and> need i \<le> unat k"
    have "\<exists>p t. process_create nm entry pr s = Some (p, t) \<and> p \<noteq> 0 \<and> ?R 0 t"
    proof (rule process_create_supplied [OF ok count cur, where R = ?R])
      fix s :: "'a sched_scheme" assume o: "heap_ok s" "heap_solo s" "?R 3 s"
      then obtain k where k: "(k, True) \<in> set (heap_blocks s)" "need 3 \<le> unat k" by blast
      show "\<exists>p t. kmalloc PROCESS_T_SIZE s = Some (p, t) \<and> p \<noteq> 0 \<and> ?R 2 t"
        using kmalloc_room [OF o(1,2) sz(1,2) _ k(1)] k(2) sz(3) by (fastforce simp: need_def)
    next
      fix i and s :: "'a sched_scheme" assume o: "heap_ok s" "heap_solo s" "i < 2" "?R (Suc i) s"
      then obtain k where k: "(k, True) \<in> set (heap_blocks s)" "need (Suc i) \<le> unat k" by blast
      show "\<exists>p t. kmalloc PROCESS_STACK_SIZE s = Some (p, t) \<and> p \<noteq> 0 \<and> ?R i t"
        using kmalloc_room [OF o(1,2) sz(4,5) _ k(1)] k(2) sz(6) o(3) by (fastforce simp: need_def)
    qed (use 1 in auto)
    then show ?thesis unfolding room_for_def need_def by fastforce
  next
    case 2
    let ?R = "\<lambda>i s :: 'a sched_scheme. 12 * m + 4 * i \<le> card (free_pfns s)"
    have "\<exists>p t. process_create nm entry pr s = Some (p, t) \<and> p \<noteq> 0 \<and> ?R 0 t"
    proof (rule process_create_supplied [OF ok count cur, where R = ?R])
      fix s :: "'a sched_scheme" assume o: "heap_ok s" "heap_solo s" "?R 3 s"
      then show "\<exists>p t. kmalloc PROCESS_T_SIZE s = Some (p, t) \<and> p \<noteq> 0 \<and> ?R 2 t"
        using kmalloc_pages [OF o(1,2) sz(1)] sz(3) by fastforce
    next
      fix i and s :: "'a sched_scheme" assume o: "heap_ok s" "heap_solo s" "i < 2" "?R (Suc i) s"
      then show "\<exists>p t. kmalloc PROCESS_STACK_SIZE s = Some (p, t) \<and> p \<noteq> 0 \<and> ?R i t"
        using kmalloc_pages [OF o(1,2) sz(4)] sz(6) by fastforce
    qed (use 2 in auto)
    then show ?thesis by (auto simp: room_for_def)
  qed
qed

subsection \<open>All that is known of a call\<close>

lemma process_create_full:
  fixes s :: "'a sched_scheme"
  assumes inv: "sys_inv l s"
  shows "\<exists>p t. process_create nm entry pr s = Some (p, t) \<and> sys_inv (if p = 0 then l else l @ [p]) t \<and>
    (if p = 0 then create_failed s t else created nm entry pr p s t) \<and>
    (process_count (scheduler s) < MAX_PROCESSES \<longrightarrow> room_for (Suc m) s \<longrightarrow> p \<noteq> 0 \<and> room_for m t)"
proof -
  have ok: "heap_ok s" "heap_solo s" and ss: "sched_state l s" and own: "blocks_owned l s"
    using inv by (simp_all add: sys_inv_def)
  note q = sched_state_queue [OF ss]
  have live: "p \<in> set l \<Longrightarrow> heap_live s p \<noteq> None" for p
    using own by (auto simp: blocks_owned_def dest!: live_block_live)
  have cur: "current_process (scheduler s) \<noteq> 0 \<Longrightarrow> heap_live s (current_process (scheduler s)) \<noteq> None"
    using live ss sched_state_procs [OF ss] by (auto simp: all_procs_def)
  obtain p t where t: "process_create nm entry pr s = Some (p, t)" "sys_inv (if p = 0 then l else l @ [p]) t"
    using create_inv [OF inv] by blast
  have "if p = 0 then create_failed s t else created nm entry pr p s t"
    using process_create_cases [OF ok conjunct1 [OF q] _ cur, of nm entry pr] live q t(1) by (auto split: if_splits)
  moreover have "p \<noteq> 0 \<and> room_for m t"
    if "process_count (scheduler s) < MAX_PROCESSES" "room_for (Suc m) s"
    using process_create_room [OF ok that(1) cur that(2), of nm entry pr] t(1) by auto
  ultimately show ?thesis using t by blast
qed

subsection \<open>A machine with a heap and no processes\<close>

text \<open>
  Twenty-four frames, all in use: the third holds the bitmap, and the heap has the sixteen from
  the fourth on, as one free block.
\<close>

definition demo_sys :: sched where
  "demo_sys = (kheap.extend demo_heap
     \<lparr>proc = (\<lambda>_. zero_process),
      scheduler = \<lparr>ready_queue_head = 0, ready_queue_tail = 0, current_process = 0,
        next_pid = 1, process_count = 0, total_ticks = 0\<rparr>,
      need_reschedule = 0\<rparr>)
     \<lparr>mem8 := (\<lambda>_. 0)(0x2000 := 0xFF, 0x2001 := 0xFF, 0x2002 := 0xFF, 0x3000 := 0xE0, 0x3001 := 0xFF, 0x3008 := 1),
      total_pages := 24, used_pages := 24, heap_start := 0x3000, total_heap_size := 0x10000\<rparr>"

lemma demo_sys_fields [simp]:
  "mem8 demo_sys = (\<lambda>_. 0)(0x2000 := 0xFF, 0x2001 := 0xFF, 0x2002 := 0xFF, 0x3000 := 0xE0, 0x3001 := 0xFF, 0x3008 := 1)"
  "bitmap demo_sys = 0x2000" "total_pages demo_sys = 24" "used_pages demo_sys = 24"
  "heap_start demo_sys = 0x3000" "total_heap_size demo_sys = 0x10000"
  "current_process (scheduler demo_sys) = 0" "ready_queue_head (scheduler demo_sys) = 0"
  "ready_queue_tail (scheduler demo_sys) = 0" "process_count (scheduler demo_sys) = 0"
  "next_pid (scheduler demo_sys) = 1" "total_ticks (scheduler demo_sys) = 0"
  by (simp_all add: demo_sys_def kheap.defs)

lemma below_24: "list_all (\<lambda>k. P (word_of_nat k)) [0..<24] \<Longrightarrow> n < 24 \<Longrightarrow> P (n :: u64)"
proof -
  assume P: "list_all (\<lambda>k. P (word_of_nat k)) [0..<24]" and "n < 24"
  then have "unat n < 24" by (simp add: word_less_nat_alt)
  with P have "P (word_of_nat (unat n))" unfolding list_all_iff set_upt by (meson atLeastLessThan_iff zero_le)
  then show ?thesis by simp
qed

lemma demo_sys_test: "n < 24 \<Longrightarrow> bitmap_test n demo_sys"
  by (rule below_24 [where P = "\<lambda>n. bitmap_test n demo_sys"])
    (simp_all add: upt_rec bitmap_test_def bitmap_cell_def bitmap_mask_def)

lemma demo_sys_cell: "n < 24 \<Longrightarrow> unat (0x2000 + n div 8 :: u64) < 0x3000"
  by (rule below_24 [where P = "\<lambda>n. unat (0x2000 + n div 8 :: u64) < 0x3000"]) (simp_all add: upt_rec)

lemma demo_sys_heap: "heap_inv [(65504, True)] demo_sys"
proof -
  have free: "free_pfns demo_sys = {}" by (auto simp: free_pfns_def demo_sys_test)
  have "used_pfns demo_sys = {n. n < 24}" by (auto simp: used_pfns_def demo_sys_test)
  then have "pmm_ok demo_sys" by (simp add: pmm_ok_def card_below_word)
  moreover have "bitmap_apart demo_sys" by (simp add: bitmap_apart_def free_pages_def free)
  moreover have "read_header (mem8 demo_sys) 0x3000 = \<lparr>blk_size = 65504, blk_free = True, blk_next = 0, blk_prev = 0\<rparr>"
    by (simp add: read_header_def load64_def load_le_def upt_rec)
  moreover have "x \<notin> bitmap_cells demo_sys" if "0x3000 \<le> unat x" for x
    using that demo_sys_cell by (fastforce simp: bitmap_cells_def bitmap_cell_def)
  then have "heap_apart demo_sys 0x3000 65536"
    by (auto simp: heap_apart_def bytes_at_def free_pages_def free)
  ultimately show ?thesis by (simp add: heap_inv_def aligned8_def)
qed

lemma demo_sys_ok: "heap_ok demo_sys" "heap_blocks demo_sys = [(65504, True)]" "heap_solo demo_sys"
proof -
  show "heap_ok demo_sys" "heap_blocks demo_sys = [(65504, True)]"
    using heap_okI [OF demo_sys_heap] by simp_all
  have "free_pfns demo_sys = {n. 1 \<le> n \<and> n < 0}" by (auto simp: free_pfns_def demo_sys_test)
  then show "heap_solo demo_sys" unfolding heap_solo_def by (intro exI [of _ 1] exI [of _ 0]) simp
qed

lemma demo_sys_room: "m \<le> 3 \<Longrightarrow> room_for m demo_sys"
  by (simp add: room_for_def demo_sys_ok)

lemma demo_sys_inv: "sys_inv [] demo_sys"
  using demo_sys_ok by (simp add: sys_inv_def sched_state_def queue_wf_def blocks_owned_def)

subsection \<open>Creating and removing\<close>

lemma laid_outside: "length q < i \<Longrightarrow> ((laid 0 q buf)(length q := c)) i = buf i"
  by (simp add: laid_def)

text \<open>
  Property C9. In every state that satisfies the invariant, \<open>process_create\<close> returns. A null result
  leaves the live blocks, the processes, the queue and the count as they were, whichever of the
  three allocations failed. Otherwise the new process is at the end of the queue with the next
  number, ready, with a full slice; its control block and stacks are three new blocks; the top of
  its kernel stack holds the frame from which the interrupt stub enters \<open>entry\<close> with interrupts on;
  no other process changed. In both cases the bytes of all older blocks are untouched, and if there
  are fewer than 256 processes and the heap has a free block of 16752 bytes, or there are twelve
  free frames for it to grow by, the call succeeds.
\<close>

theorem process_create_correct:
  fixes s :: "'a sched_scheme"
  assumes "sys_inv l s"
  shows "\<exists>p t. process_create nm entry pr s = Some (p, t) \<and>
    (if p = 0
     then sys_inv l t \<and> heap_live t = heap_live s \<and> process_count (scheduler t) = process_count (scheduler s) \<and>
       (\<forall>q. heap_live s q \<noteq> None \<longrightarrow> proc t q = proc s q)
     else sys_inv (l @ [p]) t \<and> new_process nm entry pr p s (proc t p) \<and>
       frame_at (mem8 t) (rsp (p_registers (proc t p))) (p_kernel_stack_top (proc t p)) entry \<and>
       process_count (scheduler t) = process_count (scheduler s) + 1 \<and>
       (\<exists>i\<ge>256. \<exists>j\<ge>8192. \<exists>k\<ge>8192. heap_live t =
          heap_live s ++ [p \<mapsto> i, p_kernel_stack (proc t p) \<mapsto> j, p_user_stack (proc t p) \<mapsto> k]) \<and>
       (\<forall>q. q \<noteq> p \<longrightarrow> unlinked (proc t q) = unlinked (proc s q))) \<and>
    (\<forall>q k x. heap_live s q = Some k \<longrightarrow> x \<in> bytes_at q (unat k) \<longrightarrow> mem8 t x = mem8 s x) \<and>
    (process_count (scheduler s) < 256 \<and> room_for 1 s \<longrightarrow> p \<noteq> 0)"
proof -
  obtain p t where t: "process_create nm entry pr s = Some (p, t)" "sys_inv (if p = 0 then l else l @ [p]) t"
    "if p = 0 then create_failed s t else created nm entry pr p s t"
    using process_create_full [OF assms] by metis
  have "p \<noteq> 0" if "process_count (scheduler s) < 256" "room_for 1 s"
    using process_create_full [OF assms, of nm entry pr 0] that t(1) by (auto simp: MAX_PROCESSES_def)
  moreover have "\<exists>B. heap_grows B s t"
    using t(3) by (auto simp: create_failed_def created_def Let_def split: if_splits)
  then have "\<forall>q k x. heap_live s q = Some k \<longrightarrow> x \<in> bytes_at q (unat k) \<longrightarrow> mem8 t x = mem8 s x"
    by (auto simp: heap_grows_def)
  moreover have "if p = 0
     then sys_inv l t \<and> heap_live t = heap_live s \<and> process_count (scheduler t) = process_count (scheduler s) \<and>
       (\<forall>q. heap_live s q \<noteq> None \<longrightarrow> proc t q = proc s q)
     else sys_inv (l @ [p]) t \<and> new_process nm entry pr p s (proc t p) \<and>
       frame_at (mem8 t) (rsp (p_registers (proc t p))) (p_kernel_stack_top (proc t p)) entry \<and>
       process_count (scheduler t) = process_count (scheduler s) + 1 \<and>
       (\<exists>i\<ge>256. \<exists>j\<ge>8192. \<exists>k\<ge>8192. heap_live t =
          heap_live s ++ [p \<mapsto> i, p_kernel_stack (proc t p) \<mapsto> j, p_user_stack (proc t p) \<mapsto> k]) \<and>
       (\<forall>q. q \<noteq> p \<longrightarrow> unlinked (proc t q) = unlinked (proc s q))"
  proof (cases "p = 0")
    case True
    then show ?thesis using t(2,3) by (auto simp: create_failed_def heap_grows_def)
  next
    case False
    then have c: "sys_inv (l @ [p]) t" "created nm entry pr p s t" using t(2,3) by simp_all
    note cr = c(2) [unfolded created_def Let_def]
    have "\<exists>i\<ge>256. \<exists>j\<ge>8192. \<exists>k\<ge>8192. heap_live t =
        heap_live s ++ [p \<mapsto> i, p_kernel_stack (proc t p) \<mapsto> j, p_user_stack (proc t p) \<mapsto> k]"
      using cr unfolding heap_grows_def by blast
    then show ?thesis using False c(1) cr by simp
  qed
  ultimately show ?thesis using t(1) by (intro exI [of _ p] exI [of _ t] conjI) auto
qed

theorem process_create_correct_witness:
  "\<exists>p t. process_create (Some ''init'') 0x101000 128 demo_sys = Some (p, t) \<and> p \<noteq> 0 \<and> sys_inv [p] t \<and>
     p_pid (proc t p) = 1 \<and>
     frame_at (mem8 t) (rsp (p_registers (proc t p))) (p_kernel_stack_top (proc t p)) 0x101000"
  using process_create_correct [OF demo_sys_inv, where nm = "Some ''init''" and entry = "0x101000" and pr = 128]
  by (auto simp: demo_sys_room new_process_def)

text \<open>
  Property C31. The name in a control block is a C string of at most 31 characters, and nothing is
  written behind the array. A given name is cut at 31 characters; when it is shorter, no terminator
  follows it: the name goes on with what the buffer held before, up to its next zero byte. Without
  a name it is \<open>proc_\<close> and the decimal number.
\<close>

theorem process_names:
  fixes n :: u64 and v :: u32
  assumes "0 < n"
  shows "(let cs = takeWhile (\<lambda>c. c \<noteq> CHR 0x00) src
      in c_str (unat n) (strncpy_safe dest src n) =
           take (unat n - 1) cs @ takeWhile (\<lambda>c. c \<noteq> CHR 0x00) (map dest [length cs..<unat n - 1])) \<and>
    (let ds = take (unat n - 1) (''proc_'' @ dec_string (unat v))
      in c_str (unat n) (snd (snprintf_safe dest n fmt v)) = ds \<and> fst (snprintf_safe dest n fmt v) = length ds) \<and>
    (\<forall>i\<ge>unat n. strncpy_safe dest src n i = dest i \<and> snd (snprintf_safe dest n fmt v) i = dest i)"
proof -
  note sn = snprintf_safe_name [OF assms, of dest fmt v]
  have "snd (snprintf_safe dest n fmt v) i = dest i" if "unat n \<le> i" for i
  proof -
    have "0 < unat n" using assms by (simp add: unat_gt_0)
    then have "length (take (unat n - 1) (''proc_'' @ dec_string (unat v))) < i" using that by simp
    then show ?thesis unfolding sn(1) snd_conv by (rule laid_outside)
  qed
  then show ?thesis
    using strncpy_safe_name [OF assms, where dest = dest and src = src] sn(2) unfolding Let_def sn(1) by simp
qed

lemma digit_7: "char_of (55 :: nat) = CHR ''7''"
  by code_simp

theorem process_names_witness:
  "c_str 32 (strncpy_safe (\<lambda>_. CHR ''x'') ''ab'' 32) = ''abxxxxxxxxxxxxxxxxxxxxxxxxxxxxx'' \<and>
   c_str 32 (snd (snprintf_safe (\<lambda>_. CHR ''x'') 32 ''proc_%u'' 7)) = ''proc_7''"
  using process_names [where n = 32 and src = "''ab''" and dest = "\<lambda>_. CHR ''x''" and fmt = "''proc_%u''" and v = 7] digit_7
  by (simp add: upt_rec dec_string.simps digit_char_def)

text \<open>
  Property C20. Killing a process right after its creation undoes it: the invariant holds again with
  the same processes in the same order, the three blocks are back in the heap, and the count is
  what it was. Of the older blocks no byte has changed.
\<close>

theorem process_kill_undoes:
  fixes s t :: "'a sched_scheme"
  assumes inv: "sys_inv l s" and cr: "process_create nm entry pr s = Some (p, t)" and p: "p \<noteq> 0"
  shows "sys_inv l (process_kill p t) \<and> ready_queue (process_kill p t) = ready_queue s \<and>
    heap_live (process_kill p t) = heap_live s \<and>
    process_count (scheduler (process_kill p t)) = process_count (scheduler s) \<and>
    (\<forall>q k x. heap_live s q = Some k \<longrightarrow> x \<in> bytes_at q (unat k) \<longrightarrow> mem8 (process_kill p t) x = mem8 s x)"
proof -
  have t: "sys_inv (l @ [p]) t" "created nm entry pr p s t"
    using process_create_full [OF inv, where nm = nm and entry = entry and pr = pr] cr p by auto
  note c = t(2) [unfolded created_def Let_def]
  have q: "ready_queue t = ready_queue s @ [p]"
    using sched_state_procs [of l s] sched_state_procs [of "l @ [p]" t] inv t(1) c
    by (auto simp: sys_inv_def all_procs_def split: if_splits)
  then have pq: "p \<in> set (ready_queue t)" by simp
  note k = kill_inv [OF t(1) pq]
  have "distinct (ready_queue t)"
    using sched_state_queue [of "l @ [p]" t] t(1) by (simp add: sys_inv_def queue_wf_def)
  then have r: "ready_queue (process_kill p t) = ready_queue s" using k(3) q by (simp add: remove1_append)
  have "distinct (l @ [p])"
    using t(1) by (auto simp: sys_inv_def sched_state_def sched_at_def queue_wf_def split: if_splits)
  then have i: "sys_inv l (process_kill p t)" using k(1) by (simp add: remove1_append)
  then have count: "process_count (scheduler (process_kill p t)) = process_count (scheduler s)"
    using inv by (simp add: sys_inv_def word_unat_eq_iff)
  obtain i j k where "heap_grows [p \<mapsto> i, p_kernel_stack (proc t p) \<mapsto> j, p_user_stack (proc t p) \<mapsto> k] s t"
    using c by blast
  moreover have "dom [p \<mapsto> i, p_kernel_stack (proc t p) \<mapsto> j, p_user_stack (proc t p) \<mapsto> k] = set (proc_blocks t p)"
    by (auto simp: proc_blocks_def)
  ultimately obtain B where g: "heap_grows B s t" "dom B = set (proc_blocks t p)" by blast
  have live: "heap_live (process_kill p t) = heap_live s"
  proof
    fix x
    have "heap_live t = heap_live s ++ B" using g(1) by (simp add: heap_grows_def)
    then show "heap_live (process_kill p t) x = heap_live s x"
      using grows_live [OF g(1), of x] unfolding k(2) g(2) [symmetric]
      by (cases "B x") (auto simp: restrict_map_def map_add_def dom_def)
  qed
  have "mem8 (process_kill p t) x = mem8 s x" if "heap_live s b = Some j" "x \<in> bytes_at b (unat j)" for b j x
  proof -
    have "heap_live t b = Some j" "b \<notin> set (proc_blocks t p)"
      using grows_old [OF g(1) that(1)] g(2) by auto
    from k(4) [OF this(2,1) that(2)] show ?thesis using g(1) that by (simp add: heap_grows_def)
  qed
  then show ?thesis using i r live count by blast
qed

theorem process_kill_undoes_witness:
  "\<exists>p t. process_create None 0x101000 128 demo_sys = Some (p, t) \<and> p \<noteq> 0 \<and>
     ready_queue (process_kill p t) = [] \<and> heap_live (process_kill p t) = heap_live demo_sys"
proof -
  have room: "process_count (scheduler demo_sys) < MAX_PROCESSES" "room_for (Suc 1) demo_sys"
    by (simp_all add: MAX_PROCESSES_def demo_sys_room)
  obtain p t where t: "process_create None 0x101000 128 demo_sys = Some (p, t)" "p \<noteq> 0"
    using process_create_full [OF demo_sys_inv, where nm = None and entry = "0x101000" and pr = 128 and m = 1] room by auto
  have "ready_queue demo_sys = []" using queue_wf_ready [of "[]" demo_sys] by (simp add: queue_wf_def)
  with process_kill_undoes [OF demo_sys_inv t] t show ?thesis by auto
qed

subsection \<open>Every run\<close>

text \<open>The memory of a process: its control block and its two stacks.\<close>

definition proc_memory :: "'a sched_scheme \<Rightarrow> u64 \<Rightarrow> u64 set" where
  "proc_memory s p = bytes_at p 256 \<union> bytes_at (p_kernel_stack (proc s p)) 8192 \<union>
     bytes_at (p_user_stack (proc s p)) 8192"

lemma bytes_at_mono: "m \<le> n \<Longrightarrow> bytes_at a m \<subseteq> bytes_at a n"
  by (auto simp: bytes_at_def)

lemma blocks_apart:
  "distinct (concat (map f l)) \<Longrightarrow> p \<in> set l \<Longrightarrow> q \<in> set l \<Longrightarrow> p \<noteq> q \<Longrightarrow> set (f p) \<inter> set (f q) = {}"
  by (induction l) auto

lemma owned_memory_apart:
  assumes "heap_ok s" and own: "blocks_owned l s" and "p \<in> set l" and "q \<in> set l" and "p \<noteq> q"
  shows "proc_memory s p \<inter> proc_memory s q = {}"
proof -
  have d: "distinct (concat (map (proc_blocks s) l))" using own by (simp add: blocks_owned_def)
  have cover: "\<exists>b\<in>set (proc_blocks s r). \<exists>k. heap_live s b = Some k \<and> x \<in> bytes_at b (unat k)"
    if "r \<in> set l" "x \<in> proc_memory s r" for r x
  proof -
    have "\<exists>k\<ge>256. heap_live s r = Some k" "\<exists>k\<ge>8192. heap_live s (p_kernel_stack (proc s r)) = Some k"
      "\<exists>k\<ge>8192. heap_live s (p_user_stack (proc s r)) = Some k"
      using own that(1) by (auto simp: blocks_owned_def live_block_def)
    then show ?thesis
      using that(2) bytes_at_mono unfolding proc_memory_def proc_blocks_def
      by (fastforce simp: word_le_nat_alt)
  qed
  have apart: "set (proc_blocks s p) \<inter> set (proc_blocks s q) = {}"
    using blocks_apart [OF d assms(3-5)] .
  show ?thesis
  proof (rule ccontr)
    assume "proc_memory s p \<inter> proc_memory s q \<noteq> {}"
    then obtain x where x: "x \<in> proc_memory s p" "x \<in> proc_memory s q" by blast
    obtain b j where b: "b \<in> set (proc_blocks s p)" "heap_live s b = Some j" "x \<in> bytes_at b (unat j)"
      using cover [OF assms(3) x(1)] by blast
    obtain c k where c: "c \<in> set (proc_blocks s q)" "heap_live s c = Some k" "x \<in> bytes_at c (unat k)"
      using cover [OF assms(4) x(2)] by blast
    have "b \<noteq> c" using b(1) c(1) apart by blast
    from hp.live_disjoint [OF assms(1) b(2) c(2) this] b(3) c(3) show False by blast
  qed
qed

text \<open>
  Property C6. In every state that any sequence of creations, removals of ready processes, starts,
  timer ticks, yields, and allocations and releases by other code leads to: the heap is well formed, the ready queue is a well-formed list
  that does not contain the running process, exactly one process is running once one was started,
  \<open>process_count\<close> is the number of processes and at most 256, the processes are those created and
  not killed, and no two of them share a byte of control block or stack.
\<close>

theorem sys_run_safe:
  assumes "sys_run s es u" and "sys_inv (all_procs s) s"
  shows "sys_inv (all_procs u) u \<and> distinct (all_procs u) \<and> set (all_procs u) = alive es (set (all_procs s)) \<and>
    unat (process_count (scheduler u)) = length (all_procs u) \<and>
    (\<forall>p\<in>set (all_procs u). p_state (proc u p) =
       (if p = current_process (scheduler u) then PROCESS_RUNNING else PROCESS_READY)) \<and>
    (\<forall>p\<in>set (all_procs u). \<forall>q\<in>set (all_procs u). p \<noteq> q \<longrightarrow> proc_memory u p \<inter> proc_memory u q = {})"
proof -
  have inv: "sys_inv (all_procs u) u" and al: "set (all_procs u) = alive es (set (all_procs s))"
    using sys_run_inv [OF assms] by simp_all
  then have ss: "sched_state (all_procs u) u" and own: "heap_ok u" "blocks_owned (all_procs u) u"
    by (simp_all add: sys_inv_def)
  have "distinct (all_procs u) \<and> (\<forall>p\<in>set (all_procs u). p_state (proc u p) =
       (if p = current_process (scheduler u) then PROCESS_RUNNING else PROCESS_READY))"
  proof (cases "current_process (scheduler u) = 0")
    case True
    then have wf: "queue_wf (all_procs u) u" "\<forall>p\<in>set (all_procs u). p_state (proc u p) = PROCESS_READY"
      using ss by (simp_all add: sched_state_def)
    then have "0 \<notin> set (all_procs u)" using dll_nonzero by (auto simp: queue_wf_def)
    then show ?thesis using wf True by (auto simp: queue_wf_def)
  next
    case False
    then have "sched_at (all_procs u) u" using ss by (simp add: sched_state_def)
    then show ?thesis by (cases "all_procs u") (auto simp: sched_at_def)
  qed
  then show ?thesis using inv al owned_memory_apart [OF own] by (simp add: sys_inv_def)
qed

theorem sys_run_safe_witness:
  "\<exists>p q u. sys_run demo_sys [Create (Some ''a'') 0x101000 128 p, Create (Some ''b'') 0x102000 128 q, Kill p] u \<and>
     p \<noteq> 0 \<and> q \<noteq> p \<and> set (all_procs u) = {q} \<and> process_count (scheduler u) = 1"
proof -
  have room: "process_count (scheduler demo_sys) < MAX_PROCESSES" "room_for (Suc 1) demo_sys"
    by (simp_all add: MAX_PROCESSES_def demo_sys_room)
  obtain p t where p: "process_create (Some ''a'') 0x101000 128 demo_sys = Some (p, t)" "p \<noteq> 0"
    "sys_inv [p] t" "room_for 1 t"
    using process_create_full [OF demo_sys_inv, where nm = "Some ''a''" and entry = "0x101000" and pr = 128 and m = 1]
      room by auto
  have one: "unat (process_count (scheduler t)) = 1" using p(3) by (simp add: sys_inv_def)
  obtain q v where q: "process_create (Some ''b'') 0x102000 128 t = Some (q, v)" "q \<noteq> 0" "sys_inv [p, q] v"
    "created (Some ''b'') 0x102000 128 q t v"
    using process_create_full [OF p(3), where nm = "Some ''b''" and entry = "0x102000" and pr = 128 and m = 0]
      p(4) one by (auto simp: MAX_PROCESSES_def word_less_nat_alt)
  have procs: "all_procs v = [p, q]" "all_procs demo_sys = []" "all_procs t = [p]"
    using sched_state_procs q(3) demo_sys_inv p(3) by (auto simp: sys_inv_def)
  have "current_process (scheduler v) = 0"
    using p(1) q(4) process_create_full [OF demo_sys_inv, where nm = "Some ''a''" and entry = "0x101000" and pr = 128]
    by (auto simp: created_def Let_def p(2))
  then have "ready_queue v = [p, q]" using procs(1) by (simp add: all_procs_def)
  then have run: "sys_run demo_sys [Create (Some ''a'') 0x101000 128 p, Create (Some ''b'') 0x102000 128 q, Kill p]
      (process_kill p v)"
    using p(1) q(1) by (auto simp: sys_run_simps intro!: sys_step.intros exI)
  have "distinct [p, q]"
    using q(3) by (auto simp: sys_inv_def sched_state_def sched_at_def queue_wf_def split: if_splits)
  note safe = sys_run_safe [OF run]
  have "sys_inv (all_procs demo_sys) demo_sys" using demo_sys_inv procs by simp
  note safe = safe [OF this]
  have s: "set (all_procs (process_kill p v)) = {q}"
    using safe \<open>distinct [p, q]\<close> p(2) q(2) by (auto simp: alive_def procs)
  moreover have "length (all_procs (process_kill p v)) = 1" using safe s distinct_card by fastforce
  then have "process_count (scheduler (process_kill p v)) = 1" using safe by (simp add: word_unat_eq_iff)
  ultimately show ?thesis using run p(2) \<open>distinct [p, q]\<close> by auto
qed

end
