(* ===== verification/Cpu.thy ===== *)
theory Cpu
  imports Sched_Correct
begin

text \<open>
  The assembly code of the kernel: the registers, the few instructions it uses, interrupt delivery
  and return, calls of C functions from it, and the routines of
  \<open>kernel/arch/x86_64/isr.asm\<close> and \<open>kernel/arch/x86_64/context_switch.asm\<close> as sequences of these
  instructions. The arithmetic flags are not modelled: where the code tests and branches, the
  operand decides, and neither that test nor an addition to a register changes \<open>eflags\<close>. The stubs
  reload them with \<open>iretq\<close>; after \<open>context_switch_asm\<close> these bits are what the test made of them.
\<close>

subsection \<open>Registers\<close>

datatype reg =
  RAX | RBX | RCX | RDX | RSI | RDI | RBP | RSP | R8 | R9 | R10 | R11 | R12 | R13 | R14 | R15

record cpu_state =
  gpr :: "reg \<Rightarrow> u64"
  ip :: u64
  eflags :: u64
  code_sel :: u64
  stack_sel :: u64

text \<open>The machine: the state of the C code and the registers.\<close>

record core = sched +
  cpu :: cpu_state

definition reg :: "reg \<Rightarrow> core \<Rightarrow> u64" where
  "reg r s = gpr (cpu s) r"

definition set_reg :: "reg \<Rightarrow> u64 \<Rightarrow> core \<Rightarrow> core" where
  "set_reg r v s = s\<lparr>cpu := (cpu s)\<lparr>gpr := (gpr (cpu s))(r := v)\<rparr>\<rparr>"

text \<open>The interrupt flag, and what delivery through an interrupt gate clears: \<open>TF\<close>, \<open>IF\<close>, \<open>NT\<close>, \<open>RF\<close>.\<close>

definition IF :: u64 where "IF = 0x200"
definition gate_clears :: u64 where "gate_clears = 0x14300"

definition set_flags :: "u64 \<Rightarrow> core \<Rightarrow> core" where
  "set_flags f s = s\<lparr>cpu := (cpu s)\<lparr>eflags := f\<rparr>\<rparr>"

subsection \<open>Instructions\<close>

text \<open>
  The general registers of a control block by their offset in it, as the \<open>OFFSET_\<close> constants of
  \<open>context_switch.asm\<close> give it.
\<close>

definition REGS_BASE :: nat where "REGS_BASE = 48"

definition pcb_load :: "nat \<Rightarrow> process_t \<Rightarrow> u64" where
  "pcb_load off t =
     [rax (p_registers t), rbx (p_registers t), rcx (p_registers t), rdx (p_registers t),
      rsi (p_registers t), rdi (p_registers t), rbp (p_registers t), rsp (p_registers t),
      r8 (p_registers t), r9 (p_registers t), r10 (p_registers t), r11 (p_registers t),
      r12 (p_registers t), r13 (p_registers t), r14 (p_registers t), r15 (p_registers t),
      rip (p_registers t), rflags (p_registers t)] ! ((off - REGS_BASE) div 8)"

definition pcb_setters :: "(u64 \<Rightarrow> registers_t \<Rightarrow> registers_t) list" where
  "pcb_setters =
     [\<lambda>v. rax_update (\<lambda>_. v), \<lambda>v. rbx_update (\<lambda>_. v), \<lambda>v. rcx_update (\<lambda>_. v), \<lambda>v. rdx_update (\<lambda>_. v),
      \<lambda>v. rsi_update (\<lambda>_. v), \<lambda>v. rdi_update (\<lambda>_. v), \<lambda>v. rbp_update (\<lambda>_. v), \<lambda>v. rsp_update (\<lambda>_. v),
      \<lambda>v. r8_update (\<lambda>_. v), \<lambda>v. r9_update (\<lambda>_. v), \<lambda>v. r10_update (\<lambda>_. v), \<lambda>v. r11_update (\<lambda>_. v),
      \<lambda>v. r12_update (\<lambda>_. v), \<lambda>v. r13_update (\<lambda>_. v), \<lambda>v. r14_update (\<lambda>_. v), \<lambda>v. r15_update (\<lambda>_. v),
      \<lambda>v. rip_update (\<lambda>_. v), \<lambda>v. rflags_update (\<lambda>_. v)]"

definition pcb_store :: "nat \<Rightarrow> u64 \<Rightarrow> process_t \<Rightarrow> process_t" where
  "pcb_store off v t = t\<lparr>p_registers := (pcb_setters ! ((off - REGS_BASE) div 8)) v (p_registers t)\<rparr>"

text \<open>
  \<open>LOAD\<close> reads the stack; \<open>LOADP\<close>, \<open>STOREP\<close> and \<open>PUSHP\<close> reach a control block through a register.
\<close>

datatype instr =
    CLI
  | STI
  | PUSH reg
  | PUSHI u64
  | POP reg
  | MOV reg reg
  | LOAD reg reg u64
  | ADDI reg u64
  | SUBI reg u64
  | LOADP reg reg nat
  | STOREP reg nat reg
  | PUSHP reg nat

definition push :: "u64 \<Rightarrow> core \<Rightarrow> core" where
  "push v s = (let (sp, m) = push_word v (reg RSP s, mem8 s) in set_reg RSP sp (s\<lparr>mem8 := m\<rparr>))"

definition pop :: "core \<Rightarrow> u64 \<times> core" where
  "pop s = (load64 (mem8 s) (reg RSP s), set_reg RSP (reg RSP s + 8) s)"

fun exec1 :: "instr \<Rightarrow> core \<Rightarrow> core" where
  "exec1 CLI s = set_flags (eflags (cpu s) AND NOT IF) s"
| "exec1 STI s = set_flags (eflags (cpu s) OR IF) s"
| "exec1 (PUSH r) s = push (reg r s) s"
| "exec1 (PUSHI v) s = push v s"
| "exec1 (POP r) s = (let (v, s) = pop s in set_reg r v s)"
| "exec1 (MOV r q) s = set_reg r (reg q s) s"
| "exec1 (LOAD r b off) s = set_reg r (load64 (mem8 s) (reg b s + off)) s"
| "exec1 (ADDI r v) s = set_reg r (reg r s + v) s"
| "exec1 (SUBI r v) s = set_reg r (reg r s - v) s"
| "exec1 (LOADP r b off) s = set_reg r (pcb_load off (proc s (reg b s))) s"
| "exec1 (STOREP b off r) s = upd_proc (reg b s) (pcb_store off (reg r s)) s"
| "exec1 (PUSHP b off) s = push (pcb_load off (proc s (reg b s))) s"

definition exec :: "instr list \<Rightarrow> core \<Rightarrow> core" where
  "exec is s = fold exec1 is s"

text \<open>\<open>ret\<close>, and \<open>iretq\<close> in 64-bit mode, which always pops five words.\<close>

definition ret :: "core \<Rightarrow> core" where
  "ret s = (let (v, s) = pop s in s\<lparr>cpu := (cpu s)\<lparr>ip := v\<rparr>\<rparr>)"

definition iretq :: "core \<Rightarrow> core" where
  "iretq s =
     (let (i, s) = pop s; (c, s) = pop s; (f, s) = pop s; (sp, s) = pop s; (d, s) = pop s
      in s\<lparr>cpu := \<lparr>gpr = (gpr (cpu s))(RSP := sp), ip = i, eflags = f, code_sel = c, stack_sel = d\<rparr>\<rparr>)"

text \<open>
  Delivery of an interrupt or exception through an interrupt gate at the same privilege: the stack
  pointer is aligned to 16 bytes, five words are pushed, and the error code after them where the
  exception has one.
\<close>

definition deliver :: "u64 option \<Rightarrow> core \<Rightarrow> core" where
  "deliver err s =
     (let c = cpu s;
          s = set_reg RSP (reg RSP s AND NOT 15) s;
          s = push (ip c) (push (code_sel c) (push (eflags c) (push (gpr c RSP) (push (stack_sel c) s))));
          s = (case err of None \<Rightarrow> s | Some e \<Rightarrow> push e s)
      in s\<lparr>cpu := (cpu s)\<lparr>eflags := eflags c AND NOT gate_clears, code_sel := 0x08\<rparr>\<rparr>)"

text \<open>
  What a called C function does besides its effect: by the calling convention it may leave any
  value in the registers that it need not save, and anything in the \<open>K\<close> bytes below the stack
  pointer, which hold its return address and frame.
\<close>

fun callee_saved :: "reg \<Rightarrow> bool" where
  "callee_saved r = (r \<in> {RBX, RBP, RSP, R12, R13, R14, R15})"

record c_effect =
  c_regs :: "reg \<Rightarrow> u64"
  c_flags :: u64
  c_stack :: "u64 \<Rightarrow> u8"

definition c_return :: "nat \<Rightarrow> c_effect \<Rightarrow> core \<Rightarrow> core" where
  "c_return K e s =
     s\<lparr>cpu := (cpu s)\<lparr>gpr := (\<lambda>r. if callee_saved r then gpr (cpu s) r else c_regs e r), eflags := c_flags e\<rparr>,
       mem8 := (\<lambda>a. if unat (reg RSP s - 1 - a) < K then c_stack e a else mem8 s a)\<rparr>"

subsection \<open>The interrupt stubs\<close>

definition saved_regs :: "reg list" where
  "saved_regs = [RAX, RBX, RCX, RDX, RSI, RDI, RBP, R8, R9, R10, R11, R12, R13, R14, R15]"

definition restored_regs :: "reg list" where
  "restored_regs = [R15, R14, R13, R12, R11, R10, R9, R8, RBP, RDI, RSI, RDX, RCX, RBX, RAX]"

definition restore_and_return :: "core \<Rightarrow> core" where
  "restore_and_return s = iretq (exec (map POP restored_regs @ [ADDI RSP 16]) s)"

text \<open>The exceptions whose stub is built with \<open>ISR_ERRCODE\<close>.\<close>

definition isr_errcode :: "u64 list" where
  "isr_errcode = [8, 10, 11, 12, 13, 14, 17, 30]"

definition isr_common_stub :: "nat \<Rightarrow> c_effect \<Rightarrow> core \<Rightarrow> core outcome" where
  "isr_common_stub K e s =
     (let s = exec (map PUSH saved_regs @ [LOAD RDI RSP 120]) s
      in and_then (isr_handler (reg RDI s) s) (\<lambda>s. Returned (restore_and_return (c_return K e s))))"

definition isr_stub :: "nat \<Rightarrow> c_effect \<Rightarrow> u64 \<Rightarrow> core \<Rightarrow> core outcome" where
  "isr_stub K e n s =
     (if n \<in> set isr_errcode then isr_common_stub K e (exec [CLI, PUSHI n] s)
      else isr_common_stub K e (exec [CLI, PUSHI 0, PUSHI n] s))"

definition irq_common_stub :: "nat \<Rightarrow> c_effect \<Rightarrow> core \<Rightarrow> core option" where
  "irq_common_stub K e s =
     (let s = exec (map PUSH saved_regs @ [LOAD RDI RSP 120, SUBI RDI 32]) s
      in if reg RDI s = 0 then
           (let s = exec [MOV RDI RSP] s
            in case preempt_handler (reg RDI s) s of
                 None \<Rightarrow> None
               | Some (sp, s) \<Rightarrow>
                   (let s = set_reg RAX sp (c_return K e s)
                    in Some (restore_and_return (exec [MOV RSP RAX] s))))
         else Some (restore_and_return (c_return K e (irq_handler (reg RDI s) s))))"

definition irq_stub :: "nat \<Rightarrow> c_effect \<Rightarrow> u64 \<Rightarrow> core \<Rightarrow> core option" where
  "irq_stub K e n s = irq_common_stub K e (exec [CLI, PUSHI 0, PUSHI (32 + n)] s)"

subsection \<open>The context switch\<close>

definition OFFSET_RIP :: nat where "OFFSET_RIP = REGS_BASE + 128"

definition reg_offset :: "reg \<Rightarrow> nat" where
  "reg_offset r = REGS_BASE + (case r of
     RAX \<Rightarrow> 0 | RBX \<Rightarrow> 8 | RCX \<Rightarrow> 16 | RDX \<Rightarrow> 24 | RSI \<Rightarrow> 32 | RDI \<Rightarrow> 40 | RBP \<Rightarrow> 48 | RSP \<Rightarrow> 56
   | R8 \<Rightarrow> 64 | R9 \<Rightarrow> 72 | R10 \<Rightarrow> 80 | R11 \<Rightarrow> 88 | R12 \<Rightarrow> 96 | R13 \<Rightarrow> 104 | R14 \<Rightarrow> 112 | R15 \<Rightarrow> 120)"

definition save_current :: "instr list" where
  "save_current =
     map (\<lambda>r. STOREP RDI (reg_offset r) r)
       [RAX, RBX, RCX, RDX, RSI, RDI, RBP, RSP, R8, R9, R10, R11, R12, R13, R14, R15] @
     [LOAD RAX RSP 0, STOREP RDI OFFSET_RIP RAX]"

definition load_next :: "instr list" where
  "load_next =
     map (\<lambda>r. LOADP r RSI (reg_offset r))
       [RAX, RBX, RCX, RDX, RBP, RSP, R8, R9, R10, R11, R12, R13, R14, R15] @
     [LOADP RDI RSI (reg_offset RDI), PUSHP RSI OFFSET_RIP, LOADP RSI RSI (reg_offset RSI), STI]"

definition context_switch_asm :: "core \<Rightarrow> core" where
  "context_switch_asm s =
     (let s = (if reg RDI s = 0 then s else exec save_current s)
      in ret (exec load_next s))"

text \<open>
  A call from C: the compiler has put whatever it keeps in the registers, the two arguments and
  the return address.
\<close>

definition call_context_switch :: "cpu_state \<Rightarrow> u64 \<Rightarrow> u64 \<Rightarrow> u64 \<Rightarrow> core \<Rightarrow> core" where
  "call_context_switch c return_address current next_process s =
     (let s = s\<lparr>cpu := c\<rparr>;
          s = set_reg RSI next_process (set_reg RDI current s)
      in context_switch_asm (push return_address s))"

end
