(* ===== verification/Stubs.thy ===== *)
theory Stubs
  imports Cpu
begin

text \<open>
  What the interrupt stubs do: the frame that delivery and stub build on the stack of the
  interrupted code, and that unwinding such a frame gives the processor back to the code that it
  was built for.
\<close>

subsection \<open>Registers and instruction sequences\<close>

lemma reg_set [simp]: "reg r (set_reg q v s) = (if r = q then v else reg r s)"
  by (simp add: reg_def set_reg_def)

lemma set_reg_same [simp]: "set_reg r (reg r s) s = s"
  by (cases s) (simp add: set_reg_def reg_def)

lemma set_reg_set [simp]: "set_reg r v (set_reg r w s) = set_reg r v s"
  by (simp add: set_reg_def)

lemma set_reg_fields [simp]:
  "mem8 (set_reg r v s) = mem8 s" "proc (set_reg r v s) = proc s" "scheduler (set_reg r v s) = scheduler s"
  "ip (cpu (set_reg r v s)) = ip (cpu s)" "eflags (cpu (set_reg r v s)) = eflags (cpu s)"
  "code_sel (cpu (set_reg r v s)) = code_sel (cpu s)" "stack_sel (cpu (set_reg r v s)) = stack_sel (cpu s)"
  "gpr (cpu (set_reg r v s)) = (gpr (cpu s))(r := v)"
  by (simp_all add: set_reg_def)

lemma reg_mem [simp]: "reg r (s\<lparr>mem8 := m\<rparr>) = reg r s" "reg r (s\<lparr>cpu := c\<rparr>) = gpr c r"
  "set_reg r v (s\<lparr>mem8 := m\<rparr>) = (set_reg r v s)\<lparr>mem8 := m\<rparr>"
  by (simp_all add: reg_def set_reg_def)

lemma exec_Nil [simp]: "exec [] s = s" and exec_Cons [simp]: "exec (i # is) s = exec is (exec1 i s)"
  and exec_append: "exec (is @ js) s = exec js (exec is s)"
  by (simp_all add: exec_def)

text \<open>Several words pushed one after the other.\<close>

definition pushed :: "u64 list \<Rightarrow> core \<Rightarrow> core" where
  "pushed ws s = set_reg RSP (fst (fold push_word ws (reg RSP s, mem8 s)))
     (s\<lparr>mem8 := snd (fold push_word ws (reg RSP s, mem8 s))\<rparr>)"

lemma pushed_Nil [simp]: "pushed [] s = s"
  by (simp add: pushed_def)

lemma pushed_append: "pushed (ws @ vs) s = pushed vs (pushed ws s)"
  by (simp add: pushed_def)

lemma push_pushed: "push v s = pushed [v] s"
  by (simp add: push_def pushed_def split_def Let_def)

lemma pushed_push: "push v (pushed ws s) = pushed (ws @ [v]) s"
  by (simp add: push_pushed pushed_append)

lemma pushed_fields [simp]:
  "r \<noteq> RSP \<Longrightarrow> reg r (pushed ws s) = reg r s" "proc (pushed ws s) = proc s" "scheduler (pushed ws s) = scheduler s"
  "eflags (cpu (pushed ws s)) = eflags (cpu s)" "stack_sel (cpu (pushed ws s)) = stack_sel (cpu s)"
  by (simp_all add: pushed_def)

lemma exec_pushes:
  "RSP \<notin> set rs \<Longrightarrow> exec (map PUSH rs) s = pushed (map (\<lambda>r. reg r s) rs) s"
proof (induction rs arbitrary: s)
  case Nil
  then show ?case by simp
next
  case (Cons r rs)
  have "map (\<lambda>q. reg q (pushed [reg r s] s)) rs = map (\<lambda>q. reg q s) rs"
    by (rule map_cong [OF refl], rule pushed_fields(1)) (use Cons.prems in auto)
  moreover have "exec (map PUSH (r # rs)) s = pushed (map (\<lambda>q. reg q (pushed [reg r s] s)) rs) (pushed [reg r s] s)"
    using Cons by (simp add: push_pushed)
  ultimately show ?case by (simp only: flip: pushed_append) simp
qed

lemma exec_pops:
  fixes s :: core
  assumes "distinct rs" and "RSP \<notin> set rs"
  defines "t \<equiv> exec (map POP rs) s"
  shows "t = s\<lparr>cpu := (cpu s)\<lparr>gpr := gpr (cpu t)\<rparr>\<rparr>" "reg RSP t = reg RSP s + 8 * word_of_nat (length rs)"
    "\<And>k. k < length rs \<Longrightarrow> reg (rs ! k) t = load64 (mem8 s) (reg RSP s + 8 * word_of_nat k)"
    "\<And>r. r \<notin> set rs \<Longrightarrow> r \<noteq> RSP \<Longrightarrow> reg r t = reg r s"
proof -
  have "(\<exists>g. exec (map POP rs) s = s\<lparr>cpu := (cpu s)\<lparr>gpr := g\<rparr>\<rparr>) \<and>
    reg RSP (exec (map POP rs) s) = reg RSP s + 8 * word_of_nat (length rs) \<and>
    (\<forall>k<length rs. reg (rs ! k) (exec (map POP rs) s) = load64 (mem8 s) (reg RSP s + 8 * word_of_nat k)) \<and>
    (\<forall>r. r \<notin> set rs \<longrightarrow> r \<noteq> RSP \<longrightarrow> reg r (exec (map POP rs) s) = reg r s)"
    using assms(1,2)
  proof (induction rs arbitrary: s)
    case Nil
    have "exec (map POP []) s = s\<lparr>cpu := (cpu s)\<lparr>gpr := gpr (cpu s)\<rparr>\<rparr>" by (cases s) simp
    then show ?case by (intro conjI exI) (assumption | simp)+
  next
    case (Cons r rs)
    define u where "u = exec1 (POP r) s"
    have u: "reg RSP u = reg RSP s + 8" "reg r u = load64 (mem8 s) (reg RSP s)" "mem8 u = mem8 s"
      "\<exists>g. u = s\<lparr>cpu := (cpu s)\<lparr>gpr := g\<rparr>\<rparr>" "\<And>q. q \<noteq> r \<Longrightarrow> q \<noteq> RSP \<Longrightarrow> reg q u = reg q s"
      using Cons.prems by (auto simp: u_def pop_def set_reg_def reg_def)
    have IH: "\<exists>g. exec (map POP rs) u = u\<lparr>cpu := (cpu u)\<lparr>gpr := g\<rparr>\<rparr>"
      "reg RSP (exec (map POP rs) u) = reg RSP u + 8 * word_of_nat (length rs)"
      "\<And>k. k < length rs \<Longrightarrow> reg (rs ! k) (exec (map POP rs) u) = load64 (mem8 u) (reg RSP u + 8 * word_of_nat k)"
      "\<And>q. q \<notin> set rs \<Longrightarrow> q \<noteq> RSP \<Longrightarrow> reg q (exec (map POP rs) u) = reg q u"
      using Cons.IH [of u] Cons.prems by simp_all
    have e: "exec (map POP (r # rs)) s = exec (map POP rs) u" by (simp add: u_def)
    have "\<exists>g. exec (map POP rs) u = s\<lparr>cpu := (cpu s)\<lparr>gpr := g\<rparr>\<rparr>" using IH(1) u(4) by auto
    moreover have "reg ((r # rs) ! k) (exec (map POP rs) u) = load64 (mem8 s) (reg RSP s + 8 * word_of_nat k)"
      if "k < length (r # rs)" for k
      using that IH(3,4) u(1-3) Cons.prems by (cases k) (auto simp: algebra_simps)
    ultimately show ?case using IH(2,4) u(1,5) unfolding e by (simp add: algebra_simps)
  qed
  then show "t = s\<lparr>cpu := (cpu s)\<lparr>gpr := gpr (cpu t)\<rparr>\<rparr>" "reg RSP t = reg RSP s + 8 * word_of_nat (length rs)"
    "\<And>k. k < length rs \<Longrightarrow> reg (rs ! k) t = load64 (mem8 s) (reg RSP s + 8 * word_of_nat k)"
    "\<And>r. r \<notin> set rs \<Longrightarrow> r \<noteq> RSP \<Longrightarrow> reg r t = reg r s"
    unfolding t_def by auto
qed

subsection \<open>The frame\<close>

text \<open>What delivery and stub push, in this order.\<close>

definition trap_words :: "cpu_state \<Rightarrow> u64 list" where
  "trap_words c = [stack_sel c, gpr c RSP, eflags c, code_sel c, ip c]"

definition frame_words :: "u64 \<Rightarrow> u64 \<Rightarrow> cpu_state \<Rightarrow> u64 list" where
  "frame_words err n c = trap_words c @ [err, n] @ map (gpr c) saved_regs"

definition frame_base :: "cpu_state \<Rightarrow> u64" where
  "frame_base c = gpr c RSP AND NOT 15"

text \<open>\<open>holds_frame m p c\<close>: the memory \<open>m\<close> holds at \<open>p\<close> everything to resume \<open>c\<close>.\<close>

definition holds_frame :: "(u64 \<Rightarrow> u8) \<Rightarrow> u64 \<Rightarrow> cpu_state \<Rightarrow> bool" where
  "holds_frame m p c \<longleftrightarrow> (\<forall>k<15. load64 m (p + 8 * word_of_nat k) = gpr c (restored_regs ! k)) \<and>
     (\<forall>k<5. load64 m (p + 136 + 8 * word_of_nat k) = rev (trap_words c) ! k)"

lemma saved_restored: "rev saved_regs = restored_regs" "length saved_regs = 15" "length restored_regs = 15"
  "distinct restored_regs" "RSP \<notin> set saved_regs" "RSP \<notin> set restored_regs" "set restored_regs = UNIV - {RSP}"
proof -
  have "r \<in> set restored_regs \<or> r = RSP" for r by (cases r) (simp_all add: restored_regs_def)
  then show "set restored_regs = UNIV - {RSP}" by (auto simp: restored_regs_def)
qed (simp_all add: saved_regs_def restored_regs_def)

lemma frame_words_length [simp]: "length (frame_words e n c) = 22"
  by (simp add: frame_words_def trap_words_def saved_restored)

lemma pushed_frame:
  fixes c :: cpu_state and a err n :: u64 and m :: "u64 \<Rightarrow> u8"
  defines "r \<equiv> fold push_word (frame_words err n c) (a, m)"
  shows "fst r = a - 176" "holds_frame (snd r) (a - 176) c" "load64 (snd r) (a - 176 + 120) = n"
    "\<And>x. 176 \<le> unat (x - (a - 176)) \<Longrightarrow> snd r x = m x"
proof -
  note pw = push_words [where ws = "frame_words err n c" and a = a and m = m, folded r_def]
  show sp: "fst r = a - 176" using pw(1) by simp
  have ld: "load64 (snd r) (a - 176 + 8 * word_of_nat k) = rev (frame_words err n c) ! k" if "k < 22" for k
    using pw(3) that by simp
  have rv: "rev (frame_words err n c) = map (gpr c) restored_regs @ [n, err] @ rev (trap_words c)"
    by (simp add: frame_words_def rev_map saved_restored)
  show "holds_frame (snd r) (a - 176) c" unfolding holds_frame_def
  proof (intro conjI allI impI)
    fix k :: nat assume "k < 15"
    then show "load64 (snd r) (a - 176 + 8 * word_of_nat k) = gpr c (restored_regs ! k)"
      using ld [of k] by (simp add: rv nth_append saved_restored)
  next
    fix k :: nat assume "k < 5"
    then show "load64 (snd r) (a - 176 + 136 + 8 * word_of_nat k) = rev (trap_words c) ! k"
      using ld [of "17 + k"] by (simp add: rv nth_append saved_restored algebra_simps)
  qed
  show "load64 (snd r) (a - 176 + 120) = n" using ld [of 15] by (simp add: rv nth_append saved_restored)
  show "snd r x = m x" if "176 \<le> unat (x - (a - 176))" for x using pw(2) that by simp
qed

text \<open>Unwinding a frame: the processor is that of the frame, and nothing else changes.\<close>

lemma restore_frame:
  assumes "holds_frame (mem8 s) p c" and "reg RSP s = p"
  shows "restore_and_return s = s\<lparr>cpu := c\<rparr>"
proof -
  define t where "t = exec (map POP restored_regs) s"
  note pops = exec_pops [OF saved_restored(4,6), where s = s, folded t_def]
  define u where "u = exec [ADDI RSP 16] t"
  have u: "u = s\<lparr>cpu := (cpu s)\<lparr>gpr := gpr (cpu u)\<rparr>\<rparr>" "reg RSP u = p + 136" "mem8 u = mem8 s"
  proof -
    obtain g where g: "t = s\<lparr>cpu := (cpu s)\<lparr>gpr := g\<rparr>\<rparr>" using pops(1) by blast
    then show "u = s\<lparr>cpu := (cpu s)\<lparr>gpr := gpr (cpu u)\<rparr>\<rparr>" "mem8 u = mem8 s"
      by (simp_all add: u_def set_reg_def)
    show "reg RSP u = p + 136" using pops(2) assms(2) by (simp add: u_def saved_restored)
  qed
  have g: "gpr (cpu u) r = gpr c r" if r: "r \<noteq> RSP" for r
  proof -
    have "r \<in> set restored_regs" using r saved_restored(7) by simp
    then obtain k where k: "k < 15" "r = restored_regs ! k" unfolding in_set_conv_nth saved_restored(3) by blast
    have "reg r u = reg r t" using r by (simp add: u_def)
    also have "\<dots> = gpr c r" using pops(3) [of k] k assms by (simp add: saved_restored holds_frame_def)
    finally show ?thesis by (simp add: reg_def)
  qed
  have "restore_and_return s = iretq u"
    by (simp add: restore_and_return_def exec_append u_def t_def)
  also have "\<dots> = u\<lparr>cpu := \<lparr>gpr = (gpr (cpu u))(RSP := load64 (mem8 s) (p + 160)), ip = load64 (mem8 s) (p + 136),
      eflags = load64 (mem8 s) (p + 152), code_sel = load64 (mem8 s) (p + 144), stack_sel = load64 (mem8 s) (p + 168)\<rparr>\<rparr>"
    using u(2,3) by (simp add: iretq_def pop_def Let_def set_reg_def add.commute)
  also have "\<lparr>gpr = (gpr (cpu u))(RSP := load64 (mem8 s) (p + 160)), ip = load64 (mem8 s) (p + 136),
      eflags = load64 (mem8 s) (p + 152), code_sel = load64 (mem8 s) (p + 144), stack_sel = load64 (mem8 s) (p + 168)\<rparr> = c"
  proof -
    have trap: "load64 (mem8 s) (p + 136 + 8 * word_of_nat k) = rev (trap_words c) ! k" if "k < 5" for k
      using assms(1) that by (simp add: holds_frame_def)
    have "load64 (mem8 s) (p + 136) = ip c" "load64 (mem8 s) (p + 144) = code_sel c"
      "load64 (mem8 s) (p + 152) = eflags c" "load64 (mem8 s) (p + 160) = gpr c RSP"
      "load64 (mem8 s) (p + 168) = stack_sel c"
      using trap [of 0] trap [of 1] trap [of 2] trap [of 3] trap [of 4]
      by (simp_all add: trap_words_def add.commute [of _ p])
    moreover have "(gpr (cpu u))(RSP := gpr c RSP) = gpr c" using g by (auto simp: fun_eq_iff)
    ultimately show ?thesis by (cases c) simp
  qed
  also have "u\<lparr>cpu := c\<rparr> = s\<lparr>cpu := c\<rparr>" by (subst u(1)) simp
  finally show ?thesis .
qed

lemma pushed_trap:
  "pushed ws (s\<lparr>cpu := (cpu s)\<lparr>eflags := f, code_sel := d\<rparr>\<rparr>) =
    (pushed ws s)\<lparr>cpu := (cpu (pushed ws s))\<lparr>eflags := f, code_sel := d\<rparr>\<rparr>"
  "pushed ws (s\<lparr>cpu := (cpu s)\<lparr>code_sel := d, eflags := f\<rparr>\<rparr>) =
    (pushed ws s)\<lparr>cpu := (cpu (pushed ws s))\<lparr>code_sel := d, eflags := f\<rparr>\<rparr>"
  by (simp_all add: pushed_def set_reg_def reg_def)

text \<open>Delivery and the first instructions of a stub, up to its last push.\<close>

lemma stub_entry:
  fixes s :: core and n :: u64
  assumes "err = None \<and> is = [CLI, PUSHI 0, PUSHI n] \<and> e = 0 \<or> err = Some e \<and> is = [CLI, PUSHI n]"
  defines "t \<equiv> exec (map PUSH saved_regs) (exec is (deliver err s))"
    and "r \<equiv> fold push_word (frame_words e n (cpu s)) (frame_base (cpu s), mem8 s)"
  shows "reg RSP t = frame_base (cpu s) - 176" "mem8 t = snd r" "\<And>q. q \<noteq> RSP \<Longrightarrow> reg q t = reg q s"
    "t = s\<lparr>cpu := cpu t, mem8 := mem8 t\<rparr>"
proof -
  define s0 where "s0 = set_reg RSP (frame_base (cpu s)) s"
  define f where "f = (eflags (cpu s) AND NOT gate_clears) AND NOT IF"
  define v where "v = pushed (frame_words e n (cpu s)) s0"
  have d: "deliver err s = (let u = pushed (trap_words (cpu s) @ (case err of None \<Rightarrow> [] | Some e \<Rightarrow> [e])) s0
      in u\<lparr>cpu := (cpu u)\<lparr>eflags := eflags (cpu s) AND NOT gate_clears, code_sel := 0x08\<rparr>\<rparr>)"
    by (simp add: deliver_def Let_def push_pushed pushed_append [symmetric] trap_words_def s0_def
        frame_base_def reg_def split: option.splits)
  have "map (\<lambda>q. reg q (pushed ws s0)) saved_regs = map (gpr (cpu s)) saved_regs" for ws
    by (rule map_cong [OF refl], subst pushed_fields(1)) (auto simp: s0_def reg_def saved_regs_def)
  note regs = this [unfolded reg_def]
  have "exec is (deliver err s) = (let u = pushed (trap_words (cpu s) @ [e, n]) s0
      in u\<lparr>cpu := (cpu u)\<lparr>eflags := f, code_sel := 0x08\<rparr>\<rparr>)"
    using assms(1) unfolding d
    by (auto simp: Let_def set_flags_def push_pushed pushed_trap f_def simp flip: pushed_append)
  then have "t = v\<lparr>cpu := (cpu v)\<lparr>eflags := f, code_sel := 0x08\<rparr>\<rparr>"
    unfolding t_def
    by (simp add: exec_pushes saved_restored Let_def pushed_trap v_def frame_words_def regs flip: pushed_append)
  note t = this
  show "reg RSP t = frame_base (cpu s) - 176"
    using pushed_frame(1) [of e n "cpu s" "frame_base (cpu s)" "mem8 s"]
    by (simp add: t v_def pushed_def s0_def reg_def)
  show "mem8 t = snd r" by (simp add: t v_def pushed_def s0_def r_def)
  show "reg q t = reg q s" if "q \<noteq> RSP" for q using that by (simp add: t v_def pushed_def s0_def reg_def set_reg_def)
  show "t = s\<lparr>cpu := cpu t, mem8 := mem8 t\<rparr>"
    by (simp add: t v_def pushed_def s0_def set_reg_def)
qed

subsection \<open>Exceptions\<close>

text \<open>
  Whether the processor pushes an error code or the stub a 0 for it, the state in which the stub
  calls \<open>isr_handler\<close> has the number of the exception in \<open>RDI\<close> and differs from the one at the
  exception in registers and memory only. So what follows is the report of this exception and
  halting, and the registers are never restored.
\<close>

lemma isr_stub_call:
  fixes s :: core and n :: u64
  assumes "n \<in> set isr_errcode \<longleftrightarrow> err \<noteq> None"
  shows "\<exists>c m. isr_stub K ef n (deliver err s) = isr_handler n (s\<lparr>cpu := c, mem8 := m\<rparr>)"
proof -
  define code where "code = (if n \<in> set isr_errcode then [CLI, PUSHI n] else [CLI, PUSHI 0, PUSHI n])"
  obtain e where e: "err = None \<and> code = [CLI, PUSHI 0, PUSHI n] \<and> e = 0 \<or> err = Some e \<and> code = [CLI, PUSHI n]"
    using assms by (cases err) (auto simp: code_def)
  define v where "v = exec (map PUSH saved_regs) (exec code (deliver err s))"
  note entry = stub_entry [OF e, where s = s, folded v_def]
  note frame = pushed_frame [where c = "cpu s" and a = "frame_base (cpu s)" and m = "mem8 s" and err = e and n = n]
  define u where "u = exec [LOAD RDI RSP 120] v"
  have u: "u = set_reg RDI n v" using frame(3) entry(1,2) by (simp add: u_def)
  obtain c m where v: "v = s\<lparr>cpu := c, mem8 := m\<rparr>" using entry(4) by blast
  have c: "u = s\<lparr>cpu := c\<lparr>gpr := (gpr c)(RDI := n)\<rparr>, mem8 := m\<rparr>"
    unfolding u set_reg_def v by simp
  have n: "reg RDI u = n" by (simp add: u set_reg_def reg_def)
  have "isr_stub K ef n (deliver err s) = isr_common_stub K ef (exec code (deliver err s))"
    by (simp add: isr_stub_def code_def del: exec_Cons exec_Nil)
  also have "\<dots> = isr_handler (reg RDI u) u"
    unfolding isr_common_stub_def exec_append v_def [symmetric] u_def [symmetric] Let_def
    by (simp add: isr_handler_def)
  finally show ?thesis using n c by auto
qed

end
