(* ===== verification/Context_Switch.thy ===== *)
theory Context_Switch
  imports Stubs
begin

text \<open>
  \<open>context_switch_asm\<close>: what it saves in one control block and loads from the other, and what a
  process that comes back from it finds.
\<close>

subsection \<open>The registers of a control block\<close>

fun saved_reg :: "registers_t \<Rightarrow> reg \<Rightarrow> u64" where
  "saved_reg g RAX = rax g" | "saved_reg g RBX = rbx g" | "saved_reg g RCX = rcx g" | "saved_reg g RDX = rdx g"
| "saved_reg g RSI = rsi g" | "saved_reg g RDI = rdi g" | "saved_reg g RBP = rbp g" | "saved_reg g RSP = rsp g"
| "saved_reg g R8 = r8 g" | "saved_reg g R9 = r9 g" | "saved_reg g R10 = r10 g" | "saved_reg g R11 = r11 g"
| "saved_reg g R12 = r12 g" | "saved_reg g R13 = r13 g" | "saved_reg g R14 = r14 g" | "saved_reg g R15 = r15 g"

lemma pcb_load_reg: "pcb_load (reg_offset r) t = saved_reg (p_registers t) r"
  "pcb_load OFFSET_RIP t = rip (p_registers t)"
  by (cases r) (simp_all add: pcb_load_def reg_offset_def REGS_BASE_def OFFSET_RIP_def)

lemma pcb_store_other:
  "p_pid (pcb_store k v t) = p_pid t" "p_state (pcb_store k v t) = p_state t" "p_next (pcb_store k v t) = p_next t"
  "p_prev (pcb_store k v t) = p_prev t" "p_kernel_stack (pcb_store k v t) = p_kernel_stack t"
  by (simp_all add: pcb_store_def)

lemma pcb_store_reg:
  "saved_reg (p_registers (pcb_store (reg_offset r) v t)) q = (if q = r then v else saved_reg (p_registers t) q)"
  "rip (p_registers (pcb_store (reg_offset r) v t)) = rip (p_registers t)"
  "saved_reg (p_registers (pcb_store OFFSET_RIP v t)) q = saved_reg (p_registers t) q"
  "rip (p_registers (pcb_store OFFSET_RIP v t)) = v"
  by (cases r; cases q; simp add: pcb_store_def pcb_setters_def reg_offset_def REGS_BASE_def OFFSET_RIP_def)+

subsection \<open>Loading\<close>

lemma exec_loads:
  assumes "RSI \<notin> set rs" and "reg RSI s = p"
  shows "exec (map (\<lambda>r. LOADP r RSI (reg_offset r)) rs) s = s\<lparr>cpu := (cpu s)\<lparr>gpr :=
    (\<lambda>r. if r \<in> set rs then saved_reg (p_registers (proc s p)) r else gpr (cpu s) r)\<rparr>\<rparr>"
  using assms
proof (induction rs arbitrary: s)
  case Nil
  then show ?case by simp
next
  case (Cons r rs)
  define u where "u = set_reg r (saved_reg (p_registers (proc s p)) r) s"
  have "exec (map (\<lambda>r. LOADP r RSI (reg_offset r)) (r # rs)) s = exec (map (\<lambda>r. LOADP r RSI (reg_offset r)) rs) u"
    using Cons.prems by (simp add: pcb_load_reg u_def)
  also have "\<dots> = u\<lparr>cpu := (cpu u)\<lparr>gpr :=
      (\<lambda>r. if r \<in> set rs then saved_reg (p_registers (proc u p)) r else gpr (cpu u) r)\<rparr>\<rparr>"
    by (rule Cons.IH) (use Cons.prems in \<open>auto simp: u_def\<close>)
  also have "\<dots> = s\<lparr>cpu := (cpu s)\<lparr>gpr :=
      (\<lambda>q. if q \<in> set (r # rs) then saved_reg (p_registers (proc s p)) q else gpr (cpu s) q)\<rparr>\<rparr>"
    by (auto simp: u_def set_reg_def fun_eq_iff)
  finally show ?case .
qed

text \<open>The processor that the switch loads: interrupts on, the other flags and selectors as they were.\<close>

definition loaded :: "registers_t \<Rightarrow> cpu_state \<Rightarrow> cpu_state" where
  "loaded g c = c\<lparr>gpr := saved_reg g, ip := rip g, eflags := eflags c OR IF\<rparr>"

lemma load_next_spec:
  assumes "reg RSI s = p"
  defines "g \<equiv> p_registers (proc s p)"
  shows "ret (exec load_next s) = s\<lparr>mem8 := store64 (rsp g - 8) (rip g) (mem8 s), cpu := loaded g (cpu s)\<rparr>"
proof -
  let ?rs = "[RAX, RBX, RCX, RDX, RBP, RSP, R8, R9, R10, R11, R12, R13, R14, R15]"
  define u where "u = exec (map (\<lambda>r. LOADP r RSI (reg_offset r)) ?rs) s"
  have "RSI \<notin> set ?rs" by simp
  from exec_loads [OF this assms(1), folded g_def u_def]
  have u: "u = s\<lparr>cpu := (cpu s)\<lparr>gpr := (\<lambda>r. if r \<in> set ?rs then saved_reg g r else gpr (cpu s) r)\<rparr>\<rparr>" .
  have r: "reg RSI u = p" "reg RSP u = rsp g" "proc u = proc s" "mem8 u = mem8 s" "eflags (cpu u) = eflags (cpu s)"
    using assms(1) by (simp_all add: u reg_def)
  have "exec load_next s = exec [LOADP RDI RSI (reg_offset RDI), PUSHP RSI OFFSET_RIP, LOADP RSI RSI (reg_offset RSI), STI] u"
    unfolding load_next_def u_def by (rule exec_append)
  also have "\<dots> = set_flags (eflags (cpu s) OR IF) (set_reg RSI (rsi g) (set_reg RSP (rsp g - 8)
      ((set_reg RDI (rdi g) u)\<lparr>mem8 := store64 (rsp g - 8) (rip g) (mem8 s)\<rparr>)))"
    using r by (simp add: pcb_load_reg push_def push_word_def Let_def set_flags_def g_def [symmetric])
  also have "ret \<dots> = s\<lparr>mem8 := store64 (rsp g - 8) (rip g) (mem8 s), cpu := loaded g (cpu s)\<rparr>"
  proof -
    have "saved_reg g q = ((\<lambda>r. if r \<in> set ?rs then saved_reg g r else gpr (cpu s) r)
        (RDI := rdi g, RSP := rsp g, RSI := rsi g)) q" for q
      by (cases q) simp_all
    then have "saved_reg g = (\<lambda>r. if r \<in> set ?rs then saved_reg g r else gpr (cpu s) r)
        (RDI := rdi g, RSP := rsp g, RSI := rsi g)" by (rule ext)
    then show ?thesis
      by (simp add: ret_def pop_def set_flags_def set_reg_def reg_def loaded_def u fun_upd_twist)
  qed
  finally show ?thesis .
qed

subsection \<open>Saving\<close>

text \<open>Everything of a control block but its registers.\<close>

definition same_block :: "process_t \<Rightarrow> process_t \<Rightarrow> bool" where
  "same_block t t' \<longleftrightarrow> (\<exists>g. t' = t\<lparr>p_registers := g\<rparr>)"

lemma same_block_store: "same_block t t' \<Longrightarrow> same_block t (pcb_store k v t')"
  by (auto simp: same_block_def pcb_store_def)

lemma exec_saves:
  assumes "reg RDI s = p"
  shows "\<exists>t. exec (map (\<lambda>r. STOREP RDI (reg_offset r) r) rs) s = s\<lparr>proc := (proc s)(p := t)\<rparr> \<and>
    same_block (proc s p) t \<and> rip (p_registers t) = rip (p_registers (proc s p)) \<and>
    (\<forall>q. saved_reg (p_registers t) q = (if q \<in> set rs then reg q s else saved_reg (p_registers (proc s p)) q))"
  using assms
proof (induction rs arbitrary: s)
  case Nil
  have "same_block (proc s p) (proc s p)" by (auto simp: same_block_def intro: exI [of _ "p_registers (proc s p)"])
  then show ?case by (intro exI [of _ "proc s p"]) simp
next
  case (Cons r rs)
  define b where "b = pcb_store (reg_offset r) (reg r s) (proc s p)"
  define u where "u = s\<lparr>proc := (proc s)(p := b)\<rparr>"
  have e: "exec (map (\<lambda>r. STOREP RDI (reg_offset r) r) (r # rs)) s = exec (map (\<lambda>r. STOREP RDI (reg_offset r) r) rs) u"
    using Cons.prems by (simp add: u_def b_def upd_proc_def)
  have u: "\<And>q. reg q u = reg q s" "proc u p = b" by (simp_all add: u_def reg_def)
  have "reg RDI u = p" using Cons.prems u(1) by simp
  from Cons.IH [OF this, unfolded u] obtain t where
    t: "exec (map (\<lambda>r. STOREP RDI (reg_offset r) r) rs) u = u\<lparr>proc := (proc u)(p := t)\<rparr>" "same_block b t"
      "rip (p_registers t) = rip (p_registers b)"
      "\<forall>q. saved_reg (p_registers t) q = (if q \<in> set rs then reg q s else saved_reg (p_registers b) q)"
    by blast
  have "same_block (proc s p) t" using t(2) by (auto simp: same_block_def b_def pcb_store_def)
  moreover have "u\<lparr>proc := (proc u)(p := t)\<rparr> = s\<lparr>proc := (proc s)(p := t)\<rparr>" by (simp add: u_def)
  moreover have "rip (p_registers t) = rip (p_registers (proc s p))" using t(3) by (simp add: b_def pcb_store_reg)
  moreover have "\<forall>q. saved_reg (p_registers t) q =
      (if q \<in> set (r # rs) then reg q s else saved_reg (p_registers (proc s p)) q)"
    using t(4) by (simp add: b_def pcb_store_reg)
  ultimately show ?case unfolding e t(1) by metis
qed

lemma save_current_spec:
  assumes "reg RDI s = p"
  shows "\<exists>t. exec save_current s = set_reg RAX (load64 (mem8 s) (reg RSP s)) (s\<lparr>proc := (proc s)(p := t)\<rparr>) \<and>
    same_block (proc s p) t \<and> rip (p_registers t) = load64 (mem8 s) (reg RSP s) \<and>
    (\<forall>q. saved_reg (p_registers t) q = reg q s)"
proof -
  let ?rs = "[RAX, RBX, RCX, RDX, RSI, RDI, RBP, RSP, R8, R9, R10, R11, R12, R13, R14, R15]"
  obtain b where b: "exec (map (\<lambda>r. STOREP RDI (reg_offset r) r) ?rs) s = s\<lparr>proc := (proc s)(p := b)\<rparr>"
    "same_block (proc s p) b"
    "\<forall>q. saved_reg (p_registers b) q = (if q \<in> set ?rs then reg q s else saved_reg (p_registers (proc s p)) q)"
    using exec_saves [OF assms, of ?rs] by blast
  have all: "q \<in> set ?rs" for q by (cases q) simp_all
  let ?v = "load64 (mem8 s) (reg RSP s)"
  let ?u = "s\<lparr>proc := (proc s)(p := b)\<rparr>"
  have r: "reg q ?u = reg q s" for q by (simp add: reg_def)
  have "exec save_current s = exec [LOAD RAX RSP 0, STOREP RDI OFFSET_RIP RAX] ?u"
    unfolding save_current_def exec_append b(1) ..
  also have "\<dots> = set_reg RAX ?v (s\<lparr>proc := (proc s)(p := pcb_store OFFSET_RIP ?v b)\<rparr>)"
    using assms r [of RDI] by (simp add: r upd_proc_def set_reg_def reg_def)
  finally show ?thesis
    using same_block_store [OF b(2), of OFFSET_RIP ?v] b(3) all
    by (intro exI [of _ "pcb_store OFFSET_RIP ?v b"]) (simp add: pcb_store_reg)
qed

subsection \<open>The whole switch\<close>

text \<open>The registers as the function finds them.\<close>

definition at_call :: "cpu_state \<Rightarrow> u64 \<Rightarrow> u64 \<Rightarrow> reg \<Rightarrow> u64" where
  "at_call c p q = (gpr c)(RDI := p, RSI := q, RSP := gpr c RSP - 8)"

lemma call_context_switch_spec:
  fixes s :: core and c :: cpu_state and ra :: u64
  defines "m \<equiv> store64 (gpr c RSP - 8) ra (mem8 s)"
  assumes "p \<noteq> q"
  shows "\<exists>t. call_context_switch c ra p q s = s\<lparr>proc := (if p = 0 then proc s else (proc s)(p := t)),
      mem8 := store64 (rsp (p_registers (proc s q)) - 8) (rip (p_registers (proc s q))) m,
      cpu := loaded (p_registers (proc s q)) c\<rparr> \<and>
    same_block (proc s p) t \<and> rip (p_registers t) = ra \<and> saved_reg (p_registers t) = at_call c p q"
proof -
  define u where "u = push ra (set_reg RSI q (set_reg RDI p (s\<lparr>cpu := c\<rparr>)))"
  have u: "u = s\<lparr>mem8 := m, cpu := c\<lparr>gpr := at_call c p q\<rparr>\<rparr>"
    by (simp add: u_def push_def push_word_def Let_def set_reg_def reg_def m_def at_call_def fun_upd_twist)
  have r: "reg RDI u = p" "reg RSI u = q" "reg RSP u = gpr c RSP - 8" "proc u = proc s" "mem8 u = m"
    "\<And>r. reg r u = at_call c p q r"
    by (simp_all add: u reg_def at_call_def)
  have ra: "load64 (mem8 u) (reg RSP u) = ra" by (simp only: r(3,5) m_def load_store_same)
  from save_current_spec [OF r(1), unfolded ra, unfolded r(4,6)] obtain t where
    t: "exec save_current u = set_reg RAX ra (u\<lparr>proc := (proc s)(p := t)\<rparr>)" "same_block (proc s p) t"
      "rip (p_registers t) = ra" "\<forall>r. saved_reg (p_registers t) r = at_call c p q r" by blast
  define v where "v = (if reg RDI u = 0 then u else exec save_current u)"
  have v': "v = (if p = 0 then u else set_reg RAX ra (u\<lparr>proc := (proc s)(p := t)\<rparr>))"
    unfolding v_def r(1) t(1) ..
  have v: "reg RSI v = q" "proc v q = proc s q" "mem8 v = m"
    "proc v = (if p = 0 then proc s else (proc s)(p := t))" "v = s\<lparr>proc := proc v, mem8 := m, cpu := cpu v\<rparr>"
    "\<And>g. loaded g (cpu v) = loaded g c"
    using assms(2) r by (auto simp: v' reg_def set_reg_def u loaded_def at_call_def)
  have "call_context_switch c ra p q s = ret (exec load_next v)"
    by (simp add: call_context_switch_def context_switch_asm_def Let_def u_def v_def)
  also have "\<dots> = v\<lparr>mem8 := store64 (rsp (p_registers (proc s q)) - 8) (rip (p_registers (proc s q))) m,
      cpu := loaded (p_registers (proc s q)) c\<rparr>"
    using load_next_spec [OF v(1)] by (simp add: v(2,3,6))
  also have "\<dots> = s\<lparr>proc := proc v, mem8 := store64 (rsp (p_registers (proc s q)) - 8) (rip (p_registers (proc s q))) m,
      cpu := loaded (p_registers (proc s q)) c\<rparr>"
    by (subst v(5)) simp
  finally show ?thesis using t(2-4) v(4) by (intro exI [of _ t]) (simp add: fun_eq_iff)
qed

text \<open>
  Property C14. \<open>context_switch_asm\<close> called for \<open>p\<close> with \<open>q\<close> loads every general register, the stack pointer
  and the instruction pointer of \<open>q\<close> from its control block and turns interrupts on, and changes of
  all control blocks only the registers in that of \<open>p\<close>. A later switch back to \<open>p\<close> continues it at the
  return address of its call with the registers it had there, except for three things: the two
  argument registers, the flags, which are those of whoever switches, and the stack pointer, which
  is 8 lower than a return from the call would leave it.
\<close>

theorem context_switch_resumes:
  fixes s t :: core
  assumes "p \<noteq> 0" and "p \<noteq> q" and "o' \<noteq> p"
    and "p_registers (proc t p) = p_registers (proc (call_context_switch c ra p q s) p)"
  shows "cpu (call_context_switch c ra p q s) =
      c\<lparr>gpr := saved_reg (p_registers (proc s q)), ip := rip (p_registers (proc s q)), eflags := eflags c OR IF\<rparr> \<and>
    (\<forall>z. z \<noteq> p \<longrightarrow> proc (call_context_switch c ra p q s) z = proc s z) \<and>
    same_block (proc s p) (proc (call_context_switch c ra p q s) p) \<and>
    cpu (call_context_switch c' ra' o' p t) =
      c'\<lparr>gpr := (gpr c)(RDI := p, RSI := q, RSP := gpr c RSP - 8), ip := ra, eflags := eflags c' OR IF\<rparr>"
proof -
  obtain b where b: "proc (call_context_switch c ra p q s) = (proc s)(p := b)"
    "cpu (call_context_switch c ra p q s) = loaded (p_registers (proc s q)) c"
    "same_block (proc s p) b" "rip (p_registers b) = ra" "saved_reg (p_registers b) = at_call c p q"
    using call_context_switch_spec [OF assms(2), of c ra s] assms(1) by auto
  have "cpu (call_context_switch c' ra' o' p t) = loaded (p_registers (proc t p)) c'"
    using call_context_switch_spec [OF assms(3), of c' ra' t] by auto
  then show ?thesis using b assms(4) by (simp add: loaded_def at_call_def)
qed

text \<open>A machine whose first process computes and whose second was just created.\<close>

definition fresh_cpu :: "u64 \<Rightarrow> u64 \<Rightarrow> cpu_state" where
  "fresh_cpu entry stack_top =
     \<lparr>gpr = (\<lambda>_. 0)(RSP := stack_top), ip = entry, eflags = 0x202, code_sel = 0x08, stack_sel = 0x10\<rparr>"

definition demo_cpu :: cpu_state where
  "demo_cpu = (fresh_cpu 0x101000 0x21000)\<lparr>gpr := (\<lambda>_. 7)(RSP := 0x21000)\<rparr>"

definition demo_core :: core where
  "demo_core = (sched.extend demo_last_tick (core.fields demo_cpu))
     \<lparr>mem8 := snd (fold push_word (initial_frame 0x32000 0x102000) (0x32000, \<lambda>_. 0)),
      proc := (proc demo_last_tick)
        (0x100 := (proc demo_last_tick 0x100)\<lparr>p_kernel_stack := 0x20000\<rparr>,
         0x200 := (proc demo_last_tick 0x200)\<lparr>p_kernel_stack := 0x30000,
           p_registers := zero_regs\<lparr>rsp := 0x32000 - 176, rip := 0x102000\<rparr>\<rparr>)\<rparr>"

lemma demo_core_fields [simp]:
  "mem8 demo_core = snd (fold push_word (initial_frame 0x32000 0x102000) (0x32000, \<lambda>_. 0))"
  "proc demo_core = (proc demo_last_tick)
        (0x100 := (proc demo_last_tick 0x100)\<lparr>p_kernel_stack := 0x20000\<rparr>,
         0x200 := (proc demo_last_tick 0x200)\<lparr>p_kernel_stack := 0x30000,
           p_registers := zero_regs\<lparr>rsp := 0x32000 - 176, rip := 0x102000\<rparr>\<rparr>)"
  "scheduler demo_core = scheduler demo_last_tick" "cpu demo_core = demo_cpu"
  by (simp_all add: demo_core_def sched.defs core.defs)

theorem context_switch_resumes_witness:
  "cpu (call_context_switch demo_cpu 0x103000 0x200 0x100
      (call_context_switch demo_cpu 0x101234 0x100 0x200 demo_core)) =
    demo_cpu\<lparr>gpr := (\<lambda>_. 7)(RDI := 0x100, RSI := 0x200, RSP := 0x20FF8), ip := 0x101234, eflags := 0x202\<rparr>"
  using context_switch_resumes [where p = "0x100" and q = "0x200" and o' = "0x200" and s = demo_core
      and t = "call_context_switch demo_cpu 0x101234 0x100 0x200 demo_core" and c = demo_cpu and c' = demo_cpu
      and ra = "0x101234" and ra' = "0x103000", OF _ _ _ refl]
  by (simp add: demo_cpu_def fresh_cpu_def IF_def)

end
