(* ===== verification/Multitasking.thy ===== *)
theory Multitasking
  imports Context_Switch
begin

text \<open>
  Preemptive multitasking: whatever processes compute and whenever interrupts arrive, every process
  runs as if it had a processor of its own.
\<close>

subsection \<open>The C handlers leave registers and stacks alone\<close>

lemma core_more:
  fixes s t :: core
  assumes "keyboard.more t = keyboard.more s"
  shows "cpu t = cpu s" "proc t = proc s" "scheduler t = scheduler s"
  using assms by (cases s, cases t, simp)+

lemma keyboard_handler_frame: "mem8 (keyboard_handler s) = mem8 s" "keyboard.more (keyboard_handler s) = keyboard.more s"
proof -
  have add: "mem8 (kb_buffer_add c s) = mem8 s" "keyboard.more (kb_buffer_add c s) = keyboard.more s" for c and s :: "'a keyboard_scheme"
    by (simp_all add: kb_buffer_add_def Let_def)
  have inb: "mem8 (snd (inb p s)) = mem8 s" "keyboard.more (snd (inb p s)) = keyboard.more s" for p and s :: "'a keyboard_scheme"
    by (simp_all add: inb_def emit_def Let_def)
  show "mem8 (keyboard_handler s) = mem8 s"
    unfolding keyboard_handler_def Let_def split_beta
    by (simp only: if_distrib [of mem8] add inb if_cancel machine.simps pit.simps keyboard.simps) (simp add: inb)
  show "keyboard.more (keyboard_handler s) = keyboard.more s"
    unfolding keyboard_handler_def Let_def split_beta
    by (simp only: if_distrib [of keyboard.more] add inb if_cancel pit.simps keyboard.simps) (simp add: inb)
qed

lemma irq_handler_core:
  fixes s :: core
  shows "cpu (irq_handler n s) = cpu s" "proc (irq_handler n s) = proc s"
    "scheduler (irq_handler n s) = scheduler s" "mem8 (irq_handler n s) = mem8 s"
proof -
  have "mem8 (irq_handler n s) = mem8 s \<and> keyboard.more (irq_handler n s) = keyboard.more s"
    by (simp add: irq_handler_def pic_send_eoi_eq pit_handler_def Let_def keyboard_handler_frame)
  then show "cpu (irq_handler n s) = cpu s" "proc (irq_handler n s) = proc s"
    "scheduler (irq_handler n s) = scheduler s" "mem8 (irq_handler n s) = mem8 s"
    using core_more [of "irq_handler n s" s] by auto
qed

text \<open>Nor do they depend on them.\<close>

lemma inb_upd:
  fixes s :: core
  assumes "inb p s = (v, u)"
  shows "inb p (s\<lparr>mem8 := m, cpu := c\<rparr>) = (v, u\<lparr>mem8 := m, cpu := c\<rparr>)"
  using assms unfolding inb_def Let_def emit_def by auto

lemma buffer_upd:
  fixes s :: core
  shows "kb_buffer_add ch (s\<lparr>mem8 := m, cpu := c\<rparr>) = (kb_buffer_add ch s)\<lparr>mem8 := m, cpu := c\<rparr>"
  unfolding kb_buffer_add_def Let_def by simp

lemma handler_upd:
  fixes s :: core
  shows "keyboard_handler (s\<lparr>mem8 := m, cpu := c\<rparr>) = (keyboard_handler s)\<lparr>mem8 := m, cpu := c\<rparr>"
proof -
  obtain v u where u: "inb KB_DATA_PORT s = (v, u)" by (cases "inb KB_DATA_PORT s")
  show ?thesis
    unfolding keyboard_handler_def u inb_upd [OF u] Let_def split_beta fst_conv snd_conv buffer_upd
      if_distrib [of "\<lambda>s :: core. s\<lparr>mem8 := m, cpu := c\<rparr>"]
    by (intro if_cong refl) simp_all
qed

lemma irq_handler_upd:
  fixes s :: core
  shows "irq_handler n (s\<lparr>mem8 := m, cpu := c\<rparr>) = (irq_handler n s)\<lparr>mem8 := m, cpu := c\<rparr>"
  by (simp add: irq_handler_def Let_def pit_handler_def pic_send_eoi_eq handler_upd)

lemma vga_core: "vga_frame s t \<Longrightarrow> cpu t = cpu s" for s t :: core
proof -
  assume "vga_frame s t"
  then obtain b x y where "t = s\<lparr>vga_buffer := b, cursor_x := x, cursor_y := y\<rparr>"
    unfolding vga_frame_iff by metis
  then show ?thesis by simp
qed

lemma queue_core: "queue_frame s t \<Longrightarrow> cpu t = cpu s" for s t :: core
  by (auto simp: queue_frame_def)

lemma preempt_handler_core:
  fixes s t :: core
  assumes "preempt_handler sp s = Some (q, t)"
  shows "cpu t = cpu s"
proof -
  have summary: "cpu v = cpu u" if "print_summary u = Some v" for u v :: core
    by (rule vga_core, rule print_summary_vga, rule that)
  have upd: "cpu (upd_proc p f u) = cpu u" "cpu (upd_sched g u) = cpu u"
    "cpu (queue_enqueue p u) = cpu u" "cpu (outb a b u) = cpu u"
    for p f g a b and u :: core
    using queue_core [OF queue_enqueue_frame] by (simp_all add: upd_proc_def upd_sched_def machine_defs)
  have deq: "cpu v = cpu u" if "queue_dequeue u = (x, v)" for x and u v :: core
    using queue_core [OF queue_dequeue_frame [of u]] that by simp
  obtain u where u: "tick_entry s = Some u"
    using assms by (auto simp: preempt_handler_def tick_entry_def Let_def split: option.splits if_splits)
  have "cpu u = cpu s"
    using u summary by (fastforce simp: tick_entry_def Let_def upd split: if_splits)
  moreover have "cpu t = cpu u"
    using assms u by (auto simp: preempt_handler_def tick_entry_def Let_def upd dest!: deq split: if_splits prod.splits)
  ultimately show ?thesis by simp
qed

subsection \<open>Stacks and suspended processes\<close>

definition stack_bytes :: "u64 \<Rightarrow> u64 set" where
  "stack_bytes ks = {a. unat (a - ks) < 8192}"

definition kstack :: "'a sched_scheme \<Rightarrow> u64 \<Rightarrow> u64 set" where
  "kstack s p = stack_bytes (p_kernel_stack (proc s p))"

text \<open>
  There is room below the stack pointer of \<open>c\<close> for an interrupt frame and \<open>K\<close> bytes of C code on the
  8 KB stack at \<open>ks\<close>.
\<close>

definition stack_room :: "nat \<Rightarrow> u64 \<Rightarrow> cpu_state \<Rightarrow> bool" where
  "stack_room K ks c \<longleftrightarrow> 176 + K \<le> unat (frame_base c - ks) \<and> unat (frame_base c - ks) \<le> 8192"

text \<open>The process \<open>p\<close> is not running, and its stack holds the frame to resume \<open>c\<close>.\<close>

definition suspended :: "'a sched_scheme \<Rightarrow> u64 \<Rightarrow> cpu_state \<Rightarrow> bool" where
  "suspended s p c \<longleftrightarrow> holds_frame (mem8 s) (rsp (p_registers (proc s p))) c \<and>
     unat (rsp (p_registers (proc s p)) - p_kernel_stack (proc s p)) + 176 \<le> 8192"

text \<open>
  Every process \<open>p\<close> has the processor state \<open>ctx p\<close>: for the running one it is in the processor, for
  the others it is on their stacks.
\<close>

definition contexts_ok :: "nat \<Rightarrow> u64 list \<Rightarrow> (u64 \<Rightarrow> cpu_state) \<Rightarrow> core \<Rightarrow> bool" where
  "contexts_ok K l ctx s \<longleftrightarrow> sched_at l s \<and>
     (\<forall>p\<in>set l. \<forall>q\<in>set l. p \<noteq> q \<longrightarrow> kstack s p \<inter> kstack s q = {}) \<and>
     (\<forall>p\<in>set l. stack_room K (p_kernel_stack (proc s p)) (ctx p)) \<and>
     cpu s = ctx (hd l) \<and> (\<forall>p\<in>set (tl l). suspended s p (ctx p))"

lemma holds_frame_cong:
  assumes "\<And>j. j < 176 \<Longrightarrow> m' (p + word_of_nat j) = m (p + word_of_nat j)"
  shows "holds_frame m' p c = holds_frame m p c"
proof -
  have ld: "load64 m' (p + word_of_nat i) = load64 m (p + word_of_nat i)" if "i \<le> 168" for i
  proof (rule load64_cong)
    fix j :: nat assume "j < 8"
    then show "m' (p + word_of_nat i + word_of_nat j) = m (p + word_of_nat i + word_of_nat j)"
      using assms [of "i + j"] that by (simp add: add.assoc)
  qed
  have "load64 m' (p + 8 * word_of_nat k) = load64 m (p + 8 * word_of_nat k)" if "k < 15" for k
    using ld [of "8 * k"] that by simp
  moreover have "load64 m' (p + 136 + 8 * word_of_nat k) = load64 m (p + 136 + 8 * word_of_nat k)" if "k < 5" for k
    using ld [of "136 + 8 * k"] that by (simp add: add.assoc)
  ultimately show ?thesis by (simp add: holds_frame_def)
qed

lemma stack_bytes_apart:
  assumes "8192 \<le> unat (a - b)" and "8192 \<le> unat (b - a)"
  shows "stack_bytes a \<inter> stack_bytes b = {}"
proof (rule ccontr)
  assume "stack_bytes a \<inter> stack_bytes b \<noteq> {}"
  then obtain x where x: "unat (x - a) < 8192" "unat (x - b) < 8192" by (auto simp: stack_bytes_def)
  have sum: "unat (x - a) = (unat (x - b) + unat (b - a)) mod 2 ^ 64"
    using unat_word_ariths(1) [of "x - b" "b - a"] by simp
  have "b - a \<noteq> 0" using assms(2) by auto
  then have "unat (b - a) + unat (a - b) = 2 ^ 64"
    using unat_sub_if_size [of 0 "b - a"] unat_gt_0 [of "b - a"] unsigned_less [of "b - a", where 'a = nat]
    by (simp add: word_size)
  then have "unat (x - b) + unat (b - a) < 2 ^ 64" using assms(1) x(2) by linarith
  then show False using sum assms(2) x(1) by simp
qed

text \<open>The bytes of an inner part of a stack.\<close>

lemma stack_part:
  assumes "unat (p - ks) + n \<le> 8192" and "j < n"
  shows "p + word_of_nat j \<in> stack_bytes ks"
proof -
  have "unat (word_of_nat j :: u64) = j" using assms by (simp add: unat_of_nat)
  moreover have "p + word_of_nat j - ks = (p - ks) + word_of_nat j" by simp
  ultimately have "unat (p + word_of_nat j - ks) = unat (p - ks) + j"
    using assms by (simp only:) (subst unat_add_exact, simp_all)
  then show ?thesis using assms by (simp add: stack_bytes_def)
qed

lemma unat_small: "n < 65536 \<Longrightarrow> unat (word_of_nat n :: u64) = n"
  by (simp add: unat_of_nat)

lemma suspended_cong:
  assumes "\<And>a. a \<in> kstack s p \<Longrightarrow> mem8 t a = mem8 s a"
    and "rsp (p_registers (proc t p)) = rsp (p_registers (proc s p))"
    and "p_kernel_stack (proc t p) = p_kernel_stack (proc s p)"
  shows "suspended s p c \<Longrightarrow> suspended t p c"
proof -
  assume s: "suspended s p c"
  have "holds_frame (mem8 t) (rsp (p_registers (proc s p))) c = holds_frame (mem8 s) (rsp (p_registers (proc s p))) c"
    by (rule holds_frame_cong, rule assms(1))
      (use s in \<open>simp add: suspended_def kstack_def stack_part [where n = 176]\<close>)
  then show ?thesis using s by (simp add: suspended_def assms(2,3))
qed

text \<open>The bytes below the aligned stack pointer that an interrupt may write.\<close>

lemma stack_below:
  assumes "stack_room K ks c" and "unat (frame_base c - 1 - a) < 176 + K"
  shows "a \<in> stack_bytes ks"
proof -
  define d where "d = unat (frame_base c - ks)"
  define i where "i = unat (frame_base c - 1 - a)"
  have d: "176 + K \<le> d" "d \<le> 8192" and i: "i < 176 + K" using assms by (simp_all add: stack_room_def d_def i_def)
  have "frame_base c - ks = word_of_nat d" "frame_base c - 1 - a = word_of_nat i" by (simp_all add: d_def i_def)
  then have "a - ks = word_of_nat d - 1 - word_of_nat i" by (simp add: algebra_simps)
  also have "\<dots> = word_of_nat (d - 1 - i)" using d i by (simp add: of_nat_diff)
  finally have "unat (a - ks) = unat (word_of_nat (d - 1 - i) :: u64)" by (rule arg_cong)
  moreover have "unat (word_of_nat (d - 1 - i) :: u64) = d - 1 - i"
    by (rule unat_small) (use d in linarith)
  ultimately have "unat (a - ks) = d - 1 - i" by simp
  then show ?thesis using d i by (simp add: stack_bytes_def)
qed

lemma below_frame:
  fixes a b :: u64
  assumes "unat (a - (b - 176)) < 176"
  shows "unat (b - 1 - a) < 176"
proof -
  define j where "j = unat (a - (b - 176))"
  have "a - (b - 176) = word_of_nat j" by (simp add: j_def)
  then have "b - 1 - a = word_of_nat 175 - word_of_nat j"
    by (simp add: algebra_simps)
  also have "\<dots> = word_of_nat (175 - j)" using assms by (simp add: of_nat_diff j_def)
  finally show ?thesis using assms by (simp add: unat_of_nat)
qed

lemma below_call:
  fixes a b :: u64
  assumes "unat (b - 176 - 1 - a) < K" and "K \<le> 8192"
  shows "unat (b - 1 - a) < 176 + K"
proof -
  define j where "j = unat (b - 176 - 1 - a)"
  have "b - 176 - 1 - a = word_of_nat j" by (simp add: j_def)
  then have "b - 1 - a = word_of_nat (176 + j)" by (simp add: algebra_simps)
  then have "unat (b - 1 - a) = 176 + j"
    using assms by (simp only:) (rule unat_small, simp add: j_def)
  then show ?thesis using assms(1) by (simp only: j_def)
qed

subsection \<open>One interrupt\<close>

text \<open>The state in which a stub calls the C handler.\<close>

definition stub_called :: "u64 \<Rightarrow> core \<Rightarrow> core" where
  "stub_called n s = exec (map PUSH saved_regs @ [LOAD RDI RSP 120, SUBI RDI 32])
     (exec [CLI, PUSHI 0, PUSHI (32 + n)] (deliver None s))"

lemma stub_called_spec:
  fixes s :: core and n :: u64
  defines "b \<equiv> frame_base (cpu s)" and "u \<equiv> stub_called n s"
  shows "reg RDI u = n" "reg RSP u = b - 176" "proc u = proc s" "scheduler u = scheduler s"
    "holds_frame (mem8 u) (b - 176) (cpu s)" "\<And>a. 176 \<le> unat (b - 1 - a) \<Longrightarrow> mem8 u a = mem8 s a"
    "u = s\<lparr>mem8 := mem8 u, cpu := cpu u\<rparr>"
proof -
  define v where "v = exec (map PUSH saved_regs) (exec [CLI, PUSHI 0, PUSHI (32 + n)] (deliver None s))"
  have "None = None \<and> [CLI, PUSHI 0, PUSHI (32 + n)] = [CLI, PUSHI 0, PUSHI (32 + n)] \<and> (0 :: u64) = 0 \<or>
      None = Some (0 :: u64) \<and> [CLI, PUSHI 0, PUSHI (32 + n)] = [CLI, PUSHI (32 + n)]" by simp
  note entry = stub_entry [OF this, where s = s, folded v_def b_def]
  note frame = pushed_frame [where c = "cpu s" and a = b and m = "mem8 s" and err = 0 and n = "32 + n"]
  have "u = exec [LOAD RDI RSP 120, SUBI RDI 32] v" unfolding u_def stub_called_def v_def by (rule exec_append)
  then have u: "u = set_reg RDI n v"
    using frame(3) entry(1,2) by simp
  have v: "proc v = proc s" "scheduler v = scheduler s" by (subst entry(4), simp)+
  show "reg RDI u = n" "reg RSP u = b - 176" "proc u = proc s" "scheduler u = scheduler s"
    by (simp_all add: u entry(1) v)
  show "u = s\<lparr>mem8 := mem8 u, cpu := cpu u\<rparr>"
  proof -
    obtain c m where "v = s\<lparr>cpu := c, mem8 := m\<rparr>" using entry(4) by blast
    then show ?thesis by (simp add: u set_reg_def)
  qed
  show "holds_frame (mem8 u) (b - 176) (cpu s)" using frame(2) by (simp add: u entry(2))
  show "mem8 u a = mem8 s a" if "176 \<le> unat (b - 1 - a)" for a
    using frame(4) [of a] below_frame [of a b] that by (simp add: u entry(2)) (meson not_le)
qed

text \<open>
  What a C handler leaves: everything outside its own stack, and the frame above it.
\<close>

lemma c_return_frame:
  fixes s :: core
  assumes "K \<le> 8192" and "reg RSP s = b - 176"
  shows "reg RSP (c_return K e s) = b - 176" "proc (c_return K e s) = proc s"
    "scheduler (c_return K e s) = scheduler s"
    "\<And>a. 176 + K \<le> unat (b - 1 - a) \<Longrightarrow> mem8 (c_return K e s) a = mem8 s a"
    "holds_frame (mem8 (c_return K e s)) (b - 176) c = holds_frame (mem8 s) (b - 176) c"
proof -
  show "reg RSP (c_return K e s) = b - 176" "proc (c_return K e s) = proc s"
    "scheduler (c_return K e s) = scheduler s"
    using assms(2) by (simp_all add: c_return_def reg_def)
  show "mem8 (c_return K e s) a = mem8 s a" if "176 + K \<le> unat (b - 1 - a)" for a
    using below_call [of b a K] assms that by (auto simp: c_return_def)
  show "holds_frame (mem8 (c_return K e s)) (b - 176) c = holds_frame (mem8 s) (b - 176) c"
  proof (rule holds_frame_cong)
    fix j :: nat assume j: "j < 176"
    have "b - 176 - 1 - (b - 176 + word_of_nat j) = 0 - word_of_nat (Suc j)" by simp
    moreover have "unat (word_of_nat (Suc j) :: u64) = Suc j" by (rule unat_small) (use j in simp)
    then have "unat (0 - word_of_nat (Suc j) :: u64) = 2 ^ 64 - Suc j"
      by (simp only: unat_sub_if_size) (simp add: word_size)
    ultimately have "\<not> unat (b - 176 - 1 - (b - 176 + word_of_nat j)) < K" using assms(1) j by (simp only:) simp
    then show "mem8 (c_return K e s) (b - 176 + word_of_nat j) = mem8 s (b - 176 + word_of_nat j)"
      using assms(2) by (simp add: c_return_def)
  qed
qed

text \<open>
  An interrupt of the process \<open>x\<close> writes only below its stack pointer; so the frames of the others
  survive, and it is enough that \<open>x\<close> itself runs on or has its frame.
\<close>

lemma other_stack:
  assumes ok: "contexts_ok K (x # xs) ctx s" and p: "p \<in> set xs" and a: "a \<in> kstack s p"
  shows "176 + K \<le> unat (frame_base (ctx x) - 1 - a)"
proof (rule ccontr)
  have room: "stack_room K (p_kernel_stack (proc s x)) (ctx x)" and "distinct (x # xs)"
    using ok by (auto simp: contexts_ok_def sched_at_def)
  then have "p \<noteq> x" using p by auto
  then have "kstack s p \<inter> kstack s x = {}" using ok p by (auto simp: contexts_ok_def)
  moreover assume "\<not> 176 + K \<le> unat (frame_base (ctx x) - 1 - a)"
  then have "a \<in> kstack s x" using stack_below [OF room] by (simp add: kstack_def)
  ultimately show False using a by blast
qed

lemma contexts_ok_step:
  assumes ok: "contexts_ok K (x # xs) ctx s" and at: "sched_at l' t" "l' = x # xs \<or> l' = xs @ [x]"
    and same: "\<And>z. p_kernel_stack (proc t z) = p_kernel_stack (proc s z)"
      "\<And>z. z \<noteq> x \<Longrightarrow> rsp (p_registers (proc t z)) = rsp (p_registers (proc s z))"
      "\<And>a. 176 + K \<le> unat (frame_base (ctx x) - 1 - a) \<Longrightarrow> mem8 t a = mem8 s a"
    and run: "cpu t = ctx (hd l')" "hd l' \<noteq> x \<Longrightarrow> suspended t x (ctx x)"
  shows "contexts_ok K l' ctx t"
proof -
  have l': "set l' = set (x # xs)" "distinct l'" "l' \<noteq> []" using at by (auto simp: sched_at_def)
  have "suspended t p (ctx p)" if p: "p \<in> set (tl l')" for p
  proof (cases "p = x")
    case True
    then have "hd l' \<noteq> x" using p l'(2,3) by (cases l') auto
    with True run(2) show ?thesis by simp
  next
    case False
    then have px: "p \<in> set xs" using p l'(1) by (auto dest: list.set_sel(2) [OF l'(3)])
    have "mem8 t a = mem8 s a" if "a \<in> kstack s p" for a
      by (rule same(3), rule other_stack [OF ok px that])
    moreover have "suspended s p (ctx p)" using ok px by (simp add: contexts_ok_def)
    ultimately show ?thesis by (rule suspended_cong [OF _ same(2) [OF False] same(1)])
  qed
  moreover have "kstack t p = kstack s p" for p by (simp add: kstack_def same(1))
  ultimately show ?thesis using ok at(1) run(1) by (simp add: contexts_ok_def l'(1) same(1))
qed

lemma contexts_ok_head:
  assumes "contexts_ok K l ctx s"
  obtains x xs where "l = x # xs" "cpu s = ctx x" "stack_room K (p_kernel_stack (proc s x)) (ctx x)"
    "sched_at (x # xs) s" "K \<le> 8192"
proof -
  have "l \<noteq> []" using assms by (simp add: contexts_ok_def sched_at_def)
  then obtain x xs where "l = x # xs" by (cases l) auto
  with assms show ?thesis by (intro that [of x xs]) (auto simp: contexts_ok_def stack_room_def)
qed

lemma irq_stub_called:
  "irq_stub K e n (deliver None s) =
    (let s = stub_called n s
     in if reg RDI s = 0 then
          (let s = exec [MOV RDI RSP] s
           in case preempt_handler (reg RDI s) s of
                None \<Rightarrow> None
              | Some (sp, s) \<Rightarrow>
                  (let s = set_reg RAX sp (c_return K e s)
                   in Some (restore_and_return (exec [MOV RSP RAX] s))))
        else Some (restore_and_return (c_return K e (irq_handler (reg RDI s) s))))"
  unfolding irq_stub_def irq_common_stub_def stub_called_def ..

text \<open>A line other than the timer's: the effect of \<open>irq_handler\<close>, and the interrupted code runs on.\<close>

lemma line_stub:
  fixes s :: core
  assumes "n \<noteq> 0" and "K \<le> 8192"
  shows "\<exists>m. irq_stub K e n (deliver None s) = Some ((irq_handler n s)\<lparr>mem8 := m\<rparr>) \<and>
    (\<forall>a. 176 + K \<le> unat (frame_base (cpu s) - 1 - a) \<longrightarrow> m a = mem8 s a)"
proof -
  define b where "b = frame_base (cpu s)"
  note call = stub_called_spec [where n = n and s = s, folded b_def]
  define u where "u = irq_handler n (stub_called n s)"
  note h = irq_handler_core [of n "stub_called n s", folded u_def]
  have rsp: "reg RSP u = b - 176" using call(2) by (simp add: reg_def h)
  note ret = c_return_frame [OF assms(2) rsp, where e = e]
  have "holds_frame (mem8 (c_return K e u)) (b - 176) (cpu s)" using ret(5) call(5) by (simp add: h)
  from restore_frame [OF this ret(1)] have
    "irq_stub K e n (deliver None s) = Some ((c_return K e u)\<lparr>cpu := cpu s\<rparr>)"
    using assms(1) call(1) by (simp add: irq_stub_called u_def)
  moreover have u: "u = (irq_handler n s)\<lparr>mem8 := mem8 (stub_called n s), cpu := cpu (stub_called n s)\<rparr>"
    unfolding u_def irq_handler_upd [symmetric] using call(7) by (rule arg_cong)
  have "(c_return K e u)\<lparr>cpu := cpu s\<rparr> = (irq_handler n s)\<lparr>mem8 := mem8 (c_return K e u)\<rparr>"
    unfolding c_return_def by (subst u, subst irq_handler_core(1) [of n s, symmetric]) simp
  moreover have "mem8 (c_return K e u) a = mem8 s a" if "176 + K \<le> unat (b - 1 - a)" for a
    using that ret(4) [of a] call(6) [of a] by (simp add: h)
  ultimately show ?thesis unfolding b_def [symmetric] by auto
qed

lemma line_interrupt:
  assumes ok: "contexts_ok K l ctx s" and n: "n \<noteq> 0"
  shows "\<exists>t. irq_stub K e n (deliver None s) = Some t \<and> contexts_ok K l ctx t"
proof -
  obtain x xs where l: "l = x # xs" and x: "cpu s = ctx x" "sched_at (x # xs) s" "K \<le> 8192"
    using contexts_ok_head [OF ok] by metis
  obtain m where m: "irq_stub K e n (deliver None s) = Some ((irq_handler n s)\<lparr>mem8 := m\<rparr>)"
    "\<forall>a. 176 + K \<le> unat (frame_base (cpu s) - 1 - a) \<longrightarrow> m a = mem8 s a"
    using line_stub [OF n x(3)] by blast
  define t where "t = (irq_handler n s)\<lparr>mem8 := m\<rparr>"
  have t: "proc t = proc s" "scheduler t = scheduler s" "cpu t = cpu s" "mem8 t = m"
    by (simp_all add: t_def irq_handler_core)
  have "contexts_ok K l ctx t" unfolding l
  proof (rule contexts_ok_step [OF ok [unfolded l]])
    show "sched_at (x # xs) t" using x(2) sched_at_cong [of t s "total_ticks (scheduler s)"] t by simp
    show "mem8 t a = mem8 s a" if "176 + K \<le> unat (frame_base (ctx x) - 1 - a)" for a
      using m(2) that by (simp add: t x(1))
  qed (simp_all add: t x(1))
  then show ?thesis using m(1) by (simp add: t_def)
qed

text \<open>The timer: the stub unwinds the frame that the scheduler chose.\<close>

text \<open>The frame of a waiting process is out of reach of an interrupt on another stack.\<close>

lemma waiting_frame:
  assumes ok: "contexts_ok K (x # y # ys) ctx s"
    and mem: "\<And>a. 176 + K \<le> unat (frame_base (ctx x) - 1 - a) \<Longrightarrow> m a = mem8 s a"
  shows "holds_frame m (rsp (p_registers (proc s y))) (ctx y)"
proof -
  have y: "suspended s y (ctx y)" using ok by (simp add: contexts_ok_def)
  then have "unat (rsp (p_registers (proc s y)) - p_kernel_stack (proc s y)) + 176 \<le> 8192"
    by (simp add: suspended_def)
  from stack_part [OF this] have "holds_frame m (rsp (p_registers (proc s y))) (ctx y) =
      holds_frame (mem8 s) (rsp (p_registers (proc s y))) (ctx y)"
    by (intro holds_frame_cong mem other_stack [OF ok, of y]) (simp_all add: kstack_def)
  then show ?thesis using y by (simp add: suspended_def)
qed

lemma frame_fits:
  assumes "stack_room K ks c"
  shows "unat (frame_base c - 176 - ks) + 176 \<le> 8192"
proof -
  define d where "d = frame_base c - ks"
  have d: "176 \<le> unat d" "unat d \<le> 8192" using assms by (simp_all add: stack_room_def d_def)
  have e: "frame_base c - 176 - ks = d - 176" by (simp add: d_def)
  have "unat (d - 176) = unat d - 176" using d(1) by (subst unat_sub_exact) (simp_all add: word_le_nat_alt)
  then show ?thesis unfolding e using d by simp
qed

text \<open>
  The stub of the timer up to where it restores registers, in state \<open>w\<close>: the frame of the
  interrupted process is on its stack, the scheduler has counted the tick, and the stack pointer is
  that of the process that runs next.
\<close>

lemma timer_stub:
  assumes ok: "contexts_ok K (x # xs) ctx s"
  defines "b \<equiv> frame_base (ctx x)"
  shows "\<exists>w. irq_stub K e 0 (deliver None s) = Some (restore_and_return w) \<and>
    (\<forall>z. p_kernel_stack (proc w z) = p_kernel_stack (proc s z)) \<and>
    (\<forall>a. 176 + K \<le> unat (b - 1 - a) \<longrightarrow> mem8 w a = mem8 s a) \<and> holds_frame (mem8 w) (b - 176) (ctx x) \<and>
    (if p_time_slice_remaining (proc s x) = 1
     then sched_at (xs @ [x]) w \<and> p_time_slice_remaining (proc w (hd (xs @ [x]))) = 20 \<and>
       reg RSP w = (if xs = [] then b - 176 else rsp (p_registers (proc s (hd xs)))) \<and>
       (\<forall>z. p_registers (proc w z) =
          (if z = x then (p_registers (proc s x))\<lparr>rsp := b - 176\<rparr> else p_registers (proc s z)))
     else sched_at (x # xs) w \<and> p_time_slice_remaining (proc w x) = p_time_slice_remaining (proc s x) - 1 \<and>
       reg RSP w = b - 176 \<and> (\<forall>z. p_registers (proc w z) = p_registers (proc s z)))"
proof -
  have x: "cpu s = ctx x" "sched_at (x # xs) s" "K \<le> 8192" using contexts_ok_head [OF ok] by auto
  note call = stub_called_spec [where n = 0 and s = s, unfolded x(1), folded b_def]
  define u where "u = set_reg RDI (b - 176) (stub_called 0 s)"
  have u: "exec [MOV RDI RSP] (stub_called 0 s) = u" "reg RDI u = b - 176" "reg RSP u = b - 176"
    "proc u = proc s" "scheduler u = scheduler s" "mem8 u = mem8 (stub_called 0 s)"
    using call(2-4) by (simp_all add: u_def)
  have "sched_at (x # xs) u" using x(2) sched_at_cong [of u s "total_ticks (scheduler s)"] u by simp
  from preempt_tick [OF this, of "b - 176", unfolded u(4)] obtain q v where
    v: "preempt_handler (b - 176) u = Some (q, v)"
    and after: "if p_time_slice_remaining (proc s x) = 1
     then sched_at (xs @ [x]) v \<and> p_time_slice_remaining (proc v (hd (xs @ [x]))) = 20 \<and>
       q = (if xs = [] then b - 176 else rsp (p_registers (proc s (hd xs)))) \<and>
       (\<forall>z. p_registers (proc v z) =
          (if z = x then (p_registers (proc s x))\<lparr>rsp := b - 176\<rparr> else p_registers (proc s z)))
     else sched_at (x # xs) v \<and> p_time_slice_remaining (proc v x) = p_time_slice_remaining (proc s x) - 1 \<and>
       q = b - 176 \<and> (\<forall>z. p_registers (proc v z) = p_registers (proc s z))"
    by blast
  have keep: "cpu v = cpu u" "mem8 v = mem8 u" "\<And>z. p_kernel_stack (proc v z) = p_kernel_stack (proc s z)"
    using preempt_handler_core [OF v] preempt_handler_keeps [OF v] by (simp_all add: keeps_def heap_eq_def u(4))
  have rsp: "reg RSP v = b - 176" using u(3) by (simp add: reg_def keep)
  note ret = c_return_frame [OF x(3) rsp, where e = e]
  define w where "w = exec [MOV RSP RAX] (set_reg RAX q (c_return K e v))"
  have w: "reg RSP w = q" "mem8 w = mem8 (c_return K e v)" "proc w = proc v" "scheduler w = scheduler v"
    by (simp_all add: w_def ret)
  have stub: "irq_stub K e 0 (deliver None s) = Some (restore_and_return w)"
    using call(1) v by (simp add: irq_stub_called u(1) w_def u(2) del: exec_Cons)
  have mem: "mem8 w a = mem8 s a" if "176 + K \<le> unat (b - 1 - a)" for a
    using that ret(4) [of a] call(6) [of a] by (simp add: w(2) keep(2) u(6))
  have own: "holds_frame (mem8 w) (b - 176) (ctx x)"
    using ret(5) call(5) by (simp add: w(2) keep(2) u(6) x(1))
  have "sched_at l w = sched_at l v" for l
    using sched_at_cong [of w v "total_ticks (scheduler v)"] by (simp add: w)
  then show ?thesis using stub keep(3) mem own after by (intro exI [of _ w]) (simp add: w(1,3))
qed

lemma timer_interrupt:
  assumes ok: "contexts_ok K l ctx s"
  defines "l' \<equiv> if p_time_slice_remaining (proc s (hd l)) = 1 then rotate1 l else l"
  shows "\<exists>t. irq_stub K e 0 (deliver None s) = Some t \<and> contexts_ok K l' ctx t \<and>
    p_time_slice_remaining (proc t (hd l')) =
      (if p_time_slice_remaining (proc s (hd l)) = 1 then 20 else p_time_slice_remaining (proc s (hd l)) - 1) \<and>
    (\<forall>z. rip (p_registers (proc t z)) = rip (p_registers (proc s z)))"
proof -
  obtain x xs where l: "l = x # xs" and room: "stack_room K (p_kernel_stack (proc s x)) (ctx x)"
    using contexts_ok_head [OF ok] by metis
  from timer_stub [OF ok [unfolded l], of e] obtain w where
    w: "irq_stub K e 0 (deliver None s) = Some (restore_and_return w)"
    "\<And>z. p_kernel_stack (proc w z) = p_kernel_stack (proc s z)"
    "\<And>a. 176 + K \<le> unat (frame_base (ctx x) - 1 - a) \<Longrightarrow> mem8 w a = mem8 s a"
    "holds_frame (mem8 w) (frame_base (ctx x) - 176) (ctx x)"
    and after: "if p_time_slice_remaining (proc s x) = 1
     then sched_at (xs @ [x]) w \<and> p_time_slice_remaining (proc w (hd (xs @ [x]))) = 20 \<and>
       reg RSP w = (if xs = [] then frame_base (ctx x) - 176 else rsp (p_registers (proc s (hd xs)))) \<and>
       (\<forall>z. p_registers (proc w z) =
          (if z = x then (p_registers (proc s x))\<lparr>rsp := frame_base (ctx x) - 176\<rparr> else p_registers (proc s z)))
     else sched_at (x # xs) w \<and> p_time_slice_remaining (proc w x) = p_time_slice_remaining (proc s x) - 1 \<and>
       reg RSP w = frame_base (ctx x) - 176 \<and> (\<forall>z. p_registers (proc w z) = p_registers (proc s z))"
    by blast
  define t where "t = w\<lparr>cpu := ctx (hd l')\<rparr>"
  have step: "contexts_ok K l' ctx t"
    if "sched_at l' w" "l' = x # xs \<or> l' = xs @ [x]"
      "\<And>z. z \<noteq> x \<Longrightarrow> p_registers (proc w z) = p_registers (proc s z)"
      and moved: "hd l' \<noteq> x \<Longrightarrow> rsp (p_registers (proc w x)) = frame_base (ctx x) - 176"
  proof (rule contexts_ok_step [OF ok [unfolded l]])
    show "sched_at l' t" using that(1) sched_at_cong [of t w "total_ticks (scheduler w)"] by (simp add: t_def)
    show "suspended t x (ctx x)" if other: "hd l' \<noteq> x"
      using w(4) frame_fits [OF room] moved [OF other] by (simp add: suspended_def t_def w(2))
  qed (use that w(3) in \<open>simp_all add: t_def w(2)\<close>)
  have "holds_frame (mem8 w) (reg RSP w) (ctx (hd l')) \<and> contexts_ok K l' ctx t \<and>
      p_time_slice_remaining (proc t (hd l')) =
      (if p_time_slice_remaining (proc s x) = 1 then 20 else p_time_slice_remaining (proc s x) - 1) \<and>
      (\<forall>z. rip (p_registers (proc t z)) = rip (p_registers (proc s z)))"
  proof (cases "p_time_slice_remaining (proc s x) = 1")
    case False
    then have "l' = x # xs" by (simp add: l'_def l)
    then show ?thesis using False after w(4) step by (simp add: t_def)
  next
    case True
    then have l': "l' = xs @ [x]" by (simp add: l'_def l)
    then have "contexts_ok K l' ctx t" using True after by (intro step) auto
    moreover have "holds_frame (mem8 w) (reg RSP w) (ctx (hd l'))"
    proof (cases xs)
      case (Cons y ys)
      from waiting_frame [OF ok [unfolded l Cons] w(3)] show ?thesis using True after by (simp add: l' Cons)
    qed (use True after w(4) l' in simp)
    ultimately show ?thesis using True after by (simp add: l' t_def)
  qed
  then show ?thesis using restore_frame [OF _ refl] w(1) by (intro exI [of _ t]) (simp add: t_def l)
qed

subsection \<open>Runs\<close>

text \<open>
  \<open>Run p c\<close>: the process \<open>p\<close> has the processor, computes, and leaves it in state \<open>c\<close>. It may change
  the screen, the heap and all memory but the kernel stacks of the processes that wait, and leaves
  room on its own stack for the next interrupt. \<open>Irq n e\<close>: an interrupt arrives on line \<open>n\<close> while
  they are enabled, and \<open>e\<close> is what the C code leaves in scratch registers and below the stack
  pointer. Lines 1 to 15 go to \<open>irq_handler\<close>, line 0 to \<open>preempt_handler\<close>.
\<close>

datatype run_event = Run u64 cpu_state | Irq u64 c_effect

inductive mach_step :: "nat \<Rightarrow> run_event \<Rightarrow> core \<Rightarrow> core \<Rightarrow> bool" for K where
  run: "p = current_process (scheduler s) \<Longrightarrow> proc t = proc s \<Longrightarrow> scheduler t = scheduler s \<Longrightarrow>
    \<forall>y\<in>set (ready_queue s). \<forall>a\<in>kstack s y. mem8 t a = mem8 s a \<Longrightarrow>
    stack_room K (p_kernel_stack (proc s p)) (cpu t) \<Longrightarrow> c = cpu t \<Longrightarrow> mach_step K (Run p c) s t"
| irq: "n < 16 \<Longrightarrow> eflags (cpu s) AND IF \<noteq> 0 \<Longrightarrow> irq_stub K e n (deliver None s) = Some t \<Longrightarrow>
    mach_step K (Irq n e) s t"

inductive_simps mach_step_simps: "mach_step K (Run p c) s t" "mach_step K (Irq n e) s t"

inductive mach_run :: "nat \<Rightarrow> run_event list \<Rightarrow> core \<Rightarrow> core \<Rightarrow> bool" for K where
  stop: "mach_run K [] s s"
| step: "mach_step K e s t \<Longrightarrow> mach_run K es t u \<Longrightarrow> mach_run K (e # es) s u"

inductive_simps mach_run_simps: "mach_run K [] s t" "mach_run K (e # es) s t"

text \<open>The abstract machine: a process state per process, which only the process itself changes.\<close>

fun own_state :: "run_event \<Rightarrow> (u64 \<Rightarrow> cpu_state) \<Rightarrow> u64 \<Rightarrow> cpu_state" where
  "own_state (Run p c) ctx = ctx(p := c)"
| "own_state (Irq n e) ctx = ctx"

definition own_states :: "run_event list \<Rightarrow> (u64 \<Rightarrow> cpu_state) \<Rightarrow> u64 \<Rightarrow> cpu_state" where
  "own_states es ctx = fold own_state es ctx"

lemma interrupt_returns:
  assumes "contexts_ok K l ctx s"
  shows "\<exists>t k. irq_stub K e n (deliver None s) = Some t \<and> contexts_ok K (rotate k l) ctx t"
proof (cases "n = 0")
  case True
  from timer_interrupt [OF assms, of e] obtain t where "irq_stub K e 0 (deliver None s) = Some t"
    "contexts_ok K (if p_time_slice_remaining (proc s (hd l)) = 1 then rotate1 l else l) ctx t" by blast
  then show ?thesis using True
    by (intro exI [of _ t] exI [of _ "if p_time_slice_remaining (proc s (hd l)) = 1 then 1 else 0"])
      (simp split: if_splits)
next
  case False
  from line_interrupt [OF assms this] show ?thesis by (metis rotate0 id_apply)
qed

lemma mach_step_ok:
  assumes "mach_step K e s t" and ok: "contexts_ok K l ctx s"
  shows "\<exists>k. contexts_ok K (rotate k l) (own_state e ctx) t"
  using assms(1)
proof cases
  case (run p c)
  obtain x xs where l: "l = x # xs" and x: "sched_at (x # xs) s"
    using contexts_ok_head [OF ok] by metis
  have p: "p = x" "ready_queue s = xs" "x \<notin> set xs"
    using x run(2) queue_wf_ready by (auto simp: sched_at_def)
  have "sched_at (x # xs) t" using x sched_at_cong [of t s "total_ticks (scheduler s)"] run by simp
  moreover have "suspended t y (ctx y)" if y: "y \<in> set xs" for y
  proof (rule suspended_cong)
    show "suspended s y (ctx y)" using ok y by (simp add: contexts_ok_def l)
    show "mem8 t a = mem8 s a" if "a \<in> kstack s y" for a using run(5) y that by (simp add: p)
  qed (simp_all add: run)
  moreover have "kstack t z = kstack s z" for z by (simp add: kstack_def run)
  ultimately have "contexts_ok K l (ctx(x := cpu t)) t"
    using ok run(3,6) p by (auto simp: contexts_ok_def l)
  then show ?thesis using run(1,7) p(1) by (intro exI [of _ 0]) simp
next
  case (irq n e')
  then show ?thesis using interrupt_returns [OF ok, of e' n] by auto
qed

lemma mach_run_ok:
  "mach_run K es s t \<Longrightarrow> contexts_ok K l ctx s \<Longrightarrow> \<exists>k. contexts_ok K (rotate k l) (own_states es ctx) t"
proof (induction arbitrary: l ctx rule: mach_run.induct)
  case (stop s)
  then show ?case by (intro exI [of _ 0]) (simp add: own_states_def)
next
  case (step e s t es u)
  obtain k where "contexts_ok K (rotate k l) (own_state e ctx) t" using mach_step_ok step.hyps(1) step.prems by blast
  from step.IH [OF this] obtain j where "contexts_ok K (rotate j (rotate k l)) (own_states es (own_state e ctx)) u"
    by blast
  then show ?case by (intro exI [of _ "j + k"]) (simp add: own_states_def rotate_rotate)
qed

text \<open>
  Property C16. Interrupts on lines 1 to 15 are invisible to the code they interrupt: whatever that is,
  if the C code needs no more than \<open>K\<close> bytes of stack, the stub returns, the processor is in exactly
  the state it was in, and the rest of the machine is as \<open>irq_handler\<close> called with the line leaves it,
  but for memory in the \<open>176 + K\<close> bytes below the aligned stack pointer.
\<close>

theorem line_stub_transparent:
  assumes "0 < n" and "n < 16" and "K \<le> 8192"
  shows "\<exists>t m. irq_stub K e n (deliver None s) = Some t \<and> cpu t = cpu s \<and>
    t = (irq_handler n s)\<lparr>mem8 := m\<rparr> \<and>
    (\<forall>a. 176 + K \<le> unat ((gpr (cpu s) RSP AND NOT 15) - 1 - a) \<longrightarrow> m a = mem8 s a)"
proof -
  have "n \<noteq> 0" using assms(1) by auto
  from line_stub [OF this assms(3), of e s] obtain m where
    "irq_stub K e n (deliver None s) = Some ((irq_handler n s)\<lparr>mem8 := m\<rparr>)"
    "\<forall>a. 176 + K \<le> unat (frame_base (cpu s) - 1 - a) \<longrightarrow> m a = mem8 s a" by blast
  then show ?thesis
    by (intro exI [of _ "(irq_handler n s)\<lparr>mem8 := m\<rparr>"] exI [of _ m])
      (simp add: irq_handler_core frame_base_def)
qed

text \<open>An effect of C code that leaves rubbish behind.\<close>

definition demo_effect :: c_effect where
  "demo_effect = \<lparr>c_regs = (\<lambda>_. 0xDEAD), c_flags = 0x46, c_stack = (\<lambda>_. 0xAA)\<rparr>"

theorem line_stub_transparent_witness:
  "\<exists>t. irq_stub 64 demo_effect 12 (deliver None demo_core) = Some t \<and> cpu t = demo_cpu \<and>
    hw_trace t = hw_trace demo_core @ [Out 0xA0 0x20, Out 0x20 0x20]"
  using line_stub_transparent [where n = 12 and K = 64 and e = demo_effect and s = demo_core]
  by (auto simp: irq_handler_def Let_def pic_send_eoi_eq pic_ports)

text \<open>
  Property C3. Preemptive multitasking. Let every process have a processor state of its own (that of
  the running process in the processor, those of the others in the frames on their kernel stacks),
  let the kernel stacks be disjoint, and let there be room on each for an interrupt. Then in every
  run in which processes compute and interrupts arrive at any time in any order, the processor is
  at every moment in the state of the process that the scheduler says is running, which only that
  process itself has changed since it last had the processor, and the state of every other process
  is still in its frame; the processes stay in the same cyclic order, and the next interrupt, on
  whichever line, returns into the process that runs after it in its own state.
\<close>

theorem processes_keep_state:
  assumes "contexts_ok K l ctx s" and "mach_run K es s t"
  shows "\<exists>k. sched_at (rotate k l) t \<and> cpu t = own_states es ctx (current_process (scheduler t)) \<and>
    (\<forall>p\<in>set (ready_queue t). suspended t p (own_states es ctx p)) \<and>
    (\<forall>n e. \<exists>u. irq_stub K e n (deliver None t) = Some u \<and> (\<exists>j. sched_at (rotate j l) u) \<and>
       cpu u = own_states es ctx (current_process (scheduler u)))"
proof -
  have here: "sched_at l' u \<and> cpu u = c (current_process (scheduler u)) \<and> (\<forall>p\<in>set (ready_queue u). suspended u p (c p))"
    if ok: "contexts_ok K l' c u" for l' c u
  proof -
    have "ready_queue u = tl l'" using ok by (intro queue_wf_ready) (simp add: contexts_ok_def sched_at_def)
    then show ?thesis using ok by (simp add: contexts_ok_def sched_at_def)
  qed
  obtain k where k: "contexts_ok K (rotate k l) (own_states es ctx) t" using mach_run_ok [OF assms(2,1)] by blast
  have "\<exists>u. irq_stub K e n (deliver None t) = Some u \<and> (\<exists>j. sched_at (rotate j l) u) \<and>
       cpu u = own_states es ctx (current_process (scheduler u))" for n e
    using interrupt_returns [OF k, of e n] here by (metis rotate_rotate)
  then show ?thesis using here [OF k] by blast
qed

definition demo_states :: "u64 \<Rightarrow> cpu_state" where
  "demo_states = (\<lambda>_. demo_cpu)(0x200 := fresh_cpu 0x102000 0x32000)"

lemma holds_fresh:
  assumes "frame_at m sp stack_top entry"
  shows "holds_frame m sp (fresh_cpu entry stack_top)"
proof -
  have z: "load64 m (sp + 8 * word_of_nat k) = 0" if "k < 17" for k using assms that unfolding frame_at_def by blast
  have "gpr (fresh_cpu entry stack_top) (restored_regs ! k) = 0" if "k < 15" for k
  proof -
    have "restored_regs ! k \<noteq> RSP" using saved_restored(3,6) that nth_mem [of k restored_regs] by metis
    then show ?thesis by (simp add: fresh_cpu_def)
  qed
  moreover have trap: "load64 m (sp + 136) = entry" "load64 m (sp + 144) = 0x08" "load64 m (sp + 152) = 0x202"
    "load64 m (sp + 160) = stack_top" "load64 m (sp + 168) = 0x10"
    using assms unfolding frame_at_def by blast+
  have "load64 m (sp + 136 + 8 * word_of_nat k) = rev (trap_words (fresh_cpu entry stack_top)) ! k" if "k < 5" for k
  proof -
    consider "k = 0" | "k = 1" | "k = 2" | "k = 3" | "k = 4" using \<open>k < 5\<close> by linarith
    then show ?thesis by cases (simp_all add: trap trap_words_def fresh_cpu_def add.assoc)
  qed
  ultimately show ?thesis using z by (simp add: holds_frame_def)
qed

lemma demo_contexts: "contexts_ok 64 [0x100, 0x200] demo_states demo_core"
proof -
  have "sched_at [0x100, 0x200] demo_core"
    by (simp add: demo_last_tick_def sched_at_def queue_wf_def)
  moreover have "holds_frame (mem8 demo_core) (0x32000 - 176) (fresh_cpu 0x102000 0x32000)"
    using holds_fresh [OF initial_frame_at [of "0x32000" "0x102000" "\<lambda>_. 0"]]
      push_words(1) [of "initial_frame 0x32000 0x102000" "0x32000" "\<lambda>_. 0"] by simp
  moreover have "kstack demo_core 0x100 \<inter> kstack demo_core 0x200 = {}"
    by (simp add: kstack_def stack_bytes_apart demo_last_tick_def)
  ultimately show ?thesis
    by (simp add: contexts_ok_def Int_commute suspended_def demo_states_def stack_room_def frame_base_def demo_cpu_def fresh_cpu_def)
qed

lemma demo_tick:
  "\<exists>t. irq_stub 64 demo_effect 0 (deliver None demo_core) = Some t \<and> contexts_ok 64 [0x200, 0x100] demo_states t"
  using timer_interrupt [OF demo_contexts, of demo_effect] by (auto simp: demo_last_tick_def)

theorem processes_keep_state_witness:
  "\<exists>t u. mach_run 64 [Irq 0 demo_effect] demo_core t \<and> current_process (scheduler t) = 0x200 \<and>
     cpu t = fresh_cpu 0x102000 0x32000 \<and> suspended t 0x100 demo_cpu \<and>
     irq_stub 64 demo_effect 12 (deliver None t) = Some u \<and> cpu u = demo_states (current_process (scheduler u))"
proof -
  obtain t where t: "irq_stub 64 demo_effect 0 (deliver None demo_core) = Some t"
    "contexts_ok 64 [0x200, 0x100] demo_states t" using demo_tick by blast
  have run: "mach_run 64 [Irq 0 demo_effect] demo_core t"
    using t(1) by (simp add: mach_run_simps mach_step_simps demo_cpu_def fresh_cpu_def IF_def)
  have q: "current_process (scheduler t) = 0x200" "ready_queue t = [0x100]"
    using t(2) queue_wf_ready [of "[0x100]" t] by (simp_all add: contexts_ok_def sched_at_def)
  note keep = processes_keep_state [OF demo_contexts run, unfolded q]
  have "own_states [Irq 0 demo_effect] demo_states = demo_states" by (simp add: own_states_def)
  with keep obtain u where u: "cpu t = demo_states 0x200" "suspended t 0x100 (demo_states 0x100)"
    "irq_stub 64 demo_effect 12 (deliver None t) = Some u" "cpu u = demo_states (current_process (scheduler u))"
    by (metis list.set_intros(1))
  have "cpu t = fresh_cpu 0x102000 0x32000" "suspended t 0x100 demo_cpu"
    using u(1,2) by (simp_all add: demo_states_def)
  with run q(1) u(3,4) show ?thesis by blast
qed

text \<open>
  Property C36. The two ways of switching do not mix: a process that the timer has preempted and that
  is then chosen by the cooperative switch is not continued. Its state is in the frame on its stack,
  which the switch does not read; the switch enters it at the instruction pointer in its control
  block, which preemption does not write and which is still its entry point if it never yielded, on
  a stack pointer that points to the frame.
\<close>

theorem yield_restarts_preempted:
  fixes s v :: core
  assumes "contexts_ok K (x # y # ys) ctx s" and "p_time_slice_remaining (proc s x) = 1"
    and "irq_stub K e 0 (deliver None s) = Some t"
    and "o' \<noteq> x" and "p_registers (proc v x) = p_registers (proc t x)"
  shows "suspended t x (ctx x) \<and> ip (cpu (call_context_switch c ra o' x v)) = rip (p_registers (proc s x)) \<and>
    gpr (cpu (call_context_switch c ra o' x v)) RSP = rsp (p_registers (proc t x))"
proof -
  have t: "contexts_ok K (y # ys @ [x]) ctx t" "rip (p_registers (proc t x)) = rip (p_registers (proc s x))"
    using timer_interrupt [OF assms(1), of e] assms(2,3) by auto
  have "cpu (call_context_switch c ra o' x v) = loaded (p_registers (proc v x)) c"
    using call_context_switch_spec [OF assms(4), of c ra v] by auto
  then show ?thesis using t assms(5) by (simp add: loaded_def contexts_ok_def)
qed

theorem yield_restarts_preempted_witness:
  "\<exists>t. irq_stub 64 demo_effect 0 (deliver None demo_core) = Some t \<and> suspended t 0x100 demo_cpu \<and>
     ip demo_cpu = 0x101000 \<and> ip (cpu (call_context_switch demo_cpu 0x103000 0x200 0x100 t)) = 0"
proof -
  obtain t where t: "irq_stub 64 demo_effect 0 (deliver None demo_core) = Some t" using demo_tick by blast
  have slice: "p_time_slice_remaining (proc demo_core 0x100) = 1" by (simp add: demo_last_tick_def)
  have "(0x200 :: u64) \<noteq> 0x100" by simp
  from yield_restarts_preempted [OF demo_contexts slice t this refl, of demo_cpu "0x103000"] t
  show ?thesis
    by (intro exI [of _ t])
      (simp add: demo_states_def demo_cpu_def fresh_cpu_def demo_last_tick_def zero_process_def zero_regs_def)
qed

end
