(* ===== verification/Boot.thy ===== *)
theory Boot
  imports Multitasking
begin

text \<open>
  From the memory map to a heap: the frames that \<open>pmm_init\<close> leaves free, the heap that
  \<open>kheap_init\<close> takes from them, and the creation of the first processes.
\<close>

subsection \<open>Frames and heap\<close>

text \<open>The frames of available regions that hold neither the kernel image nor the bitmap.\<close>

definition usable_pfns :: "(u64 \<Rightarrow> u8) \<Rightarrow> u64 \<Rightarrow> u64 list \<Rightarrow> u64 set" where
  "usable_pfns m kernel_end es =
     {n. n < init_pages m es \<and> \<not> reserved_pfn kernel_end (init_pages m es) n \<and> (\<exists>e\<in>set es. in_region m e n)}"

lemma pmm_init_pool:
  fixes s :: "'a pmm_scheme"
  assumes map: "memory_map_ok (mem8 s) (mmap_tag s) kernel_end es"
  shows "\<exists>t. pmm_init kernel_end s = Some t \<and> pmm_ok t \<and> bitmap_apart t \<and> unat (total_pages t) < 2 ^ 52 \<and>
    free_pfns t = usable_pfns (mem8 s) kernel_end es \<and> pmm.more t = pmm.more s"
proof -
  let ?p = "init_pages (mem8 s) es"
  obtain t where t: "pmm_init kernel_end s = Some t" "pmm_ok t" "total_pages t = ?p" "bitmap t = kernel_end"
    "\<forall>n<?p. bitmap_test n t \<longleftrightarrow> reserved_pfn kernel_end ?p n \<or> (\<forall>e\<in>set es. \<not> in_region (mem8 s) e n)"
    "pmm.more t = pmm.more s"
    using pmm_init_spec [OF map] by blast
  have free: "free_pfns t = usable_pfns (mem8 s) kernel_end es"
    using t(3,5) by (auto simp: free_pfns_def usable_pfns_def)
  have small: "unat ?p \<le> 2 ^ 52 - 1" by (rule init_pages_bound)
  have ke: "0x100000 \<le> unat kernel_end" "unat kernel_end < 2 ^ 63" using map by (simp_all add: memory_map_ok_def)
  have reserved: "reserved_pfn kernel_end ?p n" if r: "n < ?p" "x \<in> bitmap_cells t" "x \<in> page_bytes (page_of n)" for n x
  proof -
    obtain m where m: "x = kernel_end + m div 8" "m < ?p"
      using r(2) by (auto simp: bitmap_cells_def bitmap_cell_def t)
    have b: "unat (m div 8) < unat (bitmap_bytes ?p)"
      using bitmap_cell_below [OF small m(2)] by (simp add: word_less_nat_alt)
    have "unat (bitmap_bytes ?p) \<le> 2 ^ 50" using small by (simp add: unat_bitmap_bytes)
    then have "unat x = unat kernel_end + unat (m div 8)"
      using b ke(2) unfolding m(1) by (intro unat_add_exact) simp
    moreover have "unat x div 4096 = unat n"
      using r(3) page_addr_unat [of n] pmm_ok_pfn [OF t(2)] r(1) t(3) by (simp add: page_bytes_def page_of_def)
    ultimately show ?thesis using b ke(1) by (simp add: reserved_pfn_def) linarith
  qed
  have "bitmap_apart t"
    using reserved by (fastforce simp: bitmap_apart_def free_pages_def free usable_pfns_def)
  then show ?thesis using t free small by (intro exI [of _ t]) simp
qed

lemma boot_heap:
  fixes s :: "'a kheap_scheme"
  assumes map: "memory_map_ok (mem8 s) (mmap_tag s) kernel_end es"
    and frames: "usable_pfns (mem8 s) kernel_end es = {n. lo \<le> n \<and> n < hi}" "0 < lo"
    and fresh: "heap_start s = 0" "total_heap_size s = 0"
  shows "\<exists>t u. pmm_init kernel_end s = Some t \<and> kheap_init t = Some u \<and> heap_ok u \<and> heap_solo u \<and>
    heap_live u = Map.empty \<and> unat hi - unat lo \<le> card (free_pfns u) + 4"
proof -
  obtain t where t: "pmm_init kernel_end s = Some t" "pmm_ok t" "bitmap_apart t" "unat (total_pages t) < 2 ^ 52"
    "free_pfns t = {n. lo \<le> n \<and> n < hi}" "pmm.more t = pmm.more s"
    using pmm_init_pool [OF map] unfolding frames(1) by blast
  have start: "heap_start t = 0" "total_heap_size t = 0"
    using fresh t(6) by (cases s, cases t, simp)+
  have inv: "heap_inv [] t" using t(2-4) start by (simp add: heap_inv_def heap_apart_def bytes_at_def)
  have solo: "heap_solo t" unfolding heap_solo_def t(5) using frames(2) start by (intro exI [of _ lo] exI [of _ hi]) simp
  let ?p = "KHEAP_PRINT (line ''[KHEAP] Initializing kernel heap...'') t"
  have "heap_solo ?p" "pmm_ok ?p" using solo t(2) heap_solo_cong [of ?p t] pool_cong(1,4) [of ?p t] by simp_all
  then have "grows_in_place HEAP_EXPAND_SIZE ?p"
    by (rule heap_solo_grows) (simp add: HEAP_EXPAND_SIZE_def)
  from kheap_init_spec [OF inv this] solo obtain u where
    u: "kheap_init t = Some u" "heap_ok u" "heap_live u = Map.empty" "heap_solo u"
      "card (free_pfns t) \<le> card (free_pfns u) + 4" by blast
  have "unat hi - unat lo = card (free_pfns t)"
    using card_from_below [of "unat lo" hi] by (simp add: t(5) word_le_nat_alt)
  then show ?thesis using t(1) u by (intro exI [of _ t] exI [of _ u]) simp
qed

subsection \<open>The first processes\<close>

text \<open>Several calls of \<open>process_create\<close>, as a boot sequence makes them.\<close>

primrec create_all ::
  "(string option \<times> u64 \<times> u32) list \<Rightarrow> 'a sched_scheme \<Rightarrow> (u64 list \<times> 'a sched_scheme) option" where
  "create_all [] s = Some ([], s)"
| "create_all (c # cs) s =
     (case process_create (fst c) (fst (snd c)) (snd (snd c)) s of None \<Rightarrow> None
      | Some (p, t) \<Rightarrow> (case create_all cs t of None \<Rightarrow> None | Some (ps, u) \<Rightarrow> Some (p # ps, u)))"

definition full_slice :: "'a sched_scheme \<Rightarrow> u64 \<Rightarrow> bool" where
  "full_slice s p \<longleftrightarrow> p_time_slice_remaining (proc s p) = 20 \<and> p_total_ticks (proc s p) = 0"

text \<open>
  A process that was created for the call \<open>c\<close> and has not run: its stack holds the frame that enters
  its function with interrupts on, all registers 0 and the whole stack.
\<close>

definition first_state :: "'a sched_scheme \<Rightarrow> string option \<times> u64 \<times> u32 \<Rightarrow> u64 \<Rightarrow> bool" where
  "first_state s c p \<longleftrightarrow> full_slice s p \<and> rip (p_registers (proc s p)) = fst (snd c) \<and>
     rsp (p_registers (proc s p)) = p_kernel_stack (proc s p) + 8016 \<and>
     suspended s p (fresh_cpu (fst (snd c)) (p_kernel_stack (proc s p) + 8192))"

lemma live_stack:
  assumes "heap_ok s" and "heap_live s ks = Some k" and "8192 \<le> k"
  shows "stack_bytes ks \<subseteq> bytes_at ks 8192" "stack_bytes ks \<subseteq> bytes_at ks (unat k)"
proof -
  have "unat ks + unat k \<le> unat (heap_start s) + extent (heap_blocks s)"
    by (rule live_bounds(2)) (use assms(1,2) in \<open>simp_all add: heap_live_def heap_ok_def heap_inv_def\<close>)
  moreover have "unat (heap_start s) + extent (heap_blocks s) < 2 ^ 64"
    using assms(1) by (simp add: heap_ok_def heap_inv_def)
  moreover have k: "8192 \<le> unat k" using assms(3) by (simp add: word_le_nat_alt)
  ultimately have fit: "unat ks + 8192 \<le> 2 ^ 64" by simp
  show "stack_bytes ks \<subseteq> bytes_at ks 8192"
  proof
    fix a assume "a \<in> stack_bytes ks"
    then have "unat (a - ks) < 8192" by (simp add: stack_bytes_def)
    from bytes_atI [OF fit this] show "a \<in> bytes_at ks 8192" by simp
  qed
  also have "\<dots> \<subseteq> bytes_at ks (unat k)" by (rule bytes_at_mono [OF k])
  finally show "stack_bytes ks \<subseteq> bytes_at ks (unat k)" .
qed

lemma owned_stacks:
  assumes "sys_inv l s"
  shows "p \<in> set l \<Longrightarrow> \<exists>k\<ge>8192. heap_live s (p_kernel_stack (proc s p)) = Some k"
    "p \<in> set l \<Longrightarrow> q \<in> set l \<Longrightarrow> p \<noteq> q \<Longrightarrow> kstack s p \<inter> kstack s q = {}"
proof -
  have own: "heap_ok s" "blocks_owned l s" using assms by (simp_all add: sys_inv_def)
  show live: "\<exists>k\<ge>8192. heap_live s (p_kernel_stack (proc s p)) = Some k" if "p \<in> set l" for p
    using own(2) that by (auto simp: blocks_owned_def live_block_def)
  have "kstack s p \<subseteq> proc_memory s p" if "p \<in> set l" for p
    using live [OF that] live_stack(1) [OF own(1)] by (auto simp: kstack_def proc_memory_def)
  then show "kstack s p \<inter> kstack s q = {}" if "p \<in> set l" "q \<in> set l" "p \<noteq> q"
    using owned_memory_apart [OF own that] that(1,2) by blast
qed

text \<open>Creating a process leaves those created before it as they are.\<close>

lemma first_state_created:
  assumes inv: "sys_inv l s" and "created nm entry pr p s t" and r: "r \<in> set l" "r \<noteq> p"
    and "first_state s c r"
  shows "first_state t c r"
proof -
  note cr = assms(2) [unfolded created_def Let_def]
  have "unlinked (proc t r) = unlinked (proc s r)" using cr r(2) by blast
  note same = unlinked_fields [OF this]
  obtain B where B: "heap_grows B s t" using cr by blast
  obtain k where k: "8192 \<le> k" "heap_live s (p_kernel_stack (proc s r)) = Some k"
    using owned_stacks(1) [OF inv r(1)] by blast
  have "heap_ok s" using inv by (simp add: sys_inv_def)
  then have mem: "mem8 t a = mem8 s a" if "a \<in> kstack s r" for a
    using live_stack(2) [OF _ k(2,1)] B k(2) that by (auto simp: heap_grows_def kstack_def)
  show ?thesis using assms(5) suspended_cong [where s = s and t = t and p = r, OF mem] same
    by (simp add: first_state_def full_slice_def)
qed

lemma first_state_new:
  assumes "created nm entry pr p s t"
  shows "first_state t (nm, entry, pr) p"
proof -
  note cr = assms [unfolded created_def Let_def]
  have new: "new_process nm entry pr p s (proc t p)"
    "frame_at (mem8 t) (rsp (p_registers (proc t p))) (p_kernel_stack_top (proc t p)) entry" using cr by blast+
  then show ?thesis
    using holds_fresh [OF new(2)] by (simp add: first_state_def full_slice_def new_process_def suspended_def)
qed

lemma create_all_spec:
  fixes s :: "'a sched_scheme"
  assumes "sys_inv l s" and "current_process (scheduler s) = 0" and "list_all2 (first_state s) ds l"
    and "room_for (length cs) s" and "length l + length cs \<le> 256"
  shows "\<exists>ps t. create_all cs s = Some (ps, t) \<and> length ps = length cs \<and> sys_inv (l @ ps) t \<and>
    current_process (scheduler t) = 0 \<and> list_all2 (first_state t) (ds @ cs) (l @ ps)"
  using assms
proof (induction cs arbitrary: ds l s)
  case Nil
  then show ?case by simp
next
  case (Cons c cs)
  have "unat (process_count (scheduler s)) < 256" using Cons.prems(1,5) by (simp add: sys_inv_def)
  then have count: "process_count (scheduler s) < MAX_PROCESSES" by (simp add: MAX_PROCESSES_def word_less_nat_alt)
  have room: "room_for (Suc (length cs)) s" using Cons.prems(4) by simp
  obtain p t where p: "process_create (fst c) (fst (snd c)) (snd (snd c)) s = Some (p, t)" "p \<noteq> 0"
    "sys_inv (l @ [p]) t" "created (fst c) (fst (snd c)) (snd (snd c)) p s t"
    "room_for (length cs) t"
    using process_create_full [OF Cons.prems(1), where nm = "fst c" and entry = "fst (snd c)" and pr = "snd (snd c)" and m = "length cs"]
      count room by auto
  note c = p(4) [unfolded created_def Let_def]
  have "distinct (l @ [p])"
    using p(3) by (auto simp: sys_inv_def sched_state_def sched_at_def queue_wf_def split: if_splits)
  then have "first_state t d r" if "first_state s d r" "r \<in> set l" for d r
    using first_state_created [OF Cons.prems(1) p(4) that(2) _ that(1)] that(2) by auto
  then have "list_all2 (first_state t) ds l" using Cons.prems(3) by (auto intro: list.rel_mono_strong)
  moreover have "first_state t c p" using first_state_new [OF p(4)] by simp
  ultimately have fs: "list_all2 (first_state t) (ds @ [c]) (l @ [p])" by (simp add: list_all2_appendI)
  have ct: "current_process (scheduler t) = 0" using c Cons.prems(2) by simp
  have "length (l @ [p]) + length cs \<le> 256" using Cons.prems(5) by simp
  from Cons.IH [OF p(3) ct fs p(5) this] obtain ps u where
    "create_all cs t = Some (ps, u)" "length ps = length cs" "sys_inv ((l @ [p]) @ ps) u"
    "current_process (scheduler u) = 0" "list_all2 (first_state u) ((ds @ [c]) @ cs) ((l @ [p]) @ ps)" by blast
  then show ?case using p(1) by (intro exI [of _ "p # ps"] exI [of _ u]) simp
qed

lemma scheduler_init_spec:
  fixes s :: "'a sched_scheme"
  assumes "heap_ok s" and "heap_solo s"
  shows "sys_inv [] (scheduler_init s)" "current_process (scheduler (scheduler_init s)) = 0"
    "heap_blocks (scheduler_init s) = heap_blocks s" "free_pfns (scheduler_init s) = free_pfns s"
proof -
  have e: "heap_eq s (scheduler_init s)"
    unfolding scheduler_init_def Let_def
    by (intro heap_eq_trans [OF _ heap_eq_steps(3)] heap_eq_steps(2))
  note same = heap_eq_same [OF e]
  have sc: "scheduler (scheduler_init s) = (scheduler s)\<lparr>ready_queue_head := 0, ready_queue_tail := 0,
      current_process := 0, next_pid := 1, process_count := 0, total_ticks := 0\<rparr>"
    by (simp add: scheduler_init_def)
  show "sys_inv [] (scheduler_init s)"
    using assms same by (simp add: sys_inv_def sched_state_def queue_wf_def blocks_owned_def sc)
  show "current_process (scheduler (scheduler_init s)) = 0" by (simp add: sc)
  show "heap_blocks (scheduler_init s) = heap_blocks s" by (rule same(5))
  show "free_pfns (scheduler_init s) = free_pfns s" by (rule same(6))
qed

text \<open>
  From any well-formed heap with room for them: the processes are created, the queue is in the order
  of creation, and the first is started. \<open>t\<close> is the state in which \<open>scheduler_start\<close> is called, \<open>u\<close> the
  one in which it switches.
\<close>

definition started :: "(string option \<times> u64 \<times> u32) list \<Rightarrow> u64 list \<Rightarrow> 'a sched_scheme \<Rightarrow> 'a sched_scheme \<Rightarrow> bool" where
  "started cs ps t u \<longleftrightarrow> length ps = length cs \<and> distinct ps \<and> ps \<noteq> [] \<and> 0 \<notin> set ps \<and> ready_queue t = ps \<and>
     sys_inv ps t \<and> list_all2 (first_state t) cs ps \<and>
     (\<forall>switch. scheduler_start switch t = vga_print (line '''') VGA_COLOR_WHITE
        (vga_print ''[ERR] Context switch returned!'' VGA_COLOR_LIGHT_RED (switch 0 (hd ps) u))) \<and>
     sched_at ps u \<and> keeps t u \<and> mem8 u = mem8 t \<and>
     (\<forall>z. p_time_slice_remaining (proc u z) = p_time_slice_remaining (proc t z)) \<and>
     (\<forall>z. p_total_ticks (proc u z) = p_total_ticks (proc t z)) \<and>
     (\<forall>z. p_registers (proc u z) = p_registers (proc t z))"

lemma start_processes:
  fixes s :: "'a sched_scheme"
  assumes "heap_ok s" and "heap_solo s" and "room_for (length cs) s" and "cs \<noteq> []" and "length cs \<le> 256"
  shows "\<exists>ps t u. create_all cs (scheduler_init s) = Some (ps, t) \<and> started cs ps t u"
proof -
  note init = scheduler_init_spec [OF assms(1,2)]
  have k: "room_for (length cs) (scheduler_init s)" using assms(3) init(3,4) by (simp add: room_for_def)
  have none: "list_all2 (first_state (scheduler_init s)) [] []" by simp
  obtain ps t where t: "create_all cs (scheduler_init s) = Some (ps, t)" "length ps = length cs"
    "sys_inv ps t" "current_process (scheduler t) = 0" "list_all2 (first_state t) cs ps"
    using create_all_spec [OF init(1,2) none k] assms(5) by auto
  obtain x xs where ps: "ps = x # xs" using t(2) assms(4) by (cases ps) auto
  have q: "queue_wf (x # xs) t" "\<forall>p\<in>set (x # xs). p_state (proc t p) = PROCESS_READY"
    using t(3,4) ps by (simp_all add: sys_inv_def sched_state_def)
  have d: "distinct ps" "0 \<notin> set ps" "ready_queue t = ps"
    using q(1) ps dll_nonzero [of "proc t" 0 "x # xs"] queue_wf_ready [OF q(1)] by (simp_all add: queue_wf_def)
  from scheduler_start_spec [OF q] obtain u where u: "\<forall>switch. scheduler_start switch t = vga_print (line '''') VGA_COLOR_WHITE
        (vga_print ''[ERR] Context switch returned!'' VGA_COLOR_LIGHT_RED (switch 0 x u))"
    "sched_at (x # xs) u" "keeps t u" "mem8 u = mem8 t"
    "\<forall>z. p_time_slice_remaining (proc u z) = p_time_slice_remaining (proc t z)"
    "\<forall>z. p_total_ticks (proc u z) = p_total_ticks (proc t z)" "\<forall>z. p_registers (proc u z) = p_registers (proc t z)"
    by blast
  have "started cs ps t u" unfolding started_def using t(2,3,5) d u by (simp add: ps)
  then show ?thesis using t(1) by blast
qed

text \<open>From there on they take turns.\<close>

lemma take_turns:
  assumes "started cs ps t u" and sps: "length sps = n * (20 * length ps)"
  shows "\<exists>v. run_ticks sps u = Some v \<and> current_process (scheduler v) = hd ps \<and> ready_queue v = tl ps \<and>
        (\<forall>p\<in>set ps. p_total_ticks (proc v p) = 20 * word_of_nat n)"
proof -
  have st: "list_all2 (first_state t) cs ps" "sched_at ps u" "ps \<noteq> []"
    "\<And>z. p_time_slice_remaining (proc u z) = p_time_slice_remaining (proc t z)"
    "\<And>z. p_total_ticks (proc u z) = p_total_ticks (proc t z)"
    using assms(1) by (simp_all add: started_def)
  have slices: "full_slice t p" if "p \<in> set ps" for p
    using st(1) that by (auto simp: list_all2_conv_all_nth in_set_conv_nth first_state_def)
  have "p_time_slice_remaining (proc u (hd ps)) = 20"
    using st(4) slices [OF hd_in_set [OF st(3)]] by (simp add: full_slice_def)
  from rounds [OF st(2) this sps] obtain v where
    v: "run_ticks sps u = Some v" "sched_at ps v"
    "\<forall>z. p_total_ticks (proc v z) = p_total_ticks (proc u z) + (if z \<in> set ps then 20 * word_of_nat n else 0)" by blast
  have "p_total_ticks (proc v p) = 20 * word_of_nat n" if "p \<in> set ps" for p
    using v(3) st(5) slices [OF that] that by (simp add: full_slice_def)
  moreover have "current_process (scheduler v) = hd ps" "ready_queue v = tl ps"
    using v(2) by (simp_all add: sched_at_def queue_wf_ready)
  ultimately show ?thesis using v(1) by blast
qed

subsection \<open>The first process enters its function\<close>

lemma align_below: "\<exists>e. x AND NOT 15 = x - e \<and> unat e \<le> 15" for x :: u64
proof -
  have "(x AND NOT 15) + (x AND 15) = (x AND NOT 15) OR (x AND 15)"
    by (rule disjunctive_add) (auto simp: bit_simps)
  also have "\<dots> = x" by (rule bit_word_eqI) (auto simp: bit_simps)
  finally have "x AND NOT 15 = x - (x AND 15)" by (metis add_diff_cancel_right')
  moreover have "unat (x AND 15) \<le> 15"
    using word_and_le1 [of x 15] by (simp add: word_le_nat_alt)
  ultimately show ?thesis by blast
qed

lemma stack_room_top:
  assumes "gpr c RSP = ks + word_of_nat n" and "191 + K \<le> n" and "n \<le> 8192"
  shows "stack_room K ks c"
proof -
  obtain e where e: "gpr c RSP AND NOT 15 = gpr c RSP - e" "unat e \<le> 15" using align_below by blast
  have n: "unat (word_of_nat n :: u64) = n" by (rule unat_small) (use assms(3) in simp)
  have "frame_base c - ks = word_of_nat n - e" by (simp only: frame_base_def e(1)) (simp add: assms(1))
  moreover have "unat (word_of_nat n - e) = n - unat e"
    using e(2) assms(2) n by (subst unat_sub_exact) (simp_all add: word_le_nat_alt)
  ultimately show ?thesis unfolding stack_room_def using e(2) assms(2,3) by (simp only:) linarith
qed

text \<open>
  The processor states with which the processes begin: the first is loaded from its control block,
  the others enter their functions on empty stacks.
\<close>

definition first_states :: "cpu_state \<Rightarrow> u64 list \<Rightarrow> core \<Rightarrow> u64 \<Rightarrow> cpu_state" where
  "first_states c ps t = (\<lambda>p. fresh_cpu (rip (p_registers (proc t p))) (p_kernel_stack (proc t p) + 8192))
     (hd ps := loaded (p_registers (proc t (hd ps))) c)"

lemma started_created:
  assumes "started cs ps t u" and p: "p \<in> set ps"
  shows "\<exists>d. first_state t d p"
proof -
  obtain i where "i < length ps" "p = ps ! i" using p unfolding in_set_conv_nth by blast
  moreover have "list_all2 (first_state t) cs ps" using assms(1) by (simp add: started_def)
  ultimately show ?thesis using list_all2_nthD2 by blast
qed

text \<open>The first switch reads the control block of its process and writes to no stack of another.\<close>

lemma first_switch:
  fixes t u :: core and ra :: u64
  assumes st: "started cs (x # xs) t u"
    and boot_stack: "\<forall>p\<in>set (x # xs). \<forall>j<8. gpr c RSP - 8 + word_of_nat j \<notin> kstack t p"
  defines "v \<equiv> call_context_switch c ra 0 x u"
  shows "proc v = proc u" "scheduler v = scheduler u" "cpu v = loaded (p_registers (proc t x)) c"
    "\<And>p a. p \<in> set xs \<Longrightarrow> a \<in> kstack t p \<Longrightarrow> mem8 v a = mem8 t a"
proof -
  have d: "distinct (x # xs)" "x \<noteq> 0" and inv: "sys_inv (x # xs) t" and m: "mem8 u = mem8 t"
    and regs: "\<And>z. p_registers (proc u z) = p_registers (proc t z)"
    using st by (auto simp: started_def)
  have sp: "rsp (p_registers (proc t x)) = p_kernel_stack (proc t x) + 8016"
    using started_created [OF st, of x] by (auto simp: first_state_def)
  obtain m' where m': "m' = store64 (rsp (p_registers (proc t x)) - 8) (rip (p_registers (proc t x)))
      (store64 (gpr c RSP - 8) ra (mem8 t))" by simp
  have "\<exists>b. v = u\<lparr>proc := (if (0 :: u64) = 0 then proc u else (proc u)(0 := b)),
      mem8 := store64 (rsp (p_registers (proc u x)) - 8) (rip (p_registers (proc u x)))
        (store64 (gpr c RSP - 8) ra (mem8 u)), cpu := loaded (p_registers (proc u x)) c\<rparr>"
    unfolding v_def using call_context_switch_spec [of 0 x c ra u] d(2) by blast
  then have v: "proc v = proc u" "scheduler v = scheduler u" "mem8 v = m'" "cpu v = loaded (p_registers (proc t x)) c"
    by (auto simp: m m' regs)
  then show "proc v = proc u" "scheduler v = scheduler u" "cpu v = loaded (p_registers (proc t x)) c" by blast+
  show "mem8 v a = mem8 t a" if p: "p \<in> set xs" and a: "a \<in> kstack t p" for p a
  proof -
    have px: "p \<in> set (x # xs)" "x \<in> set (x # xs)" "p \<noteq> x" using p d by auto
    have "\<not> unat (a - (gpr c RSP - 8)) < 8"
    proof
      assume "unat (a - (gpr c RSP - 8)) < 8"
      with boot_stack px(1) have "gpr c RSP - 8 + word_of_nat (unat (a - (gpr c RSP - 8))) \<notin> kstack t p" by blast
      with a show False by simp
    qed
    moreover have "\<not> unat (a - (rsp (p_registers (proc t x)) - 8)) < 8"
    proof
      assume *: "unat (a - (rsp (p_registers (proc t x)) - 8)) < 8"
      have "unat (rsp (p_registers (proc t x)) - 8 - p_kernel_stack (proc t x)) + 8 \<le> 8192" by (simp add: sp)
      from stack_part [OF this *] have "a \<in> kstack t x" by (simp add: kstack_def)
      then show False using owned_stacks(2) [OF inv px] a by blast
    qed
    ultimately show ?thesis by (simp add: v(3) m' store64_byte)
  qed
qed

lemma start_contexts:
  fixes t u :: core
  assumes st: "started cs ps t u" and K: "K \<le> 7800"
    and boot_stack: "\<And>p j. p \<in> set ps \<Longrightarrow> j < 8 \<Longrightarrow> gpr c RSP - 8 + word_of_nat j \<notin> kstack t p"
  shows "contexts_ok K ps (first_states c ps t) (call_context_switch c ra 0 (hd ps) u)"
proof -
  obtain x xs where ps: "ps = x # xs" using st by (cases ps) (auto simp: started_def)
  have d: "distinct (x # xs)" and inv: "sys_inv ps t" and at: "sched_at ps u" and kp: "keeps t u"
    and regs: "\<And>z. p_registers (proc u z) = p_registers (proc t z)"
    using st ps by (auto simp: started_def)
  note fs = started_created [OF st]
  have ks: "p_kernel_stack (proc u z) = p_kernel_stack (proc t z)" for z using kp by (simp add: keeps_def)
  define v where "v = call_context_switch c ra 0 x u"
  have "\<forall>p\<in>set (x # xs). \<forall>j<8. gpr c RSP - 8 + word_of_nat j \<notin> kstack t p" using boot_stack ps by blast
  note v = first_switch [OF st [unfolded ps] this, where ra = ra, folded v_def]
  have "contexts_ok K ps (first_states c ps t) v"
    unfolding contexts_ok_def
  proof (intro conjI ballI impI)
    show "sched_at ps v" using at sched_at_cong [of v u "total_ticks (scheduler u)"] by (simp add: v)
    show "kstack v p \<inter> kstack v q = {}" if "p \<in> set ps" "q \<in> set ps" "p \<noteq> q" for p q
      using owned_stacks(2) [OF inv that] by (simp add: kstack_def v ks)
    show "cpu v = first_states c ps t (hd ps)" by (simp add: v first_states_def ps)
    show "stack_room K (p_kernel_stack (proc v p)) (first_states c ps t p)" if p: "p \<in> set ps" for p
    proof -
      obtain n where n: "gpr (first_states c ps t p) RSP = p_kernel_stack (proc t p) + word_of_nat n"
        "n = 8016 \<or> n = 8192"
      proof
        show "gpr (first_states c ps t p) RSP = p_kernel_stack (proc t p) + word_of_nat (if p = x then 8016 else 8192)"
          using fs [OF p] by (auto simp: first_states_def ps loaded_def fresh_cpu_def first_state_def)
      qed simp
      have "191 + K \<le> n" "n \<le> 8192" using n(2) K by auto
      from stack_room_top [OF n(1) this] show ?thesis by (simp add: v ks)
    qed
    show "suspended v p (first_states c ps t p)" if p: "p \<in> set (tl ps)" for p
    proof -
      have px: "p \<in> set xs" "p \<in> set ps" "p \<noteq> x" using p d(1) by (auto simp: ps)
      then have "suspended t p (first_states c ps t p)"
        using fs [OF px(2)] by (auto simp: first_states_def ps first_state_def)
      then show ?thesis by (rule suspended_cong [rotated -1]) (use v(4) [OF px(1)] in \<open>simp_all add: v regs ks\<close>)
    qed
  qed
  then show ?thesis by (simp add: v_def ps)
qed

subsection \<open>The whole way\<close>

lemma boot_started:
  fixes s :: "'a sched_scheme"
  assumes tags: "tag_chain (mem8 s) (addr + 8) ts" "\<forall>t\<in>set ts. tag_ok (mem8 s) t"
    and map: "memory_map_ok (mem8 s) (last_tag (mem8 s) MULTIBOOT_TAG_TYPE_MMAP ts (mmap_tag s)) kernel_end es"
    and frames: "usable_pfns (mem8 s) kernel_end es = {n. lo \<le> n \<and> n < hi}" "0 < lo"
    and fresh: "heap_start s = 0" "total_heap_size s = 0"
    and room: "12 * length cs + 4 \<le> unat hi - unat lo" and cs: "cs \<noteq> []" "length cs \<le> 256"
  shows "\<exists>s1 s2 s3 ps t u. multiboot2_parse MULTIBOOT2_BOOTLOADER_MAGIC addr s = Some s1 \<and>
    pmm_init kernel_end s1 = Some s2 \<and> kheap_init s2 = Some s3 \<and>
    create_all cs (scheduler_init s3) = Some (ps, t) \<and> started cs ps t u"
proof -
  obtain s1 where s1: "multiboot2_parse MULTIBOOT2_BOOTLOADER_MAGIC addr s = Some s1" "mb_frame s s1"
    "mmap_tag s1 = last_tag (mem8 s) MULTIBOOT_TAG_TYPE_MMAP ts (mmap_tag s)"
    using multiboot2_parse_tags [OF refl tags] by blast
  have e: "mem8 s1 = mem8 s" "multiboot.more s1 = multiboot.more s" using s1(2) by (simp_all add: mb_frame_def)
  then have fresh1: "heap_start s1 = 0" "total_heap_size s1 = 0" using fresh by (cases s, cases s1, simp)+
  have map1: "memory_map_ok (mem8 s1) (mmap_tag s1) kernel_end es"
    "usable_pfns (mem8 s1) kernel_end es = {n. lo \<le> n \<and> n < hi}"
    using map frames(1) s1(3) e(1) by simp_all
  from boot_heap [OF this frames(2) fresh1] obtain s2 s3 where
    s3: "pmm_init kernel_end s1 = Some s2" "kheap_init s2 = Some s3" "heap_ok s3" "heap_solo s3"
      "unat hi - unat lo \<le> card (free_pfns s3) + 4" by blast
  have "room_for (length cs) s3" using s3(5) room by (simp add: room_for_def)
  from start_processes [OF s3(3,4) this cs] show ?thesis using s1(1) s3(1,2) by blast
qed

text \<open>The lowest addresses belong to no stack.\<close>

lemma stack_not_low:
  assumes "sys_inv l s" and "p \<in> set l" and "unat a < 32"
  shows "a \<notin> kstack s p"
proof
  assume a: "a \<in> kstack s p"
  obtain k where k: "8192 \<le> k" "heap_live s (p_kernel_stack (proc s p)) = Some k"
    using owned_stacks(1) [OF assms(1,2)] by blast
  have ok: "heap_ok s" using assms(1) by (simp add: sys_inv_def)
  have "unat (heap_start s) + extent (heap_blocks s) < 2 ^ 64"
    using ok by (simp add: heap_ok_def heap_inv_def)
  from live_bounds(1) [OF k(2) [unfolded heap_live_def] this]
  have "unat (heap_start s) + 32 \<le> unat (p_kernel_stack (proc s p))" .
  moreover have "a \<in> bytes_at (p_kernel_stack (proc s p)) 8192"
    using live_stack(1) [OF ok k(2,1)] a by (auto simp: kstack_def)
  ultimately show False using assms(3) by (simp add: bytes_at_def)
qed

end
