(* ===== verification/Kheap_Limits.thy ===== *)
theory Kheap_Limits
  imports Kheap_Correct
begin

text \<open>
  What the kernel heap does not guard against: frames that do not continue it, sizes that wrap
  around, alignments, and gaps between neighbours of the list.
\<close>

subsection \<open>Pages that do not continue the heap\<close>

lemma pages_left:
  assumes "pmm_ok s" and "0 \<notin> free_pages s" and "k \<le> card (free_pfns s)"
  shows "length (fst (take_pages pmm_alloc_page k s)) = k"
proof (rule ccontr)
  let ?ps = "fst (take_pages pmm_alloc_page k s)"
  assume "length ?ps \<noteq> k"
  then have less: "length ?ps < k" using pool.take_pages_length [of k s] by simp
  from pool.take_pages_short [OF assms(1,2) this] have "free_pages s - set ?ps - {0} = {}"
    using pool.take_pages_avail [OF assms(1), of k] by simp
  then have "card (free_pages s) \<le> card (set ?ps)" using assms(2) by (intro card_mono) auto
  also have "\<dots> < k" using card_length [of ?ps] less by simp
  also have "card (free_pages s) = card (free_pfns s)"
    unfolding free_pages_def using page_of_inj [OF assms(1)]
    by (intro card_image inj_on_subset [OF page_of_inj [OF assms(1)]]) (auto simp: free_pfns_def)
  finally show False using assms(3) by simp
qed

text \<open>The lowest free frame is the first to go, and the frames after it are below the limit.\<close>

lemma lowest_frame:
  fixes s :: "'a kheap_scheme"
  assumes pok: "pmm_ok s" "unat (total_pages s) < 2 ^ 52"
    and p: "p \<in> free_pfns s" "\<forall>q\<in>free_pfns s. p \<le> q" "p \<noteq> 0" and pages: "4 \<le> card (free_pfns s)"
  shows "hd (fst (take_pages pmm_alloc_page 4 s)) = page_of p" "length (fst (take_pages pmm_alloc_page 4 s)) = 4"
    "unat p + 3 < unat (total_pages s)"
proof -
  have pl: "p < total_pages s" by (rule free_pfns_less [OF p(1)])
  have pp: "page_of p \<noteq> 0" using page_of_zero [OF pok(1) pl] p(3) by simp
  have "0 \<notin> free_pages s"
  proof
    assume "0 \<in> free_pages s"
    then obtain q where q: "q \<in> free_pfns s" "page_of q = 0" by (auto simp: free_pages_def)
    then have "q = 0" using page_of_zero [OF pok(1) free_pfns_less [OF q(1)]] by simp
    then show False using p(2,3) q(1) by force
  qed
  then show "length (fst (take_pages pmm_alloc_page 4 s)) = 4" by (rule pages_left [OF pok(1) _ pages])
  have "Min (free_pfns s) = p" using p(1,2) by (intro Min_eqI) simp_all
  then have "pmm_alloc_page s = (page_of p, pmm_take p s)"
    using p(1) by (auto simp: pmm_alloc_page_spec page_of_def)
  then show "hd (fst (take_pages pmm_alloc_page 4 s)) = page_of p"
    using pp by (simp add: eval_nat_numeral)
  have "\<exists>q\<in>free_pfns s. unat p + 3 \<le> unat q"
  proof (rule ccontr)
    assume "\<not> ?thesis"
    moreover have u3: "unat (p + 3) = unat p + 3"
      using pmm_ok_pfn [OF pok(1) pl] by (subst unat_add_exact) simp_all
    ultimately have "free_pfns s \<subseteq> {q. unat p \<le> unat q \<and> q < p + 3}"
      using p(2) by (auto simp: word_le_nat_alt word_less_nat_alt)
    then have "card (free_pfns s) \<le> card {q. unat p \<le> unat q \<and> q < p + 3}" by (intro card_mono) simp_all
    then show False using pages by (simp add: card_from_below u3)
  qed
  then show "unat p + 3 < unat (total_pages s)" using free_pfns_less by (fastforce simp: word_less_nat_alt)
qed

text \<open>Whatever the pages are, the first allocation of up to four pages is answered from the first of them.\<close>

lemma first_kmalloc:
  fixes s :: "'a kheap_scheme"
  assumes inv: "heap_inv [] s" and len: "length (fst (take_pages pmm_alloc_page 4 s)) = 4"
    and q: "hd (fst (take_pages pmm_alloc_page 4 s)) = q" "q \<noteq> 0" and n: "n \<noteq> 0" "unat n \<le> 16352"
  shows "\<exists>t. kmalloc n s = Some (q + 32, t)"
proof -
  obtain ps t where take: "take_pages pmm_alloc_page 4 s = (ps, t)" by (metis surj_pair)
  have start: "heap_start s = 0" using inv by (simp add: heap_inv_def)
  have hd: "ps \<noteq> []" "hd ps = q" "length ps = 4" using len q(1) by (auto simp: take)
  define m where "m = align_up n 8"
  have "unat m = (unat n + 7) div 8 * 8" unfolding m_def using align_up_spec [of 3 n] n by simp
  then have "unat (m + 32) \<le> 16384" using n by (subst unat_add_exact) simp_all
  then have gb: "grow_bytes (m + 32) = 16384"
    by (simp add: grow_bytes_def HEAP_EXPAND_SIZE_def word_less_nat_alt)
  have frame: "heap_start t = 0"
    using pmm_frame_kheap(2) [OF take_pages_frame [of s 4]] start by (simp add: take)
  have c: "unat (0 :: u64) \<le> unat (4 :: u64)" "(4 :: u64) = 0 + word_of_nat 4" "unat (0 :: u64) + 4 = unat (4 :: u64)"
    by simp_all
  have ex: "expand_pages 0 4 0 s = (Some q, t)"
    using expand_pages_take [OF c, of 0 s] unfolding take by (simp add: hd)
  define r where "r = t\<lparr>mem8 := new_header q (16384 - 32) (mem8 t),
      total_heap_size := total_heap_size t + 16384, heap_start := q\<rparr>"
  have "expand_heap (m + 32) s = Some (q, r)"
    using ex q(2) frame
    by (simp add: expand_heap_def Let_def grow_bytes_def [symmetric] gb BLOCK_HEADER_SIZE_def new_header_def r_def)
  moreover have "find_fit (heap_start s) m (mem8 s) = Some 0" by (simp add: start find_fit.simps)
  ultimately have "kmalloc n s = Some (take_block q m r)"
    using q(2) n(1) by (simp add: kmalloc_def m_def [symmetric] BLOCK_HEADER_SIZE_def)
  moreover have "fst (take_block q m r) = q + 32"
    by (simp add: take_block_def Let_def BLOCK_HEADER_SIZE_def)
  ultimately show ?thesis by (intro exI [of _ "snd (take_block q m r)"]) (simp add: prod_eq_iff)
qed

text \<open>
  Property C38. The first expansion takes its pages for contiguous. When the frame behind the lowest
  free one is not free (a hole in the memory map, or somebody else's page), a first allocation of
  8160 to 16352 bytes returns a pointer whose block contains all of that page, which the heap was
  never given.
\<close>

theorem kmalloc_spans_hole:
  fixes s :: "'a kheap_scheme"
  assumes ok: "heap_ok s" and empty: "heap_blocks s = []"
    and p: "p \<in> free_pfns s" "\<forall>q\<in>free_pfns s. p \<le> q" "p \<noteq> 0" "p + 1 \<notin> free_pfns s"
    and pages: "4 \<le> card (free_pfns s)" and n: "8160 \<le> unat n" "unat n \<le> 16352"
  shows "\<exists>t. kmalloc n s = Some (page_of p + 32, t) \<and> page_bytes (page_of (p + 1)) \<subseteq> bytes_at (page_of p + 32) (unat n) \<and>
    page_of (p + 1) \<notin> free_pages s"
proof -
  have inv: "heap_inv [] s" using ok empty by (simp add: heap_ok_def)
  then have pok: "pmm_ok s" "unat (total_pages s) < 2 ^ 52" by (simp_all add: heap_inv_def)
  note low = lowest_frame [OF pok p(1-3) pages]
  have pl: "p < total_pages s" by (rule free_pfns_less [OF p(1)])
  have pp: "unat (page_of p) = unat p * 4096" "page_of p \<noteq> 0"
    using page_addr_unat [of p] pmm_ok_pfn [OF pok(1) pl] page_of_zero [OF pok(1) pl] p(3) by (simp_all add: page_of_def)
  have u: "unat (p + 1) = Suc (unat p)" and p1: "p + 1 < total_pages s"
    using unat_Suc_below [OF pl] low(3) by (simp_all add: word_less_nat_alt)
  have "n \<noteq> 0" using n by auto
  then obtain t where "kmalloc n s = Some (page_of p + 32, t)"
    using first_kmalloc [OF inv low(2,1) pp(2) _ n(2)] by blast
  moreover have "unat (page_of (p + 1)) = (unat p + 1) * 4096"
    using page_addr_unat [of "p + 1"] u low(3) pok(2) by (simp add: page_of_def)
  moreover have "unat (page_of p + 32) = unat p * 4096 + 32"
    using pp(1) low(3) pok(2) by (subst unat_add_exact) simp_all
  moreover have "page_of (p + 1) \<notin> free_pages s"
    using p(4) p1 inj_onD [OF page_of_inj [OF pok(1)]] free_pfns_less by (fastforce simp: free_pages_def)
  ultimately show ?thesis using n by (auto simp: page_bytes_def bytes_at_def)
qed

text \<open>The small machine when the frame behind the first free one belongs to somebody else.\<close>

definition demo_hole :: kheap where "demo_hole = pmm_take 4 demo_heap"

lemma demo_hole_free: "free_pfns demo_hole = {n. 3 \<le> n \<and> n < 16} - {4}"
  by (simp add: demo_hole_def pmm_take_sets demo_heap_free)

lemma demo_hole_ok: "heap_ok demo_hole" "heap_blocks demo_hole = []"
proof -
  have free: "4 \<in> free_pfns demo_heap" by (simp add: demo_heap_free)
  have frame: "pmm_frame demo_heap demo_hole" unfolding demo_hole_def by (rule pmm_take_frame) simp
  have "pmm_ok demo_hole" unfolding demo_hole_def by (rule pmm_take_ok [OF demo_heap_pool(1) free])
  moreover have "bitmap_apart demo_hole"
    using demo_heap_pool(2) pmm_frame_cells [OF frame]
    by (auto simp: bitmap_apart_def free_pages_def demo_hole_free demo_heap_free)
  moreover have "heap_start demo_hole = 0" "total_heap_size demo_hole = 0" "total_pages demo_hole = 16"
    using pmm_frame_kheap [OF frame] by simp_all
  ultimately have "heap_inv [] demo_hole" by (simp add: heap_inv_def heap_apart_def bytes_at_def)
  from heap_okI [OF this] show "heap_ok demo_hole" "heap_blocks demo_hole = []" by simp_all
qed

theorem kmalloc_spans_hole_witness:
  "\<exists>t. kmalloc 8192 demo_hole = Some (0x3020, t) \<and> page_bytes 0x4000 \<subseteq> bytes_at 0x3020 8192 \<and>
     0x4000 \<notin> free_pages demo_hole"
proof -
  have "card (free_pfns demo_hole) = 12"
    unfolding demo_hole_free using card_from_below [of 3 16] by (subst card_Diff_singleton) (simp_all add: word_le_nat_alt)
  then have "4 \<le> card (free_pfns demo_hole)" by simp
  moreover have "3 \<in> free_pfns demo_hole" "3 + 1 \<notin> free_pfns demo_hole" "\<forall>q\<in>free_pfns demo_hole. 3 \<le> q"
    by (simp_all add: demo_hole_free)
  moreover have "page_of 3 + 32 = 0x3020" "page_of (3 + 1) = 0x4000" by (simp_all add: page_of_def PAGE_SIZE_def)
  moreover have "unat (8192 :: u64) = 8192" by simp
  ultimately show ?thesis using kmalloc_spans_hole [OF demo_hole_ok, of 3 8192] by simp
qed

subsection \<open>Sizes and alignments\<close>

text \<open>
  The sizes are added up without a check: a request for 32 bytes less than the whole
  address space is answered with a pointer, although the heap grew by 16 KB only.
\<close>

theorem kmalloc_size_wraps:
  assumes ok: "heap_ok s" and grow: "grows_in_place 0 s"
    and pages: "length (fst (take_pages pmm_alloc_page 4 s)) = 4"
  shows "\<exists>p t. kmalloc 0xFFFFFFFFFFFFFFE0 s = Some (p, t) \<and> p \<noteq> 0 \<and>
    unat (total_heap_size t) = unat (total_heap_size s) + 16384"
proof -
  let ?n = "0xFFFFFFFFFFFFFFE0 :: u64" and ?bs = "heap_blocks s"
  have inv: "heap_inv ?bs s" using ok by (simp add: heap_ok_def)
  have al: "align_up ?n 8 = ?n" by (simp add: align_up_def)
  have wrap: "?n + BLOCK_HEADER_SIZE = 0" by (simp add: BLOCK_HEADER_SIZE_def)
  have gb: "grow_bytes 0 = 16384" by (simp add: grow_bytes_def HEAP_EXPAND_SIZE_def)
  have ext: "unat (heap_start s) + extent ?bs < 2 ^ 64" using inv by (simp add: heap_inv_def)
  have "\<not> ?n \<le> fst b" if b: "b \<in> set ?bs" for b
  proof
    assume le: "?n \<le> fst b"
    have "32 + unat (fst b) \<le> extent ?bs"
      unfolding extent_def by (rule member_le_sum_list) (use b in simp_all)
    with ext le show False by (simp add: word_le_nat_alt)
  qed
  then have none: "bl_fit ?n ?bs = None" by (auto simp: bl_fit_None)
  have fit: "find_fit (heap_start s) ?n (mem8 s) = Some 0" using heap_fit [OF inv, of ?n] none by simp
  obtain u where u: "expand_heap 0 s = Some (addr_after (heap_start u) ?bs, u)"
    "heap_inv (?bs @ [(16352, True)]) u" "addr_after (heap_start u) ?bs \<noteq> 0"
    using expand_heap_spec [OF inv _ grow] pages by (auto simp: gb)
  let ?b = "addr_after (heap_start u) ?bs"
  have "kmalloc ?n s = Some (take_block ?b ?n u)"
    using fit u(1,3) wrap by (simp add: kmalloc_def al Let_def)
  moreover have "?b + 32 \<noteq> 0"
    using addr_after_middle(2) [of "heap_start u" ?bs 16352 True "[]"] u(2)
    by (auto simp: heap_inv_def word_unat_eq_iff)
  moreover have "unat (total_heap_size u) = unat (total_heap_size s) + 16384"
    using u(2) inv by (simp add: heap_inv_def)
  ultimately show ?thesis
    by (intro exI [of _ "?b + 32"] exI [of _ "snd (take_block ?b ?n u)"]) (simp add: prod_eq_iff)
qed

theorem kmalloc_size_wraps_witness:
  "\<exists>p t. kmalloc 0xFFFFFFFFFFFFFFE0 demo_heap = Some (p, t) \<and> p \<noteq> 0 \<and> unat (total_heap_size t) = 16384"
proof -
  have "grows_in_place 0 demo_heap"
    by (rule heap_solo_grows [OF demo_heap_ok(3) demo_heap_pool(1)]) simp
  moreover have "length (fst (take_pages pmm_alloc_page 4 demo_heap)) = 4"
    using interval_take [OF demo_heap_free demo_heap_pool(1), of 4] by (auto split: prod.splits)
  ultimately show ?thesis using kmalloc_size_wraps [OF demo_heap_ok(1)] by simp
qed

text \<open>
  \<open>kmalloc_aligned\<close> does not align: on a fresh heap the pointer lies 32 bytes behind
  a page boundary, whatever alignment from 64 to 4096 was asked for.
\<close>

theorem kmalloc_aligned_misaligned:
  assumes "heap_ok s" and "heap_blocks s = []" and "6 \<le> k" and "k \<le> 12"
    and "kheap_ready (sz + 2 ^ k + 32) s" and "sz + 2 ^ k + 32 \<noteq> 0"
    and "kmalloc_aligned sz (2 ^ k) s = Some (p, t)" and "p \<noteq> 0"
  shows "unat p mod 2 ^ k = 32"
proof -
  let ?n = "sz + 2 ^ k + 32"
  have k64: "(2 :: u64) ^ k \<noteq> 0" using assms(4) by (simp add: exp_eq_zero_iff)
  have mask: "(2 :: u64) ^ k AND (2 ^ k - 1) = 0"
    by (rule bit_word_eqI) (auto simp: bit_and_iff bit_exp_iff mask_eq_exp_minus_1 [symmetric] bit_mask_iff)
  have "kmalloc ?n s = Some (p, t)"
    using assms(7) k64 mask by (simp add: kmalloc_aligned_def BLOCK_HEADER_SIZE_def)
  moreover obtain q u where "kmalloc ?n s = Some (q, u)" "heap_ok u"
    "q \<noteq> 0 \<longrightarrow> q = addr_after (heap_start u) [] + 32 \<and> heap_blocks u \<noteq> []"
    using kmalloc_spec [OF assms(1,6)] assms(2,5)
    by (auto simp: kheap_ready_def bl_cut_def split: if_splits)
  ultimately have p: "p = heap_start t + 32" "heap_ok t" "heap_blocks t \<noteq> []" using assms(8) by auto
  then have "4096 dvd unat (heap_start t)" "unat (heap_start t) + 32 < 2 ^ 64"
    using extent_length [of "heap_blocks t"] by (auto simp: heap_ok_def heap_inv_def Suc_le_eq [symmetric] neq_Nil_conv)
  then obtain j where j: "unat (heap_start t) = 4096 * j" by (auto elim: dvdE)
  have u: "unat p = unat (heap_start t) + 32"
    unfolding p(1) using \<open>unat (heap_start t) + 32 < 2 ^ 64\<close> by (subst unat_add_exact) simp_all
  have "(4096 :: nat) = 2 ^ k * 2 ^ (12 - k)" using assms(4) by (simp add: power_add [symmetric])
  then have "unat p = 2 ^ k * (2 ^ (12 - k) * j) + 32" using j u by (simp add: mult.assoc)
  moreover have "(2 :: nat) ^ 6 \<le> 2 ^ k" using assms(3) by (rule power_increasing) simp
  ultimately show ?thesis by simp
qed

theorem kmalloc_aligned_misaligned_witness:
  "\<exists>p t. kmalloc_aligned 64 4096 demo_heap = Some (p, t) \<and> p \<noteq> 0 \<and> unat p mod 4096 = 32"
proof -
  have ready: "kheap_ready 4192 demo_heap" by (rule kmalloc_solo(1) [OF demo_heap_ok(1,3)]) simp
  then have "grows_in_place (align_up 4192 8 + 32) demo_heap" by (simp add: kheap_ready_def)
  moreover have "align_up 4192 8 = 4192" "grow_bytes 4224 = 16384"
    by (simp_all add: align_up_def grow_bytes_def HEAP_EXPAND_SIZE_def)
  moreover have "length (fst (take_pages pmm_alloc_page 4 demo_heap)) = 4"
    using interval_take [OF demo_heap_free demo_heap_pool(1), of 4] by (auto split: prod.splits)
  ultimately obtain p t where t: "kmalloc 4192 demo_heap = Some (p, t)" "p \<noteq> 0"
    using kmalloc_spec [OF demo_heap_ok(1), of 4192] demo_heap_ok by fastforce
  then have run: "kmalloc_aligned 64 (2 ^ 12) demo_heap = Some (p, t)"
    by (simp add: kmalloc_aligned_def BLOCK_HEADER_SIZE_def)
  with kmalloc_aligned_misaligned [OF demo_heap_ok(1,2) _ _ _ _ run t(2)] ready t(2) show ?thesis by auto
qed

subsection \<open>Gaps\<close>

text \<open>
  Two neighbours in the list are merged wherever they lie: nothing compares the addresses, so a gap
  between them (another owner's pages) becomes part of the merged free block, and the merged size
  does not even cover the second block.
\<close>

lemma coalesce_next_ignores_gap:
  assumes "read_header m b = \<lparr>blk_size = n, blk_free = True, blk_next = x, blk_prev = 0\<rparr>"
    and "read_header m x = \<lparr>blk_size = k, blk_free = True, blk_next = 0, blk_prev = b\<rparr>"
    and "x \<noteq> 0" and "unat b + 32 \<le> unat x" and "unat x + 32 \<le> 2 ^ 64"
  shows "read_header (coalesce_next b m) b = \<lparr>blk_size = n + (32 + k), blk_free = True, blk_next = 0, blk_prev = 0\<rparr>"
  using assms by (simp add: coalesce_next_def Let_def read_header_other BLOCK_HEADER_SIZE_def)

end
