(* ===== verification/Long_Mode.thy ===== *)
theory Long_Mode
  imports Paging Interrupts
begin

text \<open>
  The way into 64-bit code (\<open>kernel/arch/x86_64/boot/boot.asm\<close>): the first page tables, the control
  registers, the descriptor table, and the arguments of \<open>kernel_main\<close>; and what the C code of
  \<open>paging.c\<close> makes of these tables.
\<close>

subsection \<open>The code\<close>

text \<open>
  The header by which the loader recognises the kernel, as the 32-bit words of the section: its four
  fields, and the end tag with type and flags in one word.
\<close>

definition MB_MAGIC :: u32 where "MB_MAGIC = 0xE85250D6"
definition MB_ARCH :: u32 where "MB_ARCH = 0"
definition MB_LENGTH :: u32 where "MB_LENGTH = 24"
definition MB_CHECKSUM :: u32 where "MB_CHECKSUM = - (MB_MAGIC + MB_ARCH + MB_LENGTH)"

definition multiboot_header :: "u32 list" where
  "multiboot_header = [MB_MAGIC, MB_ARCH, MB_LENGTH, MB_CHECKSUM, 0, 8]"

lemma multiboot_header_valid:
  "sum_list (take 4 multiboot_header) = 0" "unat (multiboot_header ! 2) = 4 * length multiboot_header"
  by (simp_all add: multiboot_header_def MB_MAGIC_def MB_ARCH_def MB_LENGTH_def MB_CHECKSUM_def)

text \<open>The addresses the linker gives to the symbols of the \<open>.bss\<close> section, below 4 GB.\<close>

record boot_image =
  img_pml4 :: u32
  img_pdpt :: u32
  img_pd :: u32
  img_multiboot_magic :: u32
  img_multiboot_addr :: u32
  img_stack_top :: u32

record boot_cpu = paging +
  eax :: u32
  ebx :: u32
  ecx :: u32
  edi :: u32
  arg_rdi :: u64
  arg_rsi :: u64
  stack_ptr :: u64
  cr0 :: u32
  cr4 :: u32
  efer :: u32
  seg_code :: u16
  seg_data :: u16

definition store32 :: "u64 \<Rightarrow> u32 \<Rightarrow> (u64 \<Rightarrow> u8) \<Rightarrow> u64 \<Rightarrow> u8" where
  "store32 a v m = fold (\<lambda>k m. m(a + word_of_nat k := ucast (drop_bit (8 * k) v))) [0..<4] m"

definition mov_mem :: "u32 \<Rightarrow> u32 \<Rightarrow> 'a machine_scheme \<Rightarrow> 'a machine_scheme" where
  "mov_mem a v s = s\<lparr>mem8 := store32 (ucast a) v (mem8 s)\<rparr>"

text \<open>\<open>rep stosd\<close>.\<close>

primrec stosd :: "nat \<Rightarrow> 'a boot_cpu_scheme \<Rightarrow> 'a boot_cpu_scheme" where
  "stosd 0 s = s"
| "stosd (Suc n) s = stosd n (let s = mov_mem (edi s) (eax s) s in s\<lparr>edi := edi s + 4, ecx := ecx s - 1\<rparr>)"

definition rep_stosd :: "'a boot_cpu_scheme \<Rightarrow> 'a boot_cpu_scheme" where
  "rep_stosd s = stosd (unat (ecx s)) s"

text \<open>The descriptors of \<open>gdt64\<close>, and the selectors of its second and third entry.\<close>

definition gdt64 :: "u64 list" where
  "gdt64 =
     [0,
      push_bit 43 1 OR push_bit 44 1 OR push_bit 47 1 OR push_bit 53 1,
      push_bit 44 1 OR push_bit 47 1 OR push_bit 41 1]"

definition gdt64_code :: u16 where "gdt64_code = 8"
definition gdt64_data :: u16 where "gdt64_data = 16"

definition save_boot_info :: "boot_image \<Rightarrow> 'a boot_cpu_scheme \<Rightarrow> 'a boot_cpu_scheme" where
  "save_boot_info img s =
     (let s = mov_mem (img_multiboot_magic img) (eax s) s
      in mov_mem (img_multiboot_addr img) (ebx s) s)"

definition build_tables :: "boot_image \<Rightarrow> 'a boot_cpu_scheme \<Rightarrow> 'a boot_cpu_scheme" where
  "build_tables img s =
     (let s = s\<lparr>edi := img_pml4 img, ecx := 3 * 4096 div 4, eax := 0\<rparr>;
          s = rep_stosd s;
          s = s\<lparr>eax := img_pdpt img\<rparr>;
          s = s\<lparr>eax := eax s OR 0x03\<rparr>;
          s = mov_mem (img_pml4 img) (eax s) s;
          s = s\<lparr>eax := img_pd img\<rparr>;
          s = s\<lparr>eax := eax s OR 0x03\<rparr>;
          s = mov_mem (img_pdpt img) (eax s) s;
          s = s\<lparr>eax := 0x83\<rparr>
      in mov_mem (img_pd img) (eax s) s)"

text \<open>
  \<open>efer\<close> is the lower half of the model-specific register 0xC0000080, which \<open>rdmsr\<close> puts into \<open>eax\<close>.
\<close>

definition enable_long_mode :: "boot_image \<Rightarrow> 'a boot_cpu_scheme \<Rightarrow> 'a boot_cpu_scheme" where
  "enable_long_mode img s =
     (let s = s\<lparr>eax := img_pml4 img\<rparr>;
          s = s\<lparr>cr3 := ucast (eax s)\<rparr>;
          s = s\<lparr>eax := cr4 s\<rparr>;
          s = s\<lparr>eax := eax s OR push_bit 5 1\<rparr>;
          s = s\<lparr>cr4 := eax s\<rparr>;
          s = s\<lparr>ecx := 0xC0000080\<rparr>;
          s = s\<lparr>eax := efer s\<rparr>;
          s = s\<lparr>eax := eax s OR push_bit 8 1\<rparr>;
          s = s\<lparr>efer := eax s\<rparr>;
          s = s\<lparr>eax := cr0 s\<rparr>;
          s = s\<lparr>eax := eax s OR push_bit 31 1\<rparr>;
          s = s\<lparr>cr0 := eax s\<rparr>
      in s\<lparr>seg_code := gdt64_code\<rparr>)"

definition start32 :: "boot_image \<Rightarrow> 'a boot_cpu_scheme \<Rightarrow> 'a boot_cpu_scheme" where
  "start32 img s =
     (let s = save_boot_info img s;
          s = s\<lparr>stack_ptr := ucast (img_stack_top img)\<rparr>;
          s = build_tables img s
      in enable_long_mode img s)"

definition long_mode_start :: "boot_image \<Rightarrow> 'a boot_cpu_scheme \<Rightarrow> 'a boot_cpu_scheme" where
  "long_mode_start img s =
     (let s = s\<lparr>seg_data := gdt64_data\<rparr>;
          s = s\<lparr>stack_ptr := ucast (img_stack_top img)\<rparr>;
          s = s\<lparr>arg_rdi := ucast (load32 (mem8 s) (ucast (img_multiboot_magic img)))\<rparr>
      in s\<lparr>arg_rsi := load64 (mem8 s) (ucast (img_multiboot_addr img))\<rparr>)"

text \<open>
  The call of the kernel, which is a parameter (\<open>None\<close> if it does not return), and the loop behind
  it: there is no way back.
\<close>

definition run_kernel ::
  "(u64 \<Rightarrow> u64 \<Rightarrow> 'a boot_cpu_scheme \<Rightarrow> 'a boot_cpu_scheme option) \<Rightarrow> 'a boot_cpu_scheme \<Rightarrow>
     'a boot_cpu_scheme outcome option" where
  "run_kernel kernel_main s =
     (case kernel_main (arg_rdi s) (arg_rsi s) s of
        None \<Rightarrow> None
      | Some s \<Rightarrow> Some (halt_forever (disable_interrupts s)))"

lemma run_kernel_halts:
  assumes "run_kernel kernel_main s = Some r"
  shows "\<exists>t. kernel_main (arg_rdi s) (arg_rsi s) s = Some t \<and>
    halts k r = Some ((emit Hlt ^^ Suc k) (disable_interrupts t))"
  using assms by (auto simp: run_kernel_def halts_forever simp del: funpow.simps split: option.splits)

subsection \<open>The processor's translation\<close>

text \<open>
  The walk of the processor, with the large pages that bit 7 of an entry marks at the second and
  third level. Addresses are canonical, below \<open>2 ^ 48\<close>.
\<close>

definition PAGE_HUGE :: u64 where "PAGE_HUGE = 0x80"

definition entry_frame :: "u64 \<Rightarrow> u64" where
  "entry_frame e = take_bit 52 (e AND NOT 0xFFF)"

definition hw_translate :: "(u64 \<Rightarrow> u8) \<Rightarrow> u64 \<Rightarrow> u64 \<Rightarrow> u64 option" where
  "hw_translate m root v =
     (let e = load64 m (pte_addr root (pml4_index v))
      in if e AND PAGE_PRESENT = 0 then None
         else (let e = load64 m (pte_addr (entry_frame e) (pdpt_index v))
               in if e AND PAGE_PRESENT = 0 then None
                  else if e AND PAGE_HUGE \<noteq> 0 then Some (take_bit 52 (e AND NOT (mask 30)) OR take_bit 30 v)
                  else (let e = load64 m (pte_addr (entry_frame e) (pd_index v))
                        in if e AND PAGE_PRESENT = 0 then None
                           else if e AND PAGE_HUGE \<noteq> 0 then Some (take_bit 52 (e AND NOT (mask 21)) OR take_bit 21 v)
                           else (let e = load64 m (pte_addr (entry_frame e) (pt_index v))
                                 in if e AND PAGE_PRESENT = 0 then None
                                    else Some (entry_frame e OR take_bit 12 v)))))"

subsection \<open>Stores of 32 bits\<close>

lemma store32_byte:
  "store32 a v m b = (if unat (b - a) < 4 then ucast (drop_bit (8 * unat (b - a)) v) else m b)"
  unfolding store32_def by (rule fold_store) simp

lemma load32_store32 [simp]: "load32 (store32 a v m) a = v"
proof (rule bit_word_eqI)
  fix k assume k: "k < LENGTH(32)"
  then have "k div 8 < 4" by simp
  then have "unat (word_of_nat (k div 8) :: u64) = k div 8" by (simp add: unat_of_nat)
  then show "bit (load32 (store32 a v m) a) k = bit v k"
    using k \<open>k div 8 < 4\<close> by (simp add: load32_def bit_load_le store32_byte bit_unsigned_iff bit_drop_bit_eq)
qed

lemma unat_up [simp]: "unat (ucast x :: u64) = unat x" for x :: u32
  using unsigned_less [of x, where 'a = nat] by (simp add: unsigned_ucast_eq take_bit_eq_mod)

text \<open>An entry whose low half was stored and whose high half is zero.\<close>

lemma load64_low:
  assumes low: "\<And>k. k < 4 \<Longrightarrow> m (a + word_of_nat k) = ucast (drop_bit (8 * k) v)"
    and high: "\<And>k. 4 \<le> k \<Longrightarrow> k < 8 \<Longrightarrow> m (a + word_of_nat k) = 0"
  shows "load64 m a = (ucast (v :: u32) :: u64)"
proof (rule bit_word_eqI)
  fix k assume k: "k < LENGTH(64)"
  show "bit (load64 m a) k = bit (ucast v :: u64) k"
  proof (cases "k < 32")
    case True
    then have "k div 8 < 4" by simp
    with low [OF this] k True show ?thesis
      by (simp add: load64_def bit_load_le bit_unsigned_iff bit_drop_bit_eq)
  next
    case False
    then have "4 \<le> k div 8" "k div 8 < 8" using k by simp_all
    with high [OF this] k False show ?thesis
      by (auto simp: load64_def bit_load_le bit_unsigned_iff dest: bit_imp_le_length)
  qed
qed

lemma stosd_spec:
  "unat (edi s) + 4 * n < 2 ^ 32 \<Longrightarrow> eax s = 0 \<Longrightarrow>
    (\<forall>b. mem8 (stosd n s) b = (if unat (b - ucast (edi s)) < 4 * n then 0 else mem8 s b)) \<and>
    (\<exists>d c m. stosd n s = s\<lparr>edi := d, ecx := c, mem8 := m\<rparr>)"
proof (induction n arbitrary: s)
  case 0
  have "s = s\<lparr>edi := edi s, ecx := ecx s, mem8 := mem8 s\<rparr>" by simp
  then have "\<exists>d c m. stosd 0 s = s\<lparr>edi := d, ecx := c, mem8 := m\<rparr>" unfolding stosd.simps by blast
  then show ?case by simp
next
  case (Suc n)
  define u where "u = (let s = mov_mem (edi s) (eax s) s in s\<lparr>edi := edi s + 4, ecx := ecx s - 1\<rparr>)"
  have u: "u = s\<lparr>edi := edi s + 4, ecx := ecx s - 1, mem8 := store32 (ucast (edi s)) 0 (mem8 s)\<rparr>"
    using Suc.prems(2) by (simp add: u_def mov_mem_def Let_def)
  have e: "edi u = edi s + 4" "eax u = 0" "mem8 u = store32 (ucast (edi s)) 0 (mem8 s)"
    using Suc.prems(2) by (simp_all add: u)
  have d: "unat (edi s + 4) = unat (edi s) + 4" using Suc.prems(1) by (subst unat_add_exact) simp_all
  then have c: "(ucast (edi s + 4) :: u64) = ucast (edi s) + 4"
    using unsigned_less [of "edi s", where 'a = nat]
    by (simp add: word_unat_eq_iff unat_word_ariths unat_up)
  have IH: "\<forall>b. mem8 (stosd n u) b = (if unat (b - ucast (edi u)) < 4 * n then 0 else mem8 u b)"
    "\<exists>d c m. stosd n u = u\<lparr>edi := d, ecx := c, mem8 := m\<rparr>"
    using Suc.IH [of u] Suc.prems(1) d e by simp_all
  have "mem8 (stosd (Suc n) s) b = (if unat (b - ucast (edi s)) < 4 * Suc n then 0 else mem8 s b)" for b
  proof -
    define x where "x = b - ucast (edi s)"
    have "b - ucast (edi u) = x - 4" by (simp add: x_def e(1) c)
    moreover have "unat (x - 4) = unat x - 4" if "\<not> unat x < 4"
      using that by (subst unat_sub_exact) (simp_all add: word_le_nat_alt)
    ultimately show ?thesis
      using IH(1) [rule_format, of b] e(3) by (auto simp: u_def store32_byte x_def [symmetric])
  qed
  moreover have "\<exists>d c m. stosd n u = s\<lparr>edi := d, ecx := c, mem8 := m\<rparr>" using IH(2) by (auto simp: u)
  ultimately show ?case by (simp add: u_def)
qed

lemma small_diff:
  assumes "n < 65536" and "c < 65536"
  shows "unat (word_of_nat n - word_of_nat c :: u64) < 8 \<longleftrightarrow> c \<le> n \<and> n < c + 8"
    "c \<le> n \<Longrightarrow> unat (word_of_nat n - word_of_nat c :: u64) = n - c"
proof -
  have u: "unat (word_of_nat n :: u64) = n" "unat (word_of_nat c :: u64) = c"
    using assms by (simp_all add: unat_of_nat)
  show le: "unat (word_of_nat n - word_of_nat c :: u64) = n - c" if "c \<le> n"
    using that u by (subst unat_sub_exact) (simp_all add: word_le_nat_alt)
  have "unat (word_of_nat n - word_of_nat c :: u64) = 2 ^ 64 + n - c" if "n < c"
    using that u assms by (simp add: unat_sub_if_size word_size)
  then show "unat (word_of_nat n - word_of_nat c :: u64) < 8 \<longleftrightarrow> c \<le> n \<and> n < c + 8"
    using le assms by (cases "c \<le> n") auto
qed

lemma store32_offset:
  fixes B :: u64
  assumes "n < 65536" and "c < 65536"
  shows "store32 (B + word_of_nat c) v m (B + word_of_nat n) =
    (if c \<le> n \<and> n < c + 4 then ucast (drop_bit (8 * (n - c)) v) else m (B + word_of_nat n))"
proof -
  have e: "(B + word_of_nat n) - (B + word_of_nat c) = word_of_nat n - word_of_nat c" by simp
  have "unat (word_of_nat n - word_of_nat c :: u64) < 4 \<longleftrightarrow> c \<le> n \<and> n < c + 4"
    using small_diff [OF assms] by linarith
  then show ?thesis unfolding store32_byte e using small_diff(2) [OF assms] by simp
qed

lemma store32_far:
  fixes b B :: u64
  assumes "c + 4 \<le> unat (b - B)" and "c < 65536"
  shows "store32 (B + word_of_nat c) v m b = m b"
proof -
  have u: "unat (word_of_nat c :: u64) = c" using assms(2) by (simp add: unat_of_nat)
  have e: "b - (B + word_of_nat c) = b - B - word_of_nat c" by simp
  have "unat (b - B - word_of_nat c) = unat (b - B) - c"
    using assms(1) u by (subst unat_sub_exact) (simp_all add: word_le_nat_alt)
  then have "\<not> unat (b - (B + word_of_nat c)) < 4" unfolding e using assms(1) by linarith
  then show ?thesis by (simp add: store32_byte)
qed

text \<open>The section \<open>.bss\<close> of \<open>boot.asm\<close>: three pages of tables, then the two saved values.\<close>

definition boot_bss :: "u32 \<Rightarrow> u32 \<Rightarrow> boot_image" where
  "boot_bss bss stack_top =
     \<lparr>img_pml4 = bss, img_pdpt = bss + 4096, img_pd = bss + 8192,
      img_multiboot_magic = bss + 12288, img_multiboot_addr = bss + 12292, img_stack_top = stack_top\<rparr>"

lemma bss_addr:
  fixes bss :: u32
  assumes "unat bss + n < 2 ^ 32"
  shows "(ucast (bss + word_of_nat n) :: u64) = ucast bss + word_of_nat n"
proof -
  have n: "unat (word_of_nat n :: u32) = n" "unat (word_of_nat n :: u64) = n"
    using assms by (simp_all add: unat_of_nat)
  then have "unat (bss + word_of_nat n) = unat bss + n" using assms by (subst unat_add_exact) simp_all
  then show ?thesis using n assms by (simp add: word_unat_eq_iff unat_word_ariths unat_up)
qed

text \<open>The bytes of the three pages.\<close>

lemma tables_memory:
  fixes bss sp :: u32 and s :: "'a boot_cpu_scheme"
  defines "B \<equiv> ucast bss :: u64"
  assumes "unat bss + 12300 < 2 ^ 32"
  defines "t \<equiv> build_tables (boot_bss bss sp) s"
  shows "\<And>n. n < 12288 \<Longrightarrow> mem8 t (B + word_of_nat n) =
      (if n < 4 then ucast (drop_bit (8 * n) ((bss + 4096) OR 3))
       else if 4096 \<le> n \<and> n < 4100 then ucast (drop_bit (8 * (n - 4096)) ((bss + 8192) OR 3))
       else if n = 8192 then 0x83 else 0)"
    "\<And>b. 12288 \<le> unat (b - B) \<Longrightarrow> mem8 t b = mem8 s b"
    "\<exists>d c a m. t = s\<lparr>edi := d, ecx := c, eax := a, mem8 := m\<rparr>"
proof -
  define u where "u = stosd 3072 (s\<lparr>edi := bss, ecx := 3072, eax := 0\<rparr>)"
  have "unat (edi (s\<lparr>edi := bss, ecx := 3072, eax := 0\<rparr>)) + 4 * 3072 < 2 ^ 32" using assms(2) by simp
  from stosd_spec [OF this, folded u_def]
  have um: "mem8 u b = (if unat (b - B) < 12288 then 0 else mem8 s b)" for b by (simp add: B_def)
  from stosd_spec [OF \<open>unat (edi (s\<lparr>edi := bss, ecx := 3072, eax := 0\<rparr>)) + 4 * 3072 < 2 ^ 32\<close>, folded u_def]
  obtain d c m where ur: "u = s\<lparr>edi := bss, ecx := 3072, eax := 0, edi := d, ecx := c, mem8 := m\<rparr>" by auto
  have un: "unat (3 * 4096 div 4 :: u32) = 3072" "(3 * 4096 div 4 :: u32) = 3072" by simp_all
  have t: "t = u\<lparr>eax := 0x83, mem8 := store32 (ucast (bss + 8192)) 0x83
      (store32 (ucast (bss + 4096)) ((bss + 8192) OR 3) (store32 (ucast bss) ((bss + 4096) OR 3) (mem8 u)))\<rparr>"
    unfolding t_def build_tables_def Let_def rep_stosd_def
    by (simp add: boot_bss_def mov_mem_def un(2) u_def [symmetric])
  have a: "ucast (bss + 4096) = B + word_of_nat 4096" "ucast (bss + 8192) = B + word_of_nat 8192"
    "ucast bss = B + word_of_nat 0"
    using bss_addr [of bss 4096] bss_addr [of bss 8192] assms(2) by (simp_all add: B_def)
  have mt: "mem8 t = store32 (B + word_of_nat 8192) 0x83 (store32 (B + word_of_nat 4096) ((bss + 8192) OR 3)
      (store32 (B + word_of_nat 0) ((bss + 4096) OR 3) (mem8 u)))"
    unfolding t a by simp
  show "mem8 t (B + word_of_nat n) =
      (if n < 4 then ucast (drop_bit (8 * n) ((bss + 4096) OR 3))
       else if 4096 \<le> n \<and> n < 4100 then ucast (drop_bit (8 * (n - 4096)) ((bss + 8192) OR 3))
       else if n = 8192 then 0x83 else 0)" if n: "n < 12288" for n
  proof -
    have "unat (word_of_nat n :: u64) = n" using n by (simp add: unat_of_nat)
    then have z: "mem8 u (B + word_of_nat n) = 0" using n by (simp add: um)
    have small: "n < 65536" "(8192 :: nat) < 65536" "(4096 :: nat) < 65536" "(0 :: nat) < 65536" using n by simp_all
    have huge: "(ucast (drop_bit (8 * (n - 8192)) (0x83 :: u32)) :: u8) = (if n = 8192 then 0x83 else 0)"
      if "8192 \<le> n" "n < 8196"
    proof -
      consider "n = 8192" | "n = 8193" | "n = 8194" | "n = 8195" using \<open>8192 \<le> n\<close> \<open>n < 8196\<close> by linarith
      then show ?thesis by cases simp_all
    qed
    show ?thesis
      unfolding mt store32_offset [OF small(1,2)] store32_offset [OF small(1,3)] store32_offset [OF small(1,4)] z
      using huge by auto
  qed
  show "mem8 t b = mem8 s b" if b: "12288 \<le> unat (b - B)" for b
  proof -
    show ?thesis unfolding mt using b by (simp only: store32_far) (simp add: store32_far um)
  qed
  show "\<exists>d c a m. t = s\<lparr>edi := d, ecx := c, eax := a, mem8 := m\<rparr>" unfolding t ur
    by (rule exI [of _ d], rule exI [of _ c], rule exI [of _ "0x83"], rule exI) simp
qed

text \<open>The entries.\<close>

lemma tables_entries:
  fixes bss sp :: u32 and s :: "'a boot_cpu_scheme"
  assumes "unat bss + 12300 < 2 ^ 32" and i: "i < 512"
  defines "m \<equiv> mem8 (build_tables (boot_bss bss sp) s)"
  shows "load64 m (pte_addr (ucast bss) i) = (if i = 0 then ucast ((bss + 4096) OR 3) else 0)"
    "load64 m (pte_addr (ucast (bss + 4096)) i) = (if i = 0 then ucast ((bss + 8192) OR 3) else 0)"
    "load64 m (pte_addr (ucast (bss + 8192)) i) = (if i = 0 then 0x83 else 0)"
proof -
  define B where "B = (ucast bss :: u64)"
  note mem = tables_memory(1) [OF assms(1), of _ sp s, folded m_def B_def]
  have i512: "unat i < 512" using i by (simp add: word_less_nat_alt)
  have entry: "load64 m (pte_addr (B + word_of_nat c) i) = (if i = 0 then ucast v else 0)"
    if c: "c = 0 \<or> c = 4096 \<or> c = 8192"
      and v: "\<And>k. k < 4 \<Longrightarrow> m (B + word_of_nat (c + k)) = ucast (drop_bit (8 * k) (v :: u32))" for c v
  proof -
    have a: "pte_addr (B + word_of_nat c) i + word_of_nat k = B + word_of_nat (c + 8 * unat i + k)" for k
      by (simp add: pte_addr_def)
    show ?thesis
    proof (cases "i = 0")
      case True
      have "load64 m (pte_addr (B + word_of_nat c) i) = ucast v"
      proof (rule load64_low)
        show "m (pte_addr (B + word_of_nat c) i + word_of_nat k) = ucast (drop_bit (8 * k) v)" if "k < 4" for k
          unfolding a using v [OF that] by (simp add: True)
        show "m (pte_addr (B + word_of_nat c) i + word_of_nat k) = 0" if "4 \<le> k" "k < 8" for k
          unfolding a using mem [of "c + 8 * unat i + k"] that c by (auto simp: True)
      qed
      with True show ?thesis by simp
    next
      case False
      then have "0 < unat i" by (simp add: unat_gt_0)
      then have z: "m (pte_addr (B + word_of_nat c) i + word_of_nat k) = 0" if "k < 8" for k
        unfolding a using mem [of "c + 8 * unat i + k"] that c i512 by (elim disjE) simp_all
      have "load64 m (pte_addr (B + word_of_nat c) i) = ucast (0 :: u32)"
        by (rule load64_low) (use z in simp_all)
      with False show ?thesis by simp
    qed
  qed
  have c: "ucast (bss + 4096) = B + word_of_nat 4096" "ucast (bss + 8192) = B + word_of_nat 8192"
    "ucast bss = B + word_of_nat 0"
    using bss_addr [of bss 4096] bss_addr [of bss 8192] assms(1) by (simp_all add: B_def)
  show "load64 m (pte_addr (ucast bss) i) = (if i = 0 then ucast ((bss + 4096) OR 3) else 0)"
    unfolding c(3) by (rule entry, simp) (subst mem, simp_all)
  show "load64 m (pte_addr (ucast (bss + 4096)) i) = (if i = 0 then ucast ((bss + 8192) OR 3) else 0)"
    unfolding c(1) by (rule entry, simp) (subst mem, simp_all)
  have "load64 m (pte_addr (B + word_of_nat 8192) i) = (if i = 0 then ucast (0x83 :: u32) else 0)"
  proof (rule entry, simp)
    fix k :: nat assume "k < 4"
    then consider "k = 0" | "k = 1" | "k = 2" | "k = 3" by linarith
    then show "m (B + word_of_nat (8192 + k)) = ucast (drop_bit (8 * k) (0x83 :: u32))"
      using mem [of "8192 + k"] by cases simp_all
  qed
  then show "load64 m (pte_addr (ucast (bss + 8192)) i) = (if i = 0 then 0x83 else 0)" unfolding c(2) by simp
qed

subsection \<open>What the processor maps\<close>

lemma take_bit_small: "unat x < 2 ^ n \<Longrightarrow> take_bit n x = x" for x :: u64
  by (simp only: word_unat_eq_iff unsigned_take_bit_eq take_bit_nat_eq_self)

lemma table_entry:
  fixes x :: u32
  assumes "4096 dvd unat x"
  defines "e \<equiv> ucast (x OR 3) :: u64"
  shows "e = ucast x OR 3" "e AND PAGE_PRESENT \<noteq> 0" "e AND PAGE_HUGE = 0" "entry_frame e = ucast x" "entry_table e = ucast x"
proof -
  show e: "e = ucast x OR 3" by (simp add: e_def unsigned_or_eq)
  have al: "4096 dvd unat (ucast x :: u64)" using assms(1) by simp
  then have low: "\<not> bit (ucast x :: u64) n" if "n < 12" for n
    using that unfolding aligned_iff by (metis bit_take_bit_iff bit_0_eq bot_apply bot_bool_def)
  show "e AND PAGE_PRESENT \<noteq> 0"
    unfolding e by (simp add: PAGE_PRESENT_def and_one_eq odd_iff_mod_2_eq_one [symmetric] bit_0 [symmetric] bit_or_iff)
  have "\<not> bit e 7" using low [of 7] by (simp add: e bit_or_iff bit_numeral_rec)
  then have "e AND 2 ^ 7 = 0" by (simp only: and_exp_eq_0_iff_not_bit not_not simp_thms)
  then show "e AND PAGE_HUGE = 0" by (simp add: PAGE_HUGE_def)
  show t: "entry_table e = ucast x" unfolding e by (rule entry_table_flags [OF al]) simp
  have "unat (ucast x :: u64) < 2 ^ 52" using unsigned_less [of x, where 'a = nat] by simp
  then have "take_bit 52 (ucast x :: u64) = ucast x" by (rule take_bit_small)
  then show "entry_frame e = ucast x" using t by (simp add: entry_frame_def entry_table_def)
qed

lemma high_index:
  assumes "unat v < 2 ^ 48" and "pml4_index v = 0" and "pdpt_index v = 0" and "pd_index v = 0"
  shows "unat v < 2 ^ 21"
proof -
  have m: "(0x1FF :: u64) = mask 9" by (simp add: mask_eq_exp_minus_1)
  have field: "\<not> bit v n" if "drop_bit k v AND 0x1FF = 0" "k \<le> n" "n < k + 9" "n < 64" for k n
  proof -
    have "\<not> bit (drop_bit k v AND 0x1FF) (n - k)" unfolding that(1) by simp
    moreover have "n - k < 9" "n - k < 64" using that by linarith+
    ultimately show ?thesis using that(2,4) by (simp add: m bit_and_iff bit_drop_bit_eq bit_mask_iff)
  qed
  have top: "take_bit 48 v = v" using assms(1) by (rule take_bit_small)
  have "\<not> bit v n" if n: "21 \<le> n" for n
  proof (cases "n < 48")
    case True
    then consider "n < 30" | "30 \<le> n" "n < 39" | "39 \<le> n" "n < 48" by linarith
    then show ?thesis
      by cases (use field [of 21 n] field [of 30 n] field [of 39 n] assms(2-4) n in
        \<open>simp_all add: pml4_index_def pdpt_index_def pd_index_def\<close>)
  next
    case False
    then show ?thesis using top by (metis bit_take_bit_iff)
  qed
  then have "take_bit 21 v = v" by (intro bit_word_eqI) (metis bit_take_bit_iff not_less)
  then have "unat v = unat v mod 2 ^ 21" by (metis unsigned_take_bit_eq take_bit_eq_mod)
  then show ?thesis by (metis mod_less_divisor zero_less_power zero_less_numeral)
qed

lemma boot_translate:
  fixes bss sp :: u32 and s :: "'a boot_cpu_scheme"
  assumes "unat bss + 12300 < 2 ^ 32" and "4096 dvd unat bss" and "unat v < 2 ^ 48"
  shows "hw_translate (mem8 (build_tables (boot_bss bss sp) s)) (ucast bss) v =
    (if unat v < 2 ^ 21 then Some v else None)"
proof -
  note e = tables_entries [OF assms(1), where sp = sp and s = s]
  have "unat (bss + 4096) = unat bss + 4096" "unat (bss + 8192) = unat bss + 8192"
    using assms(1) by (subst unat_add_exact; simp)+
  then have al: "4096 dvd unat (bss + 4096)" "4096 dvd unat (bss + 8192)" using assms(2) by simp_all
  note pdpt = table_entry [OF al(1)] and pd = table_entry [OF al(2)]
  have present: "(0x83 :: u64) AND PAGE_PRESENT \<noteq> 0" "(0x83 :: u64) AND PAGE_HUGE \<noteq> 0"
    by (simp_all add: PAGE_PRESENT_def PAGE_HUGE_def)
  show ?thesis
  proof (cases "unat v < 2 ^ 21")
    case True
    note i = low_indices [OF True]
    have "take_bit 21 v = v" using True by (rule take_bit_small)
    moreover have "take_bit 52 ((0x83 :: u64) AND NOT (mask 21)) = 0"
      by (simp add: mask_eq_exp_minus_1)
    ultimately show ?thesis using True
      by (simp add: hw_translate_def e i pdpt(2,3,4) pd(2,3,4) present)
  next
    case False
    then have "pml4_index v \<noteq> 0 \<or> pdpt_index v \<noteq> 0 \<or> pd_index v \<noteq> 0" using high_index assms(3) by blast
    then show ?thesis using False
      by (auto simp: hw_translate_def e pdpt(2,3,4) pd(2,3,4) Let_def)
  qed
qed

subsection \<open>From \<open>_start\<close> to \<open>kernel_main\<close>\<close>

lemma load32_cong: "(\<And>k. k < 4 \<Longrightarrow> m' (a + word_of_nat k) = m (a + word_of_nat k)) \<Longrightarrow> load32 m' a = load32 m a"
  unfolding load32_def load_le_def by (rule arg_cong [where f = sum_list]) simp

lemma enable_long_mode_spec:
  "mem8 (enable_long_mode img s) = mem8 s" "cr3 (enable_long_mode img s) = ucast (img_pml4 img)"
  "cr4 (enable_long_mode img s) = cr4 s OR push_bit 5 1" "efer (enable_long_mode img s) = efer s OR push_bit 8 1"
  "cr0 (enable_long_mode img s) = cr0 s OR push_bit 31 1" "seg_code (enable_long_mode img s) = gdt64_code"
  "kernel_pml4 (enable_long_mode img s) = kernel_pml4 s"
  by (simp_all add: enable_long_mode_def Let_def)

lemma start32_spec:
  fixes bss sp :: u32 and s :: "'a boot_cpu_scheme"
  defines "img \<equiv> boot_bss bss sp" and "B \<equiv> ucast bss :: u64"
  assumes "unat bss + 12300 < 2 ^ 32"
  defines "t \<equiv> start32 img s"
  shows "\<exists>u :: 'a boot_cpu_scheme. mem8 t = mem8 (build_tables img u)"
    "\<And>n. 12288 \<le> n \<Longrightarrow> n < 12300 \<Longrightarrow> mem8 t (B + word_of_nat n) =
      (if n < 12292 then ucast (drop_bit (8 * (n - 12288)) (eax s))
       else if n < 12296 then ucast (drop_bit (8 * (n - 12292)) (ebx s)) else mem8 s (B + word_of_nat n))"
    "\<And>b. 12300 \<le> unat (b - B) \<Longrightarrow> mem8 t b = mem8 s b"
    "cr3 t = B" "cr4 t = cr4 s OR push_bit 5 1" "efer t = efer s OR push_bit 8 1" "cr0 t = cr0 s OR push_bit 31 1"
    "seg_code t = gdt64_code" "kernel_pml4 t = kernel_pml4 s"
proof -
  define u where "u = (save_boot_info img s)\<lparr>stack_ptr := ucast sp\<rparr>"
  define v where "v = build_tables img u"
  have t: "t = enable_long_mode img v"
    by (simp add: t_def start32_def Let_def v_def u_def img_def boot_bss_def)
  have a: "ucast (bss + 12288) = B + word_of_nat 12288" "ucast (bss + 12292) = B + word_of_nat 12292"
    using bss_addr [of bss 12288] bss_addr [of bss 12292] assms(3) by (simp_all add: B_def)
  have um: "mem8 u = store32 (B + word_of_nat 12292) (ebx s) (store32 (B + word_of_nat 12288) (eax s) (mem8 s))"
    by (simp only: a [symmetric]) (simp add: u_def save_boot_info_def img_def boot_bss_def mov_mem_def Let_def)
  have ur: "u = s\<lparr>mem8 := mem8 u, stack_ptr := ucast sp\<rparr>"
    by (simp add: u_def save_boot_info_def mov_mem_def Let_def)
  note tb = tables_memory [OF assms(3), where sp = sp and s = u, folded img_def B_def v_def]
  from tb(3) obtain d c x m where vr: "v = u\<lparr>edi := d, ecx := c, eax := x, mem8 := m\<rparr>" by blast
  have mt: "mem8 t = mem8 v" unfolding t by (rule enable_long_mode_spec)
  then show "\<exists>u :: 'a boot_cpu_scheme. mem8 t = mem8 (build_tables img u)" unfolding v_def by blast
  show "mem8 t (B + word_of_nat n) =
      (if n < 12292 then ucast (drop_bit (8 * (n - 12288)) (eax s))
       else if n < 12296 then ucast (drop_bit (8 * (n - 12292)) (ebx s)) else mem8 s (B + word_of_nat n))"
    if n: "12288 \<le> n" "n < 12300" for n
  proof -
    have "unat (word_of_nat n :: u64) = n" using n by (simp add: unat_of_nat)
    then have "mem8 t (B + word_of_nat n) = mem8 u (B + word_of_nat n)" using tb(2) n by (simp add: mt)
    then show ?thesis unfolding um using n by (simp only: store32_offset) (auto simp: store32_offset)
  qed
  show "mem8 t b = mem8 s b" if b: "12300 \<le> unat (b - B)" for b
  proof -
    have "mem8 t b = mem8 u b" using tb(2) b by (simp add: mt)
    then show ?thesis unfolding um using b by (simp only: store32_far)
  qed
  have "cr4 v = cr4 s" "efer v = efer s" "cr0 v = cr0 s" "kernel_pml4 v = kernel_pml4 s"
    unfolding vr by (simp, subst ur, simp)+
  then show "cr3 t = B" "cr4 t = cr4 s OR push_bit 5 1" "efer t = efer s OR push_bit 8 1"
    "cr0 t = cr0 s OR push_bit 31 1" "seg_code t = gdt64_code" "kernel_pml4 t = kernel_pml4 s"
    unfolding t enable_long_mode_spec by (simp_all add: img_def boot_bss_def B_def)
qed

text \<open>
  Property C15. The boot code, entered with the loader's magic number in \<open>eax\<close> and the address of its
  information in \<open>ebx\<close>, on tables that are page-aligned below 4 GB and zeroed as the loader leaves
  \<open>.bss\<close>: it turns on physical-address extension, long mode and paging, runs in the 64-bit code segment
  on the boot stack, and calls \<open>kernel_main\<close> with the two values, zero-extended; nothing but its own
  three pages and the saved values changes in memory. The processor then translates every address
  below 2 MB to itself, and no other canonical address of the lower half at all.
\<close>

theorem boot_enters_long_mode:
  fixes bss sp :: u32 and s :: "'a boot_cpu_scheme"
  defines "t \<equiv> long_mode_start (boot_bss bss sp) (start32 (boot_bss bss sp) s)"
  assumes "unat bss + 12300 < 2 ^ 32" and "4096 dvd unat bss"
    and zeroed: "\<And>n. 12296 \<le> n \<Longrightarrow> n < 12300 \<Longrightarrow> mem8 s (ucast bss + word_of_nat n) = 0"
  shows "arg_rdi t = ucast (eax s) \<and> arg_rsi t = ucast (ebx s) \<and> stack_ptr t = ucast sp \<and>
    bit (cr4 t) 5 \<and> bit (efer t) 8 \<and> bit (cr0 t) 31 \<and>
    bit (gdt64 ! (unat (seg_code t) div 8)) 53 \<and> bit (gdt64 ! (unat (seg_code t) div 8)) 43 \<and>
    bit (gdt64 ! (unat (seg_data t) div 8)) 41 \<and> \<not> bit (gdt64 ! (unat (seg_data t) div 8)) 43 \<and>
    (\<forall>b. 12300 \<le> unat (b - ucast bss) \<longrightarrow> mem8 t b = mem8 s b) \<and>
    (\<forall>v. unat v < 2 ^ 48 \<longrightarrow> hw_translate (mem8 t) (cr3 t) v = (if unat v < 2 ^ 21 then Some v else None))"
proof -
  define B where "B = (ucast bss :: u64)"
  define img where "img = boot_bss bss sp"
  define r where "r = start32 img s"
  note st = start32_spec [OF assms(2), where sp = sp and s = s, folded img_def B_def, folded r_def]
  have t: "mem8 t = mem8 r" "cr3 t = B" "cr4 t = cr4 r" "efer t = efer r" "cr0 t = cr0 r" "seg_code t = seg_code r"
    "seg_data t = gdt64_data" "stack_ptr t = ucast sp"
    "arg_rdi t = ucast (load32 (mem8 r) (ucast (img_multiboot_magic img)))"
    "arg_rsi t = load64 (mem8 r) (ucast (img_multiboot_addr img))"
    using st(4) by (simp_all add: t_def long_mode_start_def Let_def r_def img_def [symmetric]) (simp add: img_def boot_bss_def)
  have a: "ucast (img_multiboot_magic img) = B + word_of_nat 12288" "ucast (img_multiboot_addr img) = B + word_of_nat 12292"
    using bss_addr [of bss 12288] bss_addr [of bss 12292] assms(2) by (simp_all add: B_def img_def boot_bss_def)
  have add: "B + word_of_nat c + word_of_nat k = B + word_of_nat (c + k)" for c k by simp
  have "load32 (mem8 r) (B + word_of_nat 12288) = load32 (store32 (B + word_of_nat 12288) (eax s) (mem8 s)) (B + word_of_nat 12288)"
    by (rule load32_cong, unfold add) (simp add: st(2) store32_offset del: of_nat_add of_nat_numeral)
  then have "arg_rdi t = ucast (eax s)" unfolding t(9) a by simp
  moreover have "load64 (mem8 r) (B + word_of_nat 12292) = ucast (ebx s)"
    by (rule load64_low; unfold add) (use zeroed in \<open>simp_all add: st(2) B_def [symmetric] del: of_nat_add of_nat_numeral\<close>)
  then have "arg_rsi t = ucast (ebx s)" unfolding t(10) a .
  moreover have "bit (gdt64 ! (unat (seg_code t) div 8)) 53" "bit (gdt64 ! (unat (seg_code t) div 8)) 43"
    "bit (gdt64 ! (unat (seg_data t) div 8)) 41" "\<not> bit (gdt64 ! (unat (seg_data t) div 8)) 43"
    unfolding t(6,7) st(8) by code_simp+
  moreover have "hw_translate (mem8 t) (cr3 t) v = (if unat v < 2 ^ 21 then Some v else None)" if "unat v < 2 ^ 48" for v
    using st(1) boot_translate [OF assms(2,3) that, of sp] unfolding t(1,2) img_def B_def by metis
  ultimately show ?thesis
    using st(3) by (simp add: t(1,3-5,8) st(5-7) B_def bit_or_iff bit_push_bit_iff)
qed

text \<open>A loader's call with the tables at \<open>0x101000\<close>.\<close>

definition demo_boot_cpu :: boot_cpu where
  "demo_boot_cpu = paging.extend demo_paging
     \<lparr>eax = 0x36D76289, ebx = 0x9500, ecx = 0, edi = 0, arg_rdi = 0, arg_rsi = 0, stack_ptr = 0,
      cr0 = 0x11, cr4 = 0, efer = 0, seg_code = 0, seg_data = 0\<rparr>"

lemma demo_boot_cpu_fields [simp]:
  "mem8 demo_boot_cpu = (\<lambda>_. 0)(0x2000 := 0x85)" "eax demo_boot_cpu = 0x36D76289" "ebx demo_boot_cpu = 0x9500"
  by (simp_all add: demo_boot_cpu_def paging.defs)

lemma demo_boot_cpu_zeroed: "n < 12300 \<Longrightarrow> mem8 demo_boot_cpu (ucast (0x101000 :: u32) + word_of_nat n) = 0"
proof -
  assume n: "n < 12300"
  then have "unat (word_of_nat n :: u64) = n" by (simp add: unat_of_nat)
  then have sum: "unat (0x101000 + word_of_nat n :: u64) = 0x101000 + n" using n by (subst unat_add_exact) simp_all
  have "(0x101000 + word_of_nat n :: u64) \<noteq> 0x2000"
  proof
    assume "(0x101000 + word_of_nat n :: u64) = 0x2000"
    then have "unat (0x101000 + word_of_nat n :: u64) = unat (0x2000 :: u64)" by (rule arg_cong)
    then have "0x101000 + n = 0x2000" unfolding sum by simp
    then show False by simp
  qed
  moreover have "(ucast (0x101000 :: u32) :: u64) = 0x101000" by simp
  ultimately show ?thesis by (simp only: demo_boot_cpu_fields fun_upd_apply if_False)
qed

theorem boot_enters_long_mode_witness:
  "let t = long_mode_start (boot_bss 0x101000 0x100F00) (start32 (boot_bss 0x101000 0x100F00) demo_boot_cpu)
   in arg_rdi t = 0x36D76289 \<and> arg_rsi t = 0x9500 \<and> mem8 t 0x2000 = 0x85 \<and>
      hw_translate (mem8 t) (cr3 t) 0x1FFFFF = Some 0x1FFFFF \<and> hw_translate (mem8 t) (cr3 t) 0x200000 = None"
  using boot_enters_long_mode [of "0x101000" demo_boot_cpu "0x100F00"] demo_boot_cpu_zeroed
  by (simp add: Let_def)

text \<open>
  Property C37. In the first 2 MB, which the boot code maps with one large page, the paging code takes
  that leaf for a table at address 0. After \<open>paging_init\<close> the processor translates an address there
  to itself, but mapping a page there silently does nothing, \<open>paging_get_physical\<close> answers with
  what low physical memory happens to hold, and unmapping a page overwrites eight bytes of it.
\<close>

theorem boot_region_misread:
  fixes bss sp :: u32 and s :: "'a boot_cpu_scheme"
  defines "t \<equiv> paging_init (long_mode_start (boot_bss bss sp) (start32 (boot_bss bss sp) s))"
  assumes "unat bss + 12300 < 2 ^ 32" and "4096 dvd unat bss" and "unat v < 2 ^ 21"
  shows "hw_translate (mem8 t) (cr3 t) v = Some v \<and> paging_map_page v phys flags t = t \<and>
    paging_get_physical v t = (let e = load64 (mem8 t) (8 * pt_index v)
      in if e AND PAGE_PRESENT = 0 then 0 else (e AND NOT 0xFFF) OR (v AND 0xFFF)) \<and>
    paging_unmap_page v t = emit (Invlpg v) (t\<lparr>mem8 := store64 (8 * pt_index v) 0 (mem8 t)\<rparr>)"
proof -
  define r where "r = start32 (boot_bss bss sp) s"
  note st = start32_spec [OF assms(2), where sp = sp and s = s, folded r_def]
  obtain u :: "'a boot_cpu_scheme" where u: "mem8 r = mem8 (build_tables (boot_bss bss sp) u)" using st(1) by blast
  have t: "mem8 t = mem8 r" "cr3 t = ucast bss" "kernel_pml4 t = ucast bss"
    using paging_init_adopts [of "long_mode_start (boot_bss bss sp) r"] st(4)
    by (simp_all add: t_def r_def [symmetric] long_mode_start_def Let_def)
  have al: "4096 dvd unat (bss + 4096)" "4096 dvd unat (bss + 8192)" "bss + 4096 \<noteq> 0" "bss + 8192 \<noteq> 0"
  proof -
    have "unat (bss + 4096) = unat bss + 4096" "unat (bss + 8192) = unat bss + 8192"
      using assms(2) by (subst unat_add_exact; simp)+
    then show "4096 dvd unat (bss + 4096)" "4096 dvd unat (bss + 8192)" "bss + 4096 \<noteq> 0" "bss + 8192 \<noteq> 0"
      using assms(3) by auto
  qed
  have nz: "ucast x \<noteq> (0 :: u64)" if "x \<noteq> 0" for x :: u32
    using that by (metis unat_up unat_eq_zero)
  note e = tables_entries [OF assms(2), where i = 0 and sp = sp and s = u, simplified]
  have "boot_tables (ucast (bss + 4096)) (ucast (bss + 8192)) t"
    using al e table_entry(1) [OF al(1)] table_entry(1) [OF al(2)] nz
    by (simp add: boot_tables_def read_entry_def t u)
  note region = paging_boot_region [OF this assms(4)]
  have "unat v < 2 ^ 48" using assms(4) by simp
  from boot_translate [OF assms(2,3) this, of sp u] assms(4) have "hw_translate (mem8 t) (cr3 t) v = Some v"
    by (simp add: t u)
  then show ?thesis using region by blast
qed

theorem boot_region_misread_witness:
  "let t = paging_init (long_mode_start (boot_bss 0x101000 0x100F00) (start32 (boot_bss 0x101000 0x100F00) demo_boot_cpu))
   in hw_translate (mem8 t) (cr3 t) 0x5000 = Some 0x5000 \<and> paging_map_page 0x5000 0x7000 3 t = t"
  using boot_region_misread [where bss = "0x101000" and v = "0x5000" and phys = "0x7000" and flags = 3
      and sp = "0x100F00" and s = demo_boot_cpu]
  by (simp add: Let_def)

end
