(* ===== verification/Kill_Running.thy ===== *)
theory Kill_Running
  imports Sched_Correct
begin

text \<open>
  \<open>process_kill\<close> on the running process, which is in no queue: what is left of it.
\<close>

lemma unlink_running:
  assumes "p_prev (proc s p) = 0" and "p_next (proc s p) = 0"
    and "ready_queue_head (scheduler s) \<noteq> p" and "ready_queue_tail (scheduler s) \<noteq> p"
  shows "unlink_process p s = upd_proc p (\<lambda>t. t\<lparr>p_state := PROCESS_TERMINATED\<rparr>) s"
  using assms by (simp add: unlink_process_def Let_def)

lemma kill_running_spec:
  fixes s :: "'a sched_scheme"
  assumes inv: "sys_inv (x # xs) s" and cur: "current_process (scheduler s) = x"
    and links: "p_prev (proc s x) = 0" "p_next (proc s x) = 0"
  defines "t \<equiv> process_kill x s"
  shows "queue_at (x # xs) t" "heap_live t = heap_live s |` (- set (proc_blocks s x))"
    "proc t = (proc s)(x := (proc s x)\<lparr>p_state := PROCESS_TERMINATED\<rparr>)"
    "scheduler t = (scheduler s)\<lparr>process_count := process_count (scheduler s) - 1\<rparr>"
    "heap_ok t"
proof -
  have ok: "heap_ok s" "heap_solo s" and own: "blocks_owned (x # xs) s" and ss: "sched_state (x # xs) s"
    using inv by (simp_all add: sys_inv_def)
  have x0: "x \<noteq> 0"
    using ss cur by (auto simp: sched_state_def sched_at_def queue_wf_def split: if_splits)
  then have at: "sched_at (x # xs) s" using ss cur by (simp add: sched_state_def)
  have q: "queue_wf xs s" "x \<notin> set xs" using at by (simp_all add: sched_at_def)
  then have ends: "ready_queue_head (scheduler s) \<noteq> x" "ready_queue_tail (scheduler s) \<noteq> x"
    using x0 hd_in_set [of xs] last_in_set [of xs] by (auto simp: queue_wf_def)
  define u where "u = upd_proc x (\<lambda>t. t\<lparr>p_state := PROCESS_TERMINATED\<rparr>) s"
  have u: "unlink_process x s = u" unfolding u_def by (rule unlink_running [OF links ends])
  have pu: "proc u = (proc s)(x := (proc s x)\<lparr>p_state := PROCESS_TERMINATED\<rparr>)" "scheduler u = scheduler s"
    by (simp_all add: u_def)
  have "heap_eq s u" unfolding u_def by simp
  note same = heap_eq_same [OF this]
  let ?ks = "p_kernel_stack (proc s x)" and ?us = "p_user_stack (proc s x)"
  have blocks: "distinct [x, ?ks, ?us]" "\<forall>b\<in>{x, ?ks, ?us}. heap_live s b \<noteq> None"
    using own by (auto simp: blocks_owned_def proc_blocks_def dest: live_block_live)
  have nz: "?ks \<noteq> 0" "?us \<noteq> 0" using blocks(2) heap_live_0 [OF ok(1)] by (metis insertCI)+
  define v where "v = fold kfree [?ks, ?us, x] u"
  have t: "t = upd_sched (\<lambda>c. c\<lparr>process_count := process_count c - 1\<rparr>) v"
    unfolding t_def process_kill_def u Let_def v_def using x0 nz by (simp add: pu)
  have "distinct [?ks, ?us, x]" using blocks(1) by auto
  then have rel: "heap_ok v \<and> heap_live v = heap_live u |` (- set [?ks, ?us, x]) \<and> proc v = proc u \<and>
    scheduler v = scheduler u"
    using release_all [of u "[?ks, ?us, x]"] ok blocks(2) by (simp add: v_def same)
  note tv = heap_eq_same [OF heap_eq_steps(2) [of v], folded t]
  show "heap_ok t" using rel tv by (simp add: t)
  have "set [?ks, ?us, x] = set (proc_blocks s x)" by (auto simp: proc_blocks_def)
  then show "heap_live t = heap_live s |` (- set (proc_blocks s x))"
    using rel unfolding same(2) by (simp add: t)
  show p: "proc t = (proc s)(x := (proc s x)\<lparr>p_state := PROCESS_TERMINATED\<rparr>)" using rel by (simp add: t pu)
  show c: "scheduler t = (scheduler s)\<lparr>process_count := process_count (scheduler s) - 1\<rparr>" using rel by (simp add: t pu)
  have "queue_wf xs t" using q(1) by (subst queue_wf_cong [where s = s]) (simp_all add: p c)
  then show "queue_at (x # xs) t" using at by (auto simp: sched_at_def queue_at_def p c)
qed

text \<open>
  Property C35. \<open>process_kill\<close> called for the running process releases its control block and its
  stacks, the one it is running on included, but \<open>current_process\<close> still points to it, and the timer
  goes on counting for it. When its slice ends, \<open>preempt_handler\<close> puts it back into the ready queue and
  marks it ready (or, when it is alone, running): the freed control block is linked into the queue and
  the process will run again, although the heap may by then have given its memory away.
\<close>

theorem kill_running_revives:
  fixes s :: "'a sched_scheme"
  assumes "sys_inv (x # xs) s" and "current_process (scheduler s) = x"
    and "p_prev (proc s x) = 0" and "p_next (proc s x) = 0" and "p_time_slice_remaining (proc s x) = 1"
  defines "t \<equiv> process_kill x s"
  shows "(\<forall>b\<in>set (proc_blocks s x). heap_live t b = None) \<and> current_process (scheduler t) = x \<and>
    p_state (proc t x) = PROCESS_TERMINATED \<and> unat (process_count (scheduler t)) = length xs \<and>
    (\<exists>q u. preempt_handler sp t = Some (q, u) \<and> sched_at (xs @ [x]) u \<and>
       (\<forall>b\<in>set (proc_blocks u x). heap_live u b = None))"
proof -
  note k = kill_running_spec [OF assms(1-4), folded t_def]
  have "p_time_slice_remaining (proc t x) = 1" using assms(5) by (simp add: k(3))
  from expired_tick [OF k(1) this, of sp] obtain q u where
    u: "preempt_handler sp t = Some (q, u)" "sched_at (xs @ [x]) u" by blast
  have kp: "keeps t u" by (rule preempt_handler_keeps [OF u(1)])
  have "proc_blocks t x = proc_blocks s x" by (simp add: proc_blocks_def k(3))
  then have blocks: "proc_blocks u x = proc_blocks s x" using proc_blocks_keeps [OF kp] by metis
  have live: "heap_live u = heap_live t" using kp by (simp add: keeps_def heap_eq_same)
  have "heap_live t b = None" if "b \<in> set (proc_blocks s x)" for b using that by (simp add: k(2))
  moreover have "unat (process_count (scheduler s)) = Suc (length xs)" using assms(1) by (simp add: sys_inv_def)
  then have "unat (process_count (scheduler t)) = length xs"
    by (simp add: k(4)) (metis diff_Suc_1 unat_minus_one unat_0 nat.distinct(1))
  ultimately show ?thesis using u blocks live by (auto simp: k(3,4) assms(2))
qed

theorem kill_running_revives_witness:
  "\<exists>p t q u. process_create (Some ''a'') 0x101000 128 demo_sys = Some (p, t) \<and> p \<noteq> 0 \<and>
     preempt_handler 0x9000 (process_kill p
       (upd_sched (\<lambda>c. c\<lparr>current_process := p, ready_queue_head := 0, ready_queue_tail := 0\<rparr>)
         (upd_proc p (\<lambda>b. b\<lparr>p_state := PROCESS_RUNNING, p_time_slice_remaining := 1, p_next := 0, p_prev := 0\<rparr>) t))) = Some (q, u) \<and>
     current_process (scheduler u) = p \<and> p_state (proc u p) = PROCESS_RUNNING \<and> heap_live u p = None"
proof -
  obtain p t where p: "process_create (Some ''a'') 0x101000 128 demo_sys = Some (p, t)" "p \<noteq> 0" "sys_inv [p] t"
    using process_create_full [OF demo_sys_inv, where nm = "Some ''a''" and entry = "0x101000" and pr = 128 and m = 0]
    by (auto simp: MAX_PROCESSES_def demo_sys_room)
  define s where "s = upd_sched (\<lambda>c. c\<lparr>current_process := p, ready_queue_head := 0, ready_queue_tail := 0\<rparr>)
      (upd_proc p (\<lambda>b. b\<lparr>p_state := PROCESS_RUNNING, p_time_slice_remaining := 1, p_next := 0, p_prev := 0\<rparr>) t)"
  have "keeps t s" unfolding s_def by (intro keeps_steps(1,2) keeps_refl) simp_all
  moreover have "sched_state [p] s" using p(2) by (simp add: s_def sched_state_def sched_at_def queue_wf_def)
  ultimately have "sys_inv [p] s" using sys_inv_step [OF p(3)] by blast
  from kill_running_revives [OF this, of "0x9000"] obtain q u where
    "preempt_handler 0x9000 (process_kill p s) = Some (q, u)" "sched_at [p] u" "heap_live u p = None"
    by (auto simp: s_def proc_blocks_def)
  then show ?thesis using p(1,2) unfolding s_def by (auto simp: sched_at_def)
qed

end
