(* ===== verification/Spec2Isabelle.thy ===== *)
theory Spec2Isabelle
  imports Boot Kheap_Limits Long_Mode Kill_Running
begin

text \<open>
  BlitzOS, an x86-64 kernel: the C code of its drivers, of interrupt handling, memory management
  and the scheduler, translated function by function, and its assembly code, instruction by
  instruction, with what makes each part correct and what holds of the parts together.

  The program. GRUB loads the kernel; \<open>boot.asm\<close> enters long mode with the first 2 MB mapped and
  leaves the Multiboot2 information in memory. \<open>multiboot2_parse\<close> finds the memory map in it,
  \<open>pmm_init\<close> builds a bitmap of page frames from the map, \<open>paging.c\<close> takes its page tables and
  \<open>kheap.c\<close> its heap from those frames. \<open>interrupts_init\<close> fills the interrupt table and reprograms
  the interrupt controllers; the PIT and keyboard drivers are entered from interrupts. Processes
  live in heap blocks and stand in a doubly linked ready queue; the stub of every timer interrupt
  saves the registers on the stack of the process, calls \<open>preempt_handler\<close>, which takes turns every 20
  ticks, and restores the registers from the stack it answers with. All parts print through the
  VGA driver.

  Theories, in the order of their imports, with the code each translates (paths below \<open>src/\<close>).
  Definitions have the names of the C functions; a part of a function (a loop, a branch) has a
  definition of its own, named after what it does.

  \<open>Prelude\<close>, \<open>Machine\<close>, \<open>Numfmt\<close>, \<open>Queue\<close>, \<open>Page_Pool\<close>, \<open>Allocator\<close>: word lemmas and counted loops; the
  processor and its ports; character arrays and the decimal printer that three files copy; and
  the contracts between the parts as locales: \<open>fifo\<close> (interpreted by the keyboard's ring buffer and
  by the ready queue), \<open>page_pool\<close> (by the frame allocator) and \<open>heap_allocator\<close> (by the kernel heap,
  for the process code).

  \<open>Vga\<close> (\<open>drivers/vga.c\<close>), \<open>Pit\<close> (\<open>drivers/pit.c\<close>), \<open>Keyboard\<close> (\<open>drivers/keyboard.c\<close>), \<open>Idt\<close>
  (\<open>kernel/arch/x86_64/idt.c\<close>), \<open>Interrupts\<close> (\<open>interrupts.c\<close>, \<open>interrupts.h\<close>), \<open>Multiboot2\<close>
  (\<open>kernel/boot/multiboot2.c\<close>).

  \<open>Pmm\<close> (\<open>kernel/mm/pmm.c\<close>), \<open>Phys_Mem\<close> (64-bit stores, pages of entries), \<open>Paging\<close>
  (\<open>kernel/mm/paging.c\<close>), \<open>Long_Mode\<close> (\<open>kernel/arch/x86_64/boot/boot.asm\<close>, the processor's walk of the
  page tables, and what \<open>paging.c\<close> makes of the tables of the boot code).

  \<open>Heap_Blocks\<close> (the list of blocks that headers in memory describe, the abstract side), \<open>Kheap\<close>
  (the operations of \<open>kernel/mm/kheap.c\<close>), \<open>Kheap_Growth\<close> (\<open>expand_heap\<close> against the frames),
  \<open>Kheap_Correct\<close> (its properties), \<open>Kheap_Limits\<close> (what it does not guard against).

  \<open>Scheduler\<close> (\<open>kernel/proc/process.c\<close> without creation and removal), \<open>Ready_Queue\<close>, \<open>Preemption\<close>,
  \<open>Scheduling\<close> (queue, tick, round robin), \<open>Process\<close> (\<open>process_create\<close>, \<open>process_kill\<close>, the string
  helpers), \<open>Heap_Client\<close>, \<open>Process_Create\<close>, \<open>Process_Kill\<close> (what they do to heap and queue), \<open>System\<close>
  (creation, removal, start, ticks, yields and other users of the heap in any order),
  \<open>Sched_Correct\<close> (the properties of processes), \<open>Kill_Running\<close> (removing the running process).

  \<open>Cpu\<close> (registers, instructions, interrupt delivery, and with them the routines of
  \<open>kernel/arch/x86_64/isr.asm\<close> and \<open>context_switch.asm\<close>), \<open>Stubs\<close> (the interrupt frame that pushing
  builds and popping takes apart), \<open>Context_Switch\<close> (what a switch saves and loads), \<open>Multitasking\<close>
  (processes that compute and are interrupted, as a step relation), \<open>Boot\<close> (from the memory map to a
  heap and the first processes), and this theory.
\<close>

text \<open>
  State. A state is a record; each component's record extends the one it is built on (\<open>vga\<close>, \<open>pit\<close>,
  \<open>keyboard\<close>, \<open>multiboot\<close>, \<open>pmm\<close>, \<open>paging\<close>, \<open>kheap\<close>, \<open>sched\<close>), with one field per static variable of the
  C file, and operations are polymorphic in what extends it. Integers are words of the C type's
  width, pointers are 64-bit words and 0 is the null pointer. \<open>mem8\<close> is the byte-addressed memory:
  the Multiboot2 information, the frame bitmap, the page tables, the heap's headers and the stacks
  of processes are bytes of it, read and written little-endian. Two things are kept beside it: the
  screen, a function from cell index to cell, and the process control blocks, a function from
  address to record (\<open>proc\<close>). A control block lies in a heap block of its own, which nothing else
  writes while it is live; what the allocator leaves in a fresh block is whatever \<open>proc\<close> has at the
  address. Port writes, \<open>cli\<close>, \<open>sti\<close>, \<open>hlt\<close>, \<open>lidt\<close> and \<open>invlpg\<close> are events of a trace; what a port
  read returns is a function in the state. Addresses that the linker chooses are parameters. The
  record \<open>core\<close> adds the registers to the state of the C code, \<open>boot_cpu\<close> those that the boot code
  uses. C functions called from assembly do what their definitions say and besides leave any
  values in the registers the calling convention lets them use and in \<open>K\<close> bytes of stack below the
  stack pointer (\<open>c_return\<close>); \<open>K\<close> is a parameter, at most 8192, the size of a kernel stack, where one
  interrupt is concerned, and at most 7800 for processes that begin on empty stacks, which leaves
  392 bytes for the frame of creation and that of an interrupt, 176 bytes each, and alignment.

  Loops. Counted loops are recursions on their counter. Loops that follow lengths or pointers
  found in memory, or wait for an interrupt, may not end: they are partial functions and \<open>None\<close> is
  not returning. The one loop that is meant not to end, \<open>halt_forever\<close> after an exception, keeps its
  state: its result is codata, \<open>outcome\<close>, that either returns a state or goes from halt to halt for
  good. Each of the others has a theorem that it returns: \<open>multiboot2_parse\<close> and \<open>pmm_init\<close> on a
  well-formed map, the heap's walks on a well-formed heap, \<open>print_summary\<close> on a well-formed queue,
  \<open>keyboard_getchar\<close>, \<open>keyboard_init\<close> and \<open>pit_sleep\<close> under what the hardware delivers. No fuel is
  used. While a loop waits, interrupts run: what they do is an argument, \<open>env k s\<close> for wake-up \<open>k\<close>.

  What is shown. Frames: exactly the available frames outside kernel and bitmap are free after
  \<open>pmm_init\<close>, the counter is exact in every run, allocation is first fit and never hands a frame
  out twice. Paging: mapping, unmapping and translation refine updates of a finite map of pages.
  Heap: the headers always describe a list of blocks without gaps, allocation is first fit on
  that list, release merges neighbours, live blocks are disjoint and keep their bytes in every run;
  this needs the frames to continue the heap, which \<open>expand_heap\<close> assumes and which is proved for
  a pool of consecutive frames nobody else uses (\<open>heap_solo\<close>); \<open>Kheap_Limits\<close> shows the memory
  the heap takes without owning it where they do not. Processes: creation returns in every state, takes three
  blocks, builds the interrupt frame, and releases everything when it fails; removal undoes it; in
  every run of the system queue, states, counters and heap agree (\<open>sys_inv\<close>). Scheduling: a tick is
  exact on every branch, round robin is fair to the tick, the timer's and the cooperative path
  agree. Assembly: the boot code enters 64-bit code with a mapping of exactly the first 2 MB; the
  stubs of the other interrupt lines are invisible to what they interrupt; a context switch loads
  and saves what it should but for 8 bytes of stack; and in every run of computing processes and
  interrupts every process keeps its processor state (\<open>contexts_ok\<close>), a simulation of independent
  processors by one. The properties of this theory put all of it together, from the boot information
  to processes that take turns and keep their states.

  Not modelled. \<open>kernel_main\<close> is not in the repository, and \<open>process_sleep\<close> is declared in \<open>process.h\<close>
  and defined nowhere; \<open>process_table\<close> is never used. \<open>idt_load.asm\<close> is the \<open>lidt\<close> event. Of the machine:
  interrupts inside the handlers, which run with interrupts off; the arithmetic
  flags that \<open>cmp\<close>, \<open>test\<close>, \<open>add\<close> and \<open>sub\<close> set (a branch tests its operand, \<open>iretq\<close> reloads the
  flags, and the flags a context switch leaves in these bits are idealised); the exceptions of the processor
  itself, so a fault in C code is not modelled, only what happens once it is reported; segment
  registers beyond the two selectors an interrupt saves; the translation of the kernel's own
  accesses, which follow physical addresses directly, as the code does under the boot mapping (that
  only the first 2 MB are mapped, while frames beyond them are handed out, is
  shown in \<open>Long_Mode\<close>). That a computing process leaves the scheduler's data and the stacks of waiting
  processes alone is part of the step relation: the code gives all processes one address space and
  enforces nothing. Build files and linker script hold no program logic.
\<close>

subsection \<open>From the boot information to taking turns\<close>

text \<open>
  Property C1. The whole way: from well-formed boot information whose usable frames are an interval
  with four frames for the heap and twelve for each of \<open>N\<close> processes, \<open>1 \<le> N \<le> 256\<close>, the parser, the
  frame allocator and the heap return from their initialisation, the processes are created, the
  ready queue is the list of them in the order of creation, \<open>scheduler_start\<close> switches to the
  first, and from there every \<open>20 * N\<close> timer ticks give every process exactly 20 ticks and return to
  the first.
\<close>

theorem boot_round_robin:
  fixes s :: "'a sched_scheme"
  assumes tags: "tag_chain (mem8 s) (addr + 8) ts" "\<forall>t\<in>set ts. tag_ok (mem8 s) t"
    and map: "memory_map_ok (mem8 s) (last_tag (mem8 s) MULTIBOOT_TAG_TYPE_MMAP ts (mmap_tag s)) kernel_end es"
    and frames: "usable_pfns (mem8 s) kernel_end es = {n. lo \<le> n \<and> n < hi}" "0 < lo"
    and fresh: "heap_start s = 0" "total_heap_size s = 0"
    and room: "12 * length cs + 4 \<le> unat hi - unat lo" and cs: "cs \<noteq> []" "length cs \<le> 256"
  shows "\<exists>s1 s2 s3 ps t u. multiboot2_parse MULTIBOOT2_BOOTLOADER_MAGIC addr s = Some s1 \<and>
    pmm_init kernel_end s1 = Some s2 \<and> kheap_init s2 = Some s3 \<and>
    create_all cs (scheduler_init s3) = Some (ps, t) \<and> length ps = length cs \<and> distinct ps \<and>
    0 \<notin> set ps \<and> ready_queue t = ps \<and>
    (\<forall>switch. scheduler_start switch t = vga_print (line '''') VGA_COLOR_WHITE
        (vga_print ''[ERR] Context switch returned!'' VGA_COLOR_LIGHT_RED (switch 0 (hd ps) u))) \<and>
    (\<forall>n sps. length sps = n * (20 * length ps) \<longrightarrow> (\<exists>v. run_ticks sps u = Some v \<and>
        current_process (scheduler v) = hd ps \<and> ready_queue v = tl ps \<and>
        (\<forall>p\<in>set ps. p_total_ticks (proc v p) = 20 * word_of_nat n)))"
proof -
  obtain s1 s2 s3 ps t u where b: "multiboot2_parse MULTIBOOT2_BOOTLOADER_MAGIC addr s = Some s1"
    "pmm_init kernel_end s1 = Some s2" "kheap_init s2 = Some s3"
    "create_all cs (scheduler_init s3) = Some (ps, t)" "started cs ps t u"
    using boot_started [OF assms] by blast
  note st = b(5) [unfolded started_def]
  show ?thesis
    using b(1-4) st take_turns [OF b(5)]
    by (intro exI [of _ s1] exI [of _ s2] exI [of _ s3] exI [of _ ps] exI [of _ t] exI [of _ u]) blast
qed

text \<open>
  Property C2. The same boot on the whole machine, with the interrupt stubs and the context switch of
  the assembly code: \<open>scheduler_start\<close> calls the context switch, which enters the first process at the
  entry point it was created with, with interrupts on, so that the print behind the call is not
  reached. From there on, however long the processes compute and whenever interrupts arrive, every
  process has a processor state of its own that only it changes. The others begin, when their turn
  comes, at their entry points on empty stacks. What is needed is that the C code runs in 7800
  bytes of stack and that the boot stack, from which \<open>scheduler_start\<close> is called, is not one of the
  process stacks.
\<close>

theorem boot_processes_keep_state:
  fixes s :: core
  assumes tags: "tag_chain (mem8 s) (addr + 8) ts" "\<forall>t\<in>set ts. tag_ok (mem8 s) t"
    and map: "memory_map_ok (mem8 s) (last_tag (mem8 s) MULTIBOOT_TAG_TYPE_MMAP ts (mmap_tag s)) kernel_end es"
    and frames: "usable_pfns (mem8 s) kernel_end es = {n. lo \<le> n \<and> n < hi}" "0 < lo"
    and fresh: "heap_start s = 0" "total_heap_size s = 0"
    and room: "12 * length cs + 4 \<le> unat hi - unat lo" and cs: "cs \<noteq> []" "length cs \<le> 256"
    and K: "K \<le> 7800"
  shows "\<exists>s1 s2 s3 ps t u. multiboot2_parse MULTIBOOT2_BOOTLOADER_MAGIC addr s = Some s1 \<and>
    pmm_init kernel_end s1 = Some s2 \<and> kheap_init s2 = Some s3 \<and>
    create_all cs (scheduler_init s3) = Some (ps, t) \<and> sys_inv ps t \<and>
    map (\<lambda>p. rip (p_registers (proc t p))) ps = map (\<lambda>c. fst (snd c)) cs \<and>
    (\<forall>switch. scheduler_start switch t = vga_print (line '''') VGA_COLOR_WHITE
        (vga_print ''[ERR] Context switch returned!'' VGA_COLOR_LIGHT_RED (switch 0 (hd ps) u))) \<and>
    (\<forall>c ra evs v. (\<forall>p\<in>set ps. \<forall>j<8. gpr c RSP - 8 + word_of_nat j \<notin> kstack t p) \<longrightarrow>
       mach_run K evs (call_context_switch c ra 0 (hd ps) u) v \<longrightarrow>
       (\<exists>k. contexts_ok K (rotate k ps) (own_states evs (first_states c ps t)) v) \<and>
       (\<forall>n e. \<exists>w k. irq_stub K e n (deliver None v) = Some w \<and>
          contexts_ok K (rotate k ps) (own_states evs (first_states c ps t)) w))"
proof -
  obtain s1 s2 s3 ps t u where b: "multiboot2_parse MULTIBOOT2_BOOTLOADER_MAGIC addr s = Some s1"
    "pmm_init kernel_end s1 = Some s2" "kheap_init s2 = Some s3"
    "create_all cs (scheduler_init s3) = Some (ps, t)" "started cs ps t u"
    using boot_started [OF assms(1-10)] by blast
  have inv: "sys_inv ps t" and fs: "list_all2 (first_state t) cs ps"
    and start: "\<forall>switch. scheduler_start switch t = vga_print (line '''') VGA_COLOR_WHITE
        (vga_print ''[ERR] Context switch returned!'' VGA_COLOR_LIGHT_RED (switch 0 (hd ps) u))"
    using b(5) by (simp_all add: started_def)
  have entries: "map (\<lambda>p. rip (p_registers (proc t p))) ps = map (\<lambda>c. fst (snd c)) cs"
    using fs by (induction rule: list_all2_induct) (simp_all add: first_state_def)
  have "(\<exists>k. contexts_ok K (rotate k ps) (own_states evs (first_states c ps t)) v) \<and>
       (\<forall>n e. \<exists>w k. irq_stub K e n (deliver None v) = Some w \<and>
          contexts_ok K (rotate k ps) (own_states evs (first_states c ps t)) w)"
    if "\<forall>p\<in>set ps. \<forall>j<8. gpr c RSP - 8 + word_of_nat j \<notin> kstack t p"
      and "mach_run K evs (call_context_switch c ra 0 (hd ps) u) v" for c ra evs v
  proof -
    have "contexts_ok K ps (first_states c ps t) (call_context_switch c ra 0 (hd ps) u)"
      using start_contexts [OF b(5) K] that(1) by blast
    from mach_run_ok [OF that(2) this] obtain k where
      k: "contexts_ok K (rotate k ps) (own_states evs (first_states c ps t)) v" by blast
    then show ?thesis using interrupt_returns [OF k] by (metis rotate_rotate)
  qed
  then show ?thesis using b(1-4) inv entries start
    by (intro exI [of _ s1] exI [of _ s2] exI [of _ s3] exI [of _ ps] exI [of _ t] exI [of _ u]) blast
qed

text \<open>One available region of 64 frames from 1 MiB up; the first two hold the kernel and the bitmap.\<close>

definition demo_boot_info :: "u64 \<Rightarrow> u8" where
  "demo_boot_info = (\<lambda>_. 0)(8 := 4, 12 := 16, 24 := 6, 28 := 40, 32 := 24, 42 := 16, 50 := 4, 56 := 1)"

definition demo_boot_sys :: sched where
  "demo_boot_sys = demo_sys\<lparr>mem8 := demo_boot_info, heap_start := 0, total_heap_size := 0\<rparr>"

lemma demo_boot_sys_fields [simp]:
  "mem8 demo_boot_sys = demo_boot_info" "heap_start demo_boot_sys = 0" "total_heap_size demo_boot_sys = 0"
  by (simp_all add: demo_boot_sys_def)

lemma demo_boot_tags:
  "tag_type demo_boot_info 8 = 4" "tag_type demo_boot_info 24 = 6" "tag_chain demo_boot_info 8 [8, 24]"
  "entry_chain (mmap_limit demo_boot_info 24) (mmap_step demo_boot_info 24) (mmap_entries 24) [40]"
  by code_simp+

lemma demo_boot_tags_ok: "\<forall>t\<in>set [8, 24]. tag_ok demo_boot_info t"
proof -
  have "\<exists>es. entry_chain (mmap_limit demo_boot_info 24) (mmap_step demo_boot_info 24) (mmap_entries 24) es"
    using demo_boot_tags(4) by (rule exI)
  with demo_boot_tags(1,2) show ?thesis by (simp add: tag_ok_def tag_types)
qed

lemma demo_boot_entry:
  "init_pages demo_boot_info [40] = 320" "bitmap_bytes 320 = 40"
  "entry_addr demo_boot_info 40 = 0x100000" "entry_len demo_boot_info 40 = 0x40000"
  "entry_available demo_boot_info 40"
  by code_simp+

lemma demo_boot_map: "memory_map_ok demo_boot_info 24 0x101000 [40]"
proof -
  have "0x101000 + j \<notin> mmap_bytes 24 [40]" if "j < 40" for j :: u64
    using that by (intro demo_mmap_outside) (simp add: word_less_nat_alt)
  then show ?thesis using demo_boot_tags(4) by (auto simp: memory_map_ok_def demo_boot_entry)
qed

lemma demo_boot_frames: "usable_pfns demo_boot_info 0x101000 [40] = {n. 258 \<le> n \<and> n < 320}"
proof -
  have "in_region demo_boot_info 40 n \<longleftrightarrow> 256 \<le> unat n \<and> unat n < 320" for n
    by (simp add: in_region_def demo_boot_entry)
  moreover have "reserved_pfn 0x101000 320 n \<longleftrightarrow> 256 \<le> unat n \<and> unat n < 258" for n
    by (simp add: reserved_pfn_def demo_boot_entry)
  ultimately show ?thesis
    by (auto simp: usable_pfns_def demo_boot_entry word_le_nat_alt word_less_nat_alt)
qed

lemma demo_boot_ready:
  fixes s :: "'a sched_scheme"
  assumes "mem8 s = demo_boot_info"
  shows "tag_chain (mem8 s) (0 + 8) [8, 24]" "\<forall>t\<in>set [8, 24]. tag_ok (mem8 s) t"
    "memory_map_ok (mem8 s) (last_tag (mem8 s) MULTIBOOT_TAG_TYPE_MMAP [8, 24] (mmap_tag s)) 0x101000 [40]"
    "usable_pfns (mem8 s) 0x101000 [40] = {n. 258 \<le> n \<and> n < 320}" "(0 :: u64) < 258"
proof -
  have "last_tag demo_boot_info MULTIBOOT_TAG_TYPE_MMAP [8, 24] x = 24" for x
    using demo_boot_tags(1,2) by (simp add: tag_types)
  then show "memory_map_ok (mem8 s) (last_tag (mem8 s) MULTIBOOT_TAG_TYPE_MMAP [8, 24] (mmap_tag s)) 0x101000 [40]"
    using demo_boot_map assms by simp
  show "tag_chain (mem8 s) (0 + 8) [8, 24]" "\<forall>t\<in>set [8, 24]. tag_ok (mem8 s) t"
    using demo_boot_tags(3) demo_boot_tags_ok unfolding assms add_0 .
qed (use demo_boot_frames assms in simp_all)

definition demo_programs :: "(string option \<times> u64 \<times> u32) list" where
  "demo_programs = [(Some ''a'', 0x101000, 128), (None, 0x102000, 128)]"

lemma demo_programs_fit:
  "12 * length demo_programs + 4 \<le> unat (320 :: u64) - unat (258 :: u64)" "demo_programs \<noteq> []"
  "length demo_programs \<le> 256" "length demo_programs = 2" "map (\<lambda>c. fst (snd c)) demo_programs = [0x101000, 0x102000]"
  by (simp_all add: demo_programs_def)

theorem boot_round_robin_witness:
  "\<exists>s1 s2 s3 p q t (u :: sched). multiboot2_parse MULTIBOOT2_BOOTLOADER_MAGIC 0 demo_boot_sys = Some s1 \<and>
     pmm_init 0x101000 s1 = Some s2 \<and> kheap_init s2 = Some s3 \<and>
     create_all demo_programs (scheduler_init s3) = Some ([p, q], t) \<and>
     p \<noteq> q \<and> scheduler_start (\<lambda>_ _ _. u) t = vga_print (line '''') VGA_COLOR_WHITE
        (vga_print ''[ERR] Context switch returned!'' VGA_COLOR_LIGHT_RED u) \<and>
     (\<exists>v. run_ticks (replicate 80 0x9000) u = Some v \<and> current_process (scheduler v) = p \<and>
       p_total_ticks (proc v p) = 40 \<and> p_total_ticks (proc v q) = 40)"
proof -
  note ready = demo_boot_ready [of demo_boot_sys, OF demo_boot_sys_fields(1)]
  have fresh: "heap_start demo_boot_sys = 0" "total_heap_size demo_boot_sys = 0" by simp_all
  obtain s1 s2 s3 ps t and u :: sched where r: "multiboot2_parse MULTIBOOT2_BOOTLOADER_MAGIC 0 demo_boot_sys = Some s1"
    "pmm_init 0x101000 s1 = Some s2" "kheap_init s2 = Some s3"
    "create_all demo_programs (scheduler_init s3) = Some (ps, t)" "length ps = length demo_programs" "distinct ps"
    "\<forall>switch. scheduler_start switch t = vga_print (line '''') VGA_COLOR_WHITE
        (vga_print ''[ERR] Context switch returned!'' VGA_COLOR_LIGHT_RED (switch 0 (hd ps) u))"
    "\<forall>n sps. length sps = n * (20 * length ps) \<longrightarrow> (\<exists>v. run_ticks sps u = Some v \<and>
        current_process (scheduler v) = hd ps \<and> ready_queue v = tl ps \<and>
        (\<forall>p\<in>set ps. p_total_ticks (proc v p) = 20 * word_of_nat n))"
    using boot_round_robin [OF ready fresh demo_programs_fit(1-3)] by blast
  obtain p q where ps: "ps = [p, q]" using r(5) demo_programs_fit(4) by (auto simp: length_Suc_conv numeral_2_eq_2)
  have len: "length (replicate 80 0x9000 :: u64 list) = 2 * (20 * length ps)" by (simp add: ps)
  obtain v where "run_ticks (replicate 80 0x9000) u = Some v" "current_process (scheduler v) = p"
    "\<forall>z\<in>set ps. p_total_ticks (proc v z) = 20 * word_of_nat 2"
    using r(8) [rule_format, OF len] unfolding ps list.sel by blast
  moreover have "p \<noteq> q" "create_all demo_programs (scheduler_init s3) = Some ([p, q], t)" using r(4,6) by (simp_all add: ps)
  moreover have "scheduler_start (\<lambda>_ _ _. u) t = vga_print (line '''') VGA_COLOR_WHITE
        (vga_print ''[ERR] Context switch returned!'' VGA_COLOR_LIGHT_RED u)"
    using r(7) by blast
  moreover have "p \<in> set ps" "q \<in> set ps" "(20 :: u32) * word_of_nat 2 = 40" by (simp_all add: ps)
  ultimately show ?thesis using r(1-3) by metis
qed

definition demo_boot_core :: core where
  "demo_boot_core = sched.extend demo_boot_sys (core.fields demo_cpu)"

lemma demo_boot_core_fields [simp]:
  "mem8 demo_boot_core = demo_boot_info" "heap_start demo_boot_core = 0" "total_heap_size demo_boot_core = 0"
  "mmap_tag demo_boot_core = mmap_tag demo_boot_sys"
  by (simp_all add: demo_boot_core_def sched.defs core.defs demo_boot_sys_def)

theorem boot_processes_keep_state_witness:
  "\<exists>s1 s2 s3 p q t u v. multiboot2_parse MULTIBOOT2_BOOTLOADER_MAGIC 0 demo_boot_core = Some s1 \<and>
     pmm_init 0x101000 s1 = Some s2 \<and> kheap_init s2 = Some s3 \<and>
     create_all demo_programs (scheduler_init s3) = Some ([p, q], t) \<and>
     rip (p_registers (proc t p)) = 0x101000 \<and> rip (p_registers (proc t q)) = 0x102000 \<and>
     scheduler_start (\<lambda>_ _ _. u) t = vga_print (line '''') VGA_COLOR_WHITE
        (vga_print ''[ERR] Context switch returned!'' VGA_COLOR_LIGHT_RED u) \<and>
     mach_run 64 [Irq 0 demo_effect]
       (call_context_switch (demo_cpu\<lparr>gpr := (\<lambda>_. 0)(RSP := 8)\<rparr>) 0x100800 0 p u) v \<and>
     cpu v = first_states (demo_cpu\<lparr>gpr := (\<lambda>_. 0)(RSP := 8)\<rparr>) [p, q] t (current_process (scheduler v))"
proof -
  let ?c = "demo_cpu\<lparr>gpr := (\<lambda>_. 0)(RSP := 8)\<rparr>"
  note ready = demo_boot_ready [of demo_boot_core, OF demo_boot_core_fields(1)]
  have fresh: "heap_start demo_boot_core = 0" "total_heap_size demo_boot_core = 0" by simp_all
  have K: "(64 :: nat) \<le> 7800" by simp
  obtain s1 s2 s3 ps t u where r: "multiboot2_parse MULTIBOOT2_BOOTLOADER_MAGIC 0 demo_boot_core = Some s1"
    "pmm_init 0x101000 s1 = Some s2" "kheap_init s2 = Some s3"
    "create_all demo_programs (scheduler_init s3) = Some (ps, t)" "sys_inv ps t"
    "map (\<lambda>p. rip (p_registers (proc t p))) ps = map (\<lambda>c. fst (snd c)) demo_programs"
    "\<forall>switch. scheduler_start switch t = vga_print (line '''') VGA_COLOR_WHITE
        (vga_print ''[ERR] Context switch returned!'' VGA_COLOR_LIGHT_RED (switch 0 (hd ps) u))"
    and run: "\<And>c ra evs v. \<forall>p\<in>set ps. \<forall>j<8. gpr c RSP - 8 + word_of_nat j \<notin> kstack t p \<Longrightarrow>
       mach_run 64 evs (call_context_switch c ra 0 (hd ps) u) v \<Longrightarrow>
       (\<exists>k. contexts_ok 64 (rotate k ps) (own_states evs (first_states c ps t)) v) \<and>
       (\<forall>n e. \<exists>w k. irq_stub 64 e n (deliver None v) = Some w \<and>
          contexts_ok 64 (rotate k ps) (own_states evs (first_states c ps t)) w)"
    using boot_processes_keep_state [OF ready fresh demo_programs_fit(1-3) K] by blast
  obtain p q where ps: "ps = [p, q]" using r(6) by (auto simp: demo_programs_fit Cons_eq_map_conv)
  have low: "\<forall>p\<in>set ps. \<forall>j<8. gpr ?c RSP - 8 + word_of_nat j \<notin> kstack t p"
    using stack_not_low [OF r(5)] by (simp add: unat_small)
  let ?s = "call_context_switch ?c 0x100800 0 (hd ps) u"
  have own: "own_states [] f = f" "own_states [Irq n e] f = f" for f n e by (simp_all add: own_states_def)
  have begins: "mach_run 64 [] ?s ?s" by (rule mach_run.stop)
  obtain k where ok: "contexts_ok 64 (rotate k ps) (first_states ?c ps t) ?s"
    using run [OF low begins] unfolding own by blast
  have "cpu ?s = first_states ?c ps t (current_process (scheduler ?s))"
    using ok by (simp add: contexts_ok_def sched_at_def)
  then have flags: "eflags (cpu ?s) AND IF \<noteq> 0"
    by (simp add: first_states_def loaded_def fresh_cpu_def demo_cpu_def IF_def)
  obtain v where v: "irq_stub 64 demo_effect 0 (deliver None ?s) = Some v"
    using run [OF low begins] by blast
  have r1: "mach_run 64 [Irq 0 demo_effect] ?s v"
    using flags v by (simp add: mach_run_simps mach_step_simps)
  obtain j where "contexts_ok 64 (rotate j ps) (first_states ?c ps t) v"
    using run [OF low r1] unfolding own by blast
  then have "cpu v = first_states ?c ps t (current_process (scheduler v))"
    by (simp add: contexts_ok_def sched_at_def)
  moreover have "rip (p_registers (proc t p)) = 0x101000" "rip (p_registers (proc t q)) = 0x102000"
    using r(6) by (simp_all add: ps demo_programs_fit)
  moreover have "scheduler_start (\<lambda>_ _ _. u) t = vga_print (line '''') VGA_COLOR_WHITE
        (vga_print ''[ERR] Context switch returned!'' VGA_COLOR_LIGHT_RED u)"
    using r(7) by blast
  ultimately show ?thesis using r(1-4) r1 unfolding ps list.sel by blast
qed

end
